(* ===== verification/Zay_Prelude.thy ===== *)
theory Zay_Prelude
  imports Main "HOL-Library.Word"
begin

text \<open>
  Shared vocabulary of the development: the machine integers and byte strings of the Rust
  sources, clock values, big-endian byte encodings, the ordered maps and sets of the standard
  library, and the contracts (locales) that several components implement.

  \<^item> \<open>u8\<close> \dots \<open>u128\<close> are words, so \<open>+\<close> and \<open>-\<close> wrap as \<open>wrapping_add\<close> and
    \<open>wrapping_sub\<close> do; where the code uses checked or saturating arithmetic the model tests
    the bound first.
  \<^item> \<open>Instant\<close> and \<open>Duration\<close> are natural numbers of nanoseconds. \<open>duration_since\<close> and
    \<open>saturating_duration_since\<close> are truncated subtraction, which is their documented result
    for an earlier argument.
  \<^item> A \<open>BTreeMap\<close> is an association list with strictly ascending keys, so iteration is in
    key order; a \<open>BTreeSet\<close> is a strictly ascending list. A \<open>HashMap\<close> or \<open>HashSet\<close> whose
    contents are only looked up is a map or a set.
  \<^item> A mutex guards one state value: an operation that holds the lock is one atomic step on
    that value, and concurrent callers are a sequence of such steps.
\<close>

unbundle bit_operations_syntax

type_synonym u8 = "8 word"
type_synonym u16 = "16 word"
type_synonym u32 = "32 word"
type_synonym u64 = "64 word"
type_synonym u128 = "128 word"
type_synonym bytes = "u8 list"
type_synonym instant = nat
type_synonym duration = nat

text \<open>\<open>std::net::IpAddr\<close> by its bits, and a socket address as address and port.\<close>

datatype ip_addr = V4 u32 | V6 u128

fun is_ipv4 :: "ip_addr \<Rightarrow> bool" where
  "is_ipv4 (V4 _) = True"
| "is_ipv4 (V6 _) = False"

type_synonym socket_addr = "ip_addr \<times> u16"

abbreviation secs :: "nat \<Rightarrow> duration" where
  "secs n \<equiv> n * 1000000000"

named_theorems codec_simps \<open>round trips and lengths of byte encodings\<close>
named_theorems inv_intros \<open>operations that preserve a component's invariant\<close>

subsection \<open>Big-endian byte encodings\<close>

definition be16 :: "u16 \<Rightarrow> bytes" where
  "be16 w = [ucast (drop_bit 8 w), ucast w]"

fun of_be16 :: "bytes \<Rightarrow> u16" where
  "of_be16 [a, b] = push_bit 8 (ucast a) OR ucast b"
| "of_be16 _ = 0"

definition be32 :: "u32 \<Rightarrow> bytes" where
  "be32 w = [ucast (drop_bit 24 w), ucast (drop_bit 16 w), ucast (drop_bit 8 w), ucast w]"

fun of_be32 :: "bytes \<Rightarrow> u32" where
  "of_be32 [a, b, c, d] =
     push_bit 24 (ucast a) OR push_bit 16 (ucast b) OR push_bit 8 (ucast c) OR ucast d"
| "of_be32 _ = 0"

lemma length_be16 [simp]: "length (be16 w) = 2"
  by (simp add: be16_def)

lemma length_be32 [simp]: "length (be32 w) = 4"
  by (simp add: be32_def)

lemma of_be16_be16 [simp, codec_simps]: "of_be16 (be16 w) = w"
proof (rule bit_word_eqI)
  fix n assume "n < LENGTH(16)"
  then show "bit (of_be16 (be16 w)) n = bit w n"
    by (cases "n < 8") (auto simp: be16_def bit_simps)
qed

lemma of_be32_be32 [simp, codec_simps]: "of_be32 (be32 w) = w"
proof (rule bit_word_eqI)
  fix n assume "n < LENGTH(32)"
  then show "bit (of_be32 (be32 w)) n = bit w n"
    by (cases "n < 8"; cases "n < 16"; cases "n < 24") (auto simp: be32_def bit_simps)
qed

lemma length_two: "length xs = 2 \<longleftrightarrow> (\<exists>a b. xs = [a, b])"
  by (auto simp: numeral_2_eq_2 length_Suc_conv)

lemma length_four: "length xs = 4 \<longleftrightarrow> (\<exists>a b c d. xs = [a, b, c, d])"
  by (auto simp: numeral_eq_Suc length_Suc_conv)

lemma bit_u8_high [simp]: "8 \<le> n \<Longrightarrow> \<not> bit (b :: u8) n"
  by (auto dest: bit_imp_le_length)

lemma bit_below:
  assumes "unat w < 2 ^ k" "bit w n"
  shows "n < k"
proof -
  have "take_bit k (unat w) = unat w" using assms(1) by (rule take_bit_nat_eq_self)
  moreover have "bit (unat w) n" using assms(2) by (simp add: bit_unsigned_iff)
  ultimately show ?thesis by (metis bit_take_bit_iff)
qed

lemma unat_succ:
  assumes "(w :: 'a::len word) \<noteq> - 1"
  shows "unat (w + 1) = Suc (unat w)"
proof -
  have "unat w + 1 \<noteq> 2 ^ LENGTH('a)"
  proof
    assume "unat w + 1 = 2 ^ LENGTH('a)"
    then have "(of_nat (unat w + 1) :: 'a word) = of_nat (2 ^ LENGTH('a))" by simp
    then have "w + 1 = 0" by (simp add: add.commute)
    with assms show False by (simp add: eq_neg_iff_add_eq_0)
  qed
  with unsigned_less [of w, where ?'a = nat] have "unat w + 1 < 2 ^ LENGTH('a)" by linarith
  then have "unat w + unat (1 :: 'a word) < 2 ^ LENGTH('a)" by simp
  then have "unat (w + 1) = unat w + unat (1 :: 'a word)" by (simp only: unat_add_lem)
  then show ?thesis by simp
qed

lemma be16_of_be16 [codec_simps]: "length xs = 2 \<Longrightarrow> be16 (of_be16 xs) = xs"
  by (auto simp: length_two be16_def bit_simps intro!: bit_word_eqI)

lemma be32_of_be32 [codec_simps]: "length xs = 4 \<Longrightarrow> be32 (of_be32 xs) = xs"
  by (auto simp: length_four be32_def bit_simps intro!: bit_word_eqI)

subsection \<open>Ordered maps and sets\<close>

abbreviation ascending :: "'k::linorder list \<Rightarrow> bool" where
  "ascending ks \<equiv> sorted_wrt (<) ks"

abbreviation btree_wf :: "('k::linorder \<times> 'v) list \<Rightarrow> bool" where
  "btree_wf m \<equiv> ascending (map fst m)"

fun btree_insert :: "'k::linorder \<Rightarrow> 'v \<Rightarrow> ('k \<times> 'v) list \<Rightarrow> ('k \<times> 'v) list" where
  "btree_insert k v [] = [(k, v)]"
| "btree_insert k v ((j, u) # m) =
     (if k = j then (k, v) # m
      else if k < j then (k, v) # (j, u) # m
      else (j, u) # btree_insert k v m)"

definition btree_remove :: "'k \<Rightarrow> ('k \<times> 'v) list \<Rightarrow> ('k \<times> 'v) list" where
  "btree_remove k m = filter (\<lambda>e. fst e \<noteq> k) m"

lemma map_of_btree_insert [simp]: "map_of (btree_insert k v m) = (map_of m)(k \<mapsto> v)"
  by (induction m) (auto simp: fun_eq_iff)

lemma keys_btree_insert [simp]: "fst ` set (btree_insert k v m) = insert k (fst ` set m)"
proof (induction m)
  case (Cons e m)
  then show ?case by (cases e) (simp add: insert_commute)
qed simp

lemma btree_wf_insert [inv_intros]: "btree_wf m \<Longrightarrow> btree_wf (btree_insert k v m)"
proof (induction m)
  case (Cons e m)
  have "fst e < k \<Longrightarrow> \<forall>x \<in> set (map fst (btree_insert k v m)). fst e < x"
    using Cons.prems keys_btree_insert [of k v m] by force
  with Cons show ?case by (cases e) auto
qed simp

lemma set_btree_insert_subset: "set (btree_insert k v m) \<subseteq> insert (k, v) (set m)"
  by (induction m) (auto split: if_splits)

lemma length_btree_insert:
  "btree_wf m \<Longrightarrow> length (btree_insert k v m) = (if k \<in> fst ` set m then length m else Suc (length m))"
  by (induction m) force+

lemma map_of_btree_remove [simp]: "map_of (btree_remove k m) = (map_of m)(k := None)"
  by (induction m) (auto simp: btree_remove_def fun_eq_iff)

lemma keys_btree_remove [simp]: "fst ` set (btree_remove k m) = fst ` set m - {k}"
  by (auto simp: btree_remove_def)

lemma set_btree_remove_subset: "set (btree_remove k m) \<subseteq> set m"
  by (auto simp: btree_remove_def)

lemma ascending_filter: "ascending (map f xs) \<Longrightarrow> ascending (map f (filter P xs))"
  by (induction xs) auto

lemma btree_wf_remove [inv_intros]: "btree_wf m \<Longrightarrow> btree_wf (btree_remove k m)"
  unfolding btree_remove_def by (rule ascending_filter)

lemma length_btree_remove: "length (btree_remove k m) \<le> length m"
  by (simp add: btree_remove_def)

lemma ascending_distinct: "ascending (xs :: 'k::linorder list) \<Longrightarrow> distinct xs"
  by (induction xs) auto

lemma length_btree_remove_present:
  "btree_wf m \<Longrightarrow> k \<in> fst ` set m \<Longrightarrow> Suc (length (btree_remove k m)) = length m"
proof (induction m)
  case (Cons e m)
  show ?case
  proof (cases "fst e = k")
    case True
    with Cons.prems have "filter (\<lambda>x. fst x \<noteq> k) m = m"
      by (auto simp: filter_id_conv)
    with True show ?thesis by (simp add: btree_remove_def)
  next
    case False
    with Cons show ?thesis by (auto simp: btree_remove_def)
  qed
qed simp

lemma map_of_in_set: "map_of m k = Some v \<Longrightarrow> (k, v) \<in> set m"
  by (rule map_of_SomeD)

subsection \<open>Ordered sets and saturating arithmetic\<close>

abbreviation bset_insert :: "'k::linorder \<Rightarrow> 'k list \<Rightarrow> 'k list" where
  "bset_insert \<equiv> insort_insert"

lemma ascending_iff: "ascending (xs :: 'k::linorder list) \<longleftrightarrow> sorted xs \<and> distinct xs"
  by (simp add: strict_sorted_iff)

lemma ascending_bset_insert [inv_intros]: "ascending xs \<Longrightarrow> ascending (bset_insert x xs)"
  by (simp add: ascending_iff sorted_insort_insert distinct_insort_insert)

lemma length_bset_insert: "length (bset_insert x xs) = (if x \<in> set xs then length xs else Suc (length xs))"
  by (simp add: insort_insert_key_def)

definition sat_add :: "'a::len word \<Rightarrow> 'a word \<Rightarrow> 'a word" where
  "sat_add a b = (if a > - 1 - b then - 1 else a + b)"

definition sat_sub :: "'a::len word \<Rightarrow> 'a word \<Rightarrow> 'a word" where
  "sat_sub a b = (if a < b then 0 else a - b)"

lemma unat_max_minus: "unat (- 1 - b :: 'a::len word) = 2 ^ LENGTH('a) - 1 - unat b"
proof -
  have "b \<le> - 1" by (simp add: word_order.extremum)
  then have "unat (- 1 - b) = unat (- 1 :: 'a word) - unat b" by (simp add: unat_sub)
  then show ?thesis by (simp add: unsigned_minus_1_eq_mask mask_eq_exp_minus_1)
qed

lemma unat_sat_add: "unat (sat_add a b) = min (unat a + unat b) (2 ^ LENGTH('a) - 1)" for a b :: "'a::len word"
proof (cases "a > - 1 - b")
  case True
  then have "unat a > 2 ^ LENGTH('a) - 1 - unat b" by (simp add: word_less_nat_alt unat_max_minus)
  then show ?thesis using True by (simp add: sat_add_def unsigned_minus_1_eq_mask mask_eq_exp_minus_1)
next
  case False
  then have "unat a \<le> 2 ^ LENGTH('a) - 1 - unat b"
    by (simp add: word_less_nat_alt unat_max_minus not_less)
  moreover have "unat b \<le> 2 ^ LENGTH('a) - 1"
    using unsigned_less [of b, where ?'a = nat] by linarith
  ultimately have *: "unat a + unat b \<le> 2 ^ LENGTH('a) - 1" by linarith
  moreover have "(0 :: nat) < 2 ^ LENGTH('a)" by simp
  ultimately have "unat a + unat b < 2 ^ LENGTH('a)" by linarith
  then have "unat (a + b) = unat a + unat b" by (simp only: unat_add_lem)
  then show ?thesis using False * by (simp add: sat_add_def)
qed

lemma unat_sat_sub: "unat (sat_sub a b) = unat a - unat b"
  by (auto simp: sat_sub_def unat_sub word_less_nat_alt not_less word_le_nat_alt)

subsection \<open>Strings\<close>

text \<open>
  Rust strings are lists of characters; the case conversions and the whitespace test are the ASCII
  ones, which is what the configuration values they are applied to consist of.
\<close>

definition ascii_upper :: "char \<Rightarrow> char" where
  "ascii_upper c = (let n = of_char c :: nat in if 97 \<le> n \<and> n \<le> 122 then char_of (n - 32) else c)"

definition ascii_lower :: "char \<Rightarrow> char" where
  "ascii_lower c = (let n = of_char c :: nat in if 65 \<le> n \<and> n \<le> 90 then char_of (n + 32) else c)"

definition to_ascii_uppercase :: "string \<Rightarrow> string" where
  "to_ascii_uppercase s = map ascii_upper s"

definition to_ascii_lowercase :: "string \<Rightarrow> string" where
  "to_ascii_lowercase s = map ascii_lower s"

definition is_whitespace :: "char \<Rightarrow> bool" where
  "is_whitespace c \<longleftrightarrow> (let n = of_char c :: nat in 9 \<le> n \<and> n \<le> 13 \<or> n = 32)"

definition trim_start :: "string \<Rightarrow> string" where
  "trim_start s = dropWhile is_whitespace s"

definition trim_end :: "string \<Rightarrow> string" where
  "trim_end s = rev (dropWhile is_whitespace (rev s))"

definition trim :: "string \<Rightarrow> string" where
  "trim s = trim_end (trim_start s)"

lemma ascii_upper_idem [simp]: "ascii_upper (ascii_upper c) = ascii_upper c"
  by (auto simp: ascii_upper_def Let_def)

lemma whitespace_upper [simp]: "is_whitespace (ascii_upper c) = is_whitespace c"
  by (auto simp: ascii_upper_def is_whitespace_def Let_def)

lemma trim_uppercase: "trim (to_ascii_uppercase s) = to_ascii_uppercase (trim s)"
  by (simp add: trim_def trim_start_def trim_end_def to_ascii_uppercase_def dropWhile_map rev_map comp_def)

lemma uppercase_idem [simp]: "to_ascii_uppercase (to_ascii_uppercase s) = to_ascii_uppercase s"
  by (simp add: to_ascii_uppercase_def comp_def)

lemma trim_end_Cons: "\<not> is_whitespace x \<Longrightarrow> trim_end (x # xs) = x # trim_end xs"
  by (simp add: trim_end_def dropWhile_append)

lemma trim_idem [simp]: "trim (trim s) = trim s"
proof (cases "trim_start s")
  case Nil
  then have "trim s = []" by (simp add: trim_def trim_end_def)
  moreover have "trim [] = []" by (simp add: trim_def trim_end_def trim_start_def)
  ultimately show ?thesis by (simp only:)
next
  case (Cons x xs)
  then have x: "\<not> is_whitespace x" unfolding trim_start_def by (metis hd_dropWhile list.discI list.sel(1))
  then have t: "trim s = x # trim_end xs" by (simp add: trim_def Cons trim_end_Cons)
  have "trim_end (trim_end xs) = trim_end xs" by (simp add: trim_end_def)
  with x show ?thesis unfolding t by (simp add: trim_def trim_start_def trim_end_Cons)
qed

subsection \<open>Contracts shared by several components\<close>

text \<open>
  An event-driven component: every event keeps the invariant, hence so does every run from
  the initial state, in whatever order the events interleave.
\<close>

locale event_system =
  fixes init :: 's
    and step :: "'e \<Rightarrow> 's \<Rightarrow> 's"
    and invar :: "'s \<Rightarrow> bool"
  assumes invar_init: "invar init"
    and invar_step: "invar s \<Longrightarrow> invar (step e s)"
begin

lemma invar_run: "invar s \<Longrightarrow> invar (fold step es s)"
  by (induction es arbitrary: s) (auto intro: invar_step)

lemma invar_reached: "invar (fold step es init)"
  by (intro invar_run invar_init)

end

text \<open>
  A wire format: encoding a canonical value and decoding it gives the value back, and whatever
  decodes is canonical and encodes to exactly the bytes it was read from.
\<close>

locale wire_format =
  fixes enc :: "'a \<Rightarrow> 'e + bytes"
    and dec :: "bytes \<Rightarrow> 'e + 'a"
    and canonical :: "'a \<Rightarrow> bool"
  assumes dec_enc: "canonical a \<Longrightarrow> enc a = Inr b \<Longrightarrow> dec b = Inr a"
    and enc_dec: "dec b = Inr a \<Longrightarrow> enc a = Inr b"
    and dec_canonical: "dec b = Inr a \<Longrightarrow> canonical a"
begin

lemma enc_inj: "canonical a \<Longrightarrow> canonical a' \<Longrightarrow> enc a = Inr b \<Longrightarrow> enc a' = Inr b \<Longrightarrow> a = a'"
  by (metis dec_enc sum.inject(2))

lemma dec_inj: "dec b = Inr a \<Longrightarrow> dec b' = Inr a \<Longrightarrow> b = b'"
  by (metis enc_dec sum.inject(2))

lemma dec_iff: "dec b = Inr a \<longleftrightarrow> canonical a \<and> enc a = Inr b"
  using dec_enc enc_dec dec_canonical by blast

end

text \<open>
  An admission filter: an accepted key was not blocked before and is blocked from then on, and
  blocked keys stay blocked. A run then accepts every key at most once.
\<close>

fun admitted :: "('e \<Rightarrow> 's \<Rightarrow> 's \<times> bool) \<Rightarrow> 'e list \<Rightarrow> 's \<Rightarrow> 'e list" where
  "admitted accept [] s = []"
| "admitted accept (e # es) s =
     (case accept e s of (s', b) \<Rightarrow> (if b then [e] else []) @ admitted accept es s')"

locale admission_filter =
  fixes accept :: "'e \<Rightarrow> 's \<Rightarrow> 's \<times> bool"
    and key :: "'e \<Rightarrow> 'k"
    and blocked :: "'s \<Rightarrow> 'k set"
    and wf :: "'s \<Rightarrow> bool"
  assumes wf_accept: "wf s \<Longrightarrow> accept e s = (s', b) \<Longrightarrow> wf s'"
    and blocked_mono: "wf s \<Longrightarrow> accept e s = (s', b) \<Longrightarrow> blocked s \<subseteq> blocked s'"
    and accept_fresh: "wf s \<Longrightarrow> accept e s = (s', True) \<Longrightarrow> key e \<notin> blocked s"
    and accept_blocks: "wf s \<Longrightarrow> accept e s = (s', True) \<Longrightarrow> key e \<in> blocked s'"
begin

lemma admitted_not_blocked: "wf s \<Longrightarrow> e \<in> set (admitted accept es s) \<Longrightarrow> key e \<notin> blocked s"
proof (induction es arbitrary: s)
  case (Cons x es)
  obtain s' b where st: "accept x s = (s', b)" by fastforce
  from Cons.prems(2) st have "(e = x \<and> b) \<or> e \<in> set (admitted accept es s')"
    by (auto split: if_splits)
  then show ?case
  proof
    assume "e = x \<and> b"
    with st Cons.prems(1) show ?thesis by (auto dest: accept_fresh)
  next
    assume "e \<in> set (admitted accept es s')"
    with Cons.IH [OF wf_accept [OF Cons.prems(1) st]] have "key e \<notin> blocked s'" by blast
    with blocked_mono [OF Cons.prems(1) st] show ?thesis by blast
  qed
qed simp

lemma admitted_once: "wf s \<Longrightarrow> distinct (map key (admitted accept es s))"
proof (induction es arbitrary: s)
  case (Cons x es)
  obtain s' b where st: "accept x s = (s', b)" by fastforce
  note wf' = wf_accept [OF Cons.prems st]
  from Cons.IH [OF wf'] have d: "distinct (map key (admitted accept es s'))" .
  show ?case
  proof (cases b)
    case True
    with st Cons.prems have "key x \<in> blocked s'" by (auto dest: accept_blocks)
    with admitted_not_blocked [OF wf'] have "key x \<notin> set (map key (admitted accept es s'))"
      by auto
    with d st True show ?thesis by simp
  next
    case False
    with d st show ?thesis by simp
  qed
qed simp

end

end
