(* ===== verification/Ovpn_Packet.thy ===== *)
theory Ovpn_Packet
  imports Zay_Prelude
begin

text \<open>
  The OpenVPN link packet (\<open>protocol/openvpn/packet.rs\<close>) and the length-prefixed stream
  framing of its TCP transport (\<open>protocol/openvpn/stream.rs\<close>): opcodes, the packet record,
  \<open>Packet::parse\<close> and \<open>Packet::encode\<close> with every early return, and \<open>read_stream_packet\<close> /
  \<open>write_stream_packet\<close> over a byte stream. Fixed-size arrays are byte lists whose length the
  well-formedness predicate states.
\<close>

subsection \<open>Opcodes\<close>

datatype opcode =
    ControlHardResetClientV1 | ControlHardResetServerV1 | ControlSoftResetV1 | ControlV1
  | AcknowledgmentV1 | DataV1 | ControlHardResetClientV2 | ControlHardResetServerV2
  | DataV2 | ControlHardResetClientV3 | ControlWkcV1 | Unknown u8

definition from_wire :: "u8 \<Rightarrow> opcode" where
  "from_wire value =
     (if value = 1 then ControlHardResetClientV1
      else if value = 2 then ControlHardResetServerV1
      else if value = 3 then ControlSoftResetV1
      else if value = 4 then ControlV1
      else if value = 5 then AcknowledgmentV1
      else if value = 6 then DataV1
      else if value = 7 then ControlHardResetClientV2
      else if value = 8 then ControlHardResetServerV2
      else if value = 9 then DataV2
      else if value = 10 then ControlHardResetClientV3
      else if value = 11 then ControlWkcV1
      else Unknown value)"

fun wire_value :: "opcode \<Rightarrow> u8" where
  "wire_value ControlHardResetClientV1 = 1"
| "wire_value ControlHardResetServerV1 = 2"
| "wire_value ControlSoftResetV1 = 3"
| "wire_value ControlV1 = 4"
| "wire_value AcknowledgmentV1 = 5"
| "wire_value DataV1 = 6"
| "wire_value ControlHardResetClientV2 = 7"
| "wire_value ControlHardResetServerV2 = 8"
| "wire_value DataV2 = 9"
| "wire_value ControlHardResetClientV3 = 10"
| "wire_value ControlWkcV1 = 11"
| "wire_value (Unknown value) = value"

definition is_control :: "opcode \<Rightarrow> bool" where
  "is_control op \<longleftrightarrow> op \<in> {ControlHardResetClientV1, ControlHardResetServerV1,
     ControlSoftResetV1, ControlV1, ControlHardResetClientV2, ControlHardResetServerV2,
     ControlHardResetClientV3, ControlWkcV1}"

definition is_data :: "opcode \<Rightarrow> bool" where
  "is_data op \<longleftrightarrow> op \<in> {DataV1, DataV2}"

text \<open>An opcode that five header bits can carry and that \<open>from_wire\<close> produces.\<close>

definition opcode_wf :: "opcode \<Rightarrow> bool" where
  "opcode_wf op \<longleftrightarrow> wire_value op < 32 \<and> from_wire (wire_value op) = op"

lemma wire_value_from_wire [simp]: "wire_value (from_wire v) = v"
  by (simp add: from_wire_def)

lemma opcode_wf_from_wire: "v < 32 \<Longrightarrow> opcode_wf (from_wire v)"
  by (simp add: opcode_wf_def)

lemma is_control_simps [simp]:
  "\<not> is_control AcknowledgmentV1" "\<not> is_control DataV1" "\<not> is_control DataV2"
  "\<not> is_control (Unknown v)" "is_control ControlV1" "is_control ControlSoftResetV1"
  "is_control ControlWkcV1" "is_control ControlHardResetClientV1"
  "is_control ControlHardResetClientV2" "is_control ControlHardResetClientV3"
  "is_control ControlHardResetServerV1" "is_control ControlHardResetServerV2"
  by (simp_all add: is_control_def)

lemma is_data_simps [simp]: "is_data DataV1" "is_data DataV2" "\<not> is_data AcknowledgmentV1"
  "\<not> is_data ControlV1" "\<not> is_data ControlWkcV1" "\<not> is_data (Unknown v)"
  by (simp_all add: is_data_def)

subsection \<open>Packets\<close>

record packet =
  pkt_opcode :: opcode
  pkt_key_id :: u8
  pkt_peer_id :: bytes
  pkt_local_session_id :: bytes
  pkt_acknowledgment_ids :: "u32 list"
  pkt_remote_session_id :: bytes
  pkt_id :: u32
  pkt_payload :: bytes
  pkt_link_source :: "socket_addr option"

datatype packet_error = TooShort | TooManyAcknowledgments

definition zero_session :: bytes where
  "zero_session = replicate 8 0"

definition packet_new :: "opcode \<Rightarrow> u8 \<Rightarrow> bytes \<Rightarrow> packet" where
  "packet_new op key_id payload =
     \<lparr>pkt_opcode = op, pkt_key_id = key_id AND 7, pkt_peer_id = replicate 3 0,
      pkt_local_session_id = zero_session, pkt_acknowledgment_ids = [],
      pkt_remote_session_id = zero_session, pkt_id = 0, pkt_payload = payload,
      pkt_link_source = None\<rparr>"

definition take_bytes :: "nat \<Rightarrow> bytes \<Rightarrow> packet_error + bytes \<times> bytes" where
  "take_bytes n input = (if length input < n then Inl TooShort else Inr (take n input, drop n input))"

fun take_acks :: "nat \<Rightarrow> bytes \<Rightarrow> packet_error + u32 list \<times> bytes" where
  "take_acks 0 body = Inr ([], body)"
| "take_acks (Suc n) body =
     (case take_bytes 4 body of
        Inl e \<Rightarrow> Inl e
      | Inr (v, rest) \<Rightarrow>
          (case take_acks n rest of
             Inl e \<Rightarrow> Inl e
           | Inr (ids, rest') \<Rightarrow> Inr (of_be32 v # ids, rest')))"

text \<open>The control and acknowledgment header: session id, acknowledgment array, packet id.\<close>

definition parse_control :: "packet \<Rightarrow> bytes \<Rightarrow> packet_error + packet \<times> bytes" where
  "parse_control p body =
     (case take_bytes 8 body of
        Inl e \<Rightarrow> Inl e
      | Inr (local, body) \<Rightarrow>
     (case take_bytes 1 body of
        Inl e \<Rightarrow> Inl e
      | Inr (count, body) \<Rightarrow>
     (case take_acks (unat (hd count)) body of
        Inl e \<Rightarrow> Inl e
      | Inr (ids, body) \<Rightarrow>
     (case (if unat (hd count) > 0 then take_bytes 8 body else Inr (zero_session, body)) of
        Inl e \<Rightarrow> Inl e
      | Inr (remote, body) \<Rightarrow>
     (let p = p\<lparr>pkt_local_session_id := local, pkt_acknowledgment_ids := ids,
                pkt_remote_session_id := remote\<rparr>
      in if pkt_opcode p \<noteq> AcknowledgmentV1
         then (case take_bytes 4 body of
                 Inl e \<Rightarrow> Inl e
               | Inr (v, body) \<Rightarrow> Inr (p\<lparr>pkt_id := of_be32 v\<rparr>, body))
         else Inr (p, body))))))"

definition parse_body :: "packet \<Rightarrow> bytes \<Rightarrow> packet_error + packet" where
  "parse_body p body =
     (case (if pkt_opcode p = DataV2
            then (case take_bytes 3 body of
                    Inl e \<Rightarrow> Inl e
                  | Inr (v, rest) \<Rightarrow> Inr (p\<lparr>pkt_peer_id := v\<rparr>, rest))
            else Inr (p, body)) of
        Inl e \<Rightarrow> Inl e
      | Inr (p, body) \<Rightarrow>
          (case (if is_control (pkt_opcode p) \<or> pkt_opcode p = AcknowledgmentV1
                 then parse_control p body else Inr (p, body)) of
             Inl e \<Rightarrow> Inl e
           | Inr (p, body) \<Rightarrow> Inr (p\<lparr>pkt_payload := body\<rparr>)))"

definition parse :: "bytes \<Rightarrow> packet_error + packet" where
  "parse input =
     (case input of
        [] \<Rightarrow> Inl TooShort
      | header # body \<Rightarrow>
          parse_body (packet_new (from_wire (drop_bit 3 header)) (header AND 7) []) body)"

definition encode :: "packet \<Rightarrow> packet_error + bytes" where
  "encode p =
     (let op = pkt_opcode p;
          header = push_bit 3 (wire_value op) OR (pkt_key_id p AND 7)
      in if op = DataV2 then Inr (header # pkt_peer_id p @ pkt_payload p)
         else if is_control op \<or> op = AcknowledgmentV1
         then (if length (pkt_acknowledgment_ids p) > 255 then Inl TooManyAcknowledgments
               else Inr (header # pkt_local_session_id p
                 @ [of_nat (length (pkt_acknowledgment_ids p))]
                 @ concat (map be32 (pkt_acknowledgment_ids p))
                 @ (if pkt_acknowledgment_ids p \<noteq> [] then pkt_remote_session_id p else [])
                 @ (if op \<noteq> AcknowledgmentV1 then be32 (pkt_id p) else [])
                 @ pkt_payload p))
         else Inr (header # pkt_payload p))"

text \<open>
  The array lengths the Rust types fix, and a three-bit key id; \<open>packet_canonical\<close> adds that
  fields the packet's shape does not put on the wire hold the values \<open>Packet::new\<close> gives them.
\<close>

definition packet_wf :: "packet \<Rightarrow> bool" where
  "packet_wf p \<longleftrightarrow> opcode_wf (pkt_opcode p) \<and> pkt_key_id p < 8 \<and> length (pkt_peer_id p) = 3
     \<and> length (pkt_local_session_id p) = 8 \<and> length (pkt_remote_session_id p) = 8"

definition packet_canonical :: "packet \<Rightarrow> bool" where
  "packet_canonical p \<longleftrightarrow>
     (let op = pkt_opcode p; ctl = (is_control op \<or> op = AcknowledgmentV1) in
      packet_wf p \<and> pkt_link_source p = None
      \<and> (op \<noteq> DataV2 \<longrightarrow> pkt_peer_id p = replicate 3 0)
      \<and> (\<not> ctl \<longrightarrow> pkt_local_session_id p = zero_session \<and> pkt_acknowledgment_ids p = [])
      \<and> (pkt_acknowledgment_ids p = [] \<longrightarrow> pkt_remote_session_id p = zero_session)
      \<and> (\<not> is_control op \<longrightarrow> pkt_id p = 0))"

subsection \<open>Header bits\<close>

lemma and_seven: "x AND 7 = take_bit 3 (x :: u8)"
  by (simp add: take_bit_eq_mask mask_numeral)

lemma header_opcode_bits: "(w :: u8) < 32 \<Longrightarrow> drop_bit 3 (push_bit 3 w OR (k AND 7)) = w"
  unfolding and_seven
  by (rule bit_word_eqI)
     (auto simp: bit_simps word_less_nat_alt dest: bit_below [where k = 5, simplified])

lemma header_key_bits: "(k :: u8) < 8 \<Longrightarrow> (push_bit 3 w OR (k AND 7)) AND 7 = k"
  unfolding and_seven
  by (rule bit_word_eqI)
     (auto simp: bit_simps word_less_nat_alt dest: bit_below [where k = 3, simplified])

lemma header_split: "push_bit 3 (drop_bit 3 h) OR (h AND 7) = (h :: u8)"
  unfolding and_seven by (rule bit_word_eqI) (auto simp: bit_simps)

lemma header_bounds: "drop_bit 3 (h :: u8) < 32" "h AND 7 < (8 :: u8)"
proof -
  have "unat h < 256" using unsigned_less [of h, where ?'a = nat] by simp
  then show "drop_bit 3 h < 32"
    by (simp add: word_less_nat_alt drop_bit_eq_div unat_div)
  have "unat (h AND 7) \<le> unat (7 :: u8)"
    by (rule word_and_le1 [THEN word_le_nat_alt [THEN iffD1]])
  then show "h AND 7 < (8 :: u8)" by (simp add: word_less_nat_alt)
qed

subsection \<open>Reading back what was written\<close>

lemma take_bytes_iff: "take_bytes n b = Inr (v, r) \<longleftrightarrow> b = v @ r \<and> length v = n"
  by (auto simp: take_bytes_def)

lemma take_bytes_append [codec_simps]: "length v = n \<Longrightarrow> take_bytes n (v @ r) = Inr (v, r)"
  by (simp add: take_bytes_iff)

lemma take_bytes_one [codec_simps]: "take_bytes (Suc 0) (c # r) = Inr ([c], r)"
  by (simp add: take_bytes_def)

lemma take_acks_concat [codec_simps]:
  "take_acks (length ids) (concat (map be32 ids) @ r) = Inr (ids, r)"
  by (induction ids) (simp_all add: codec_simps)

lemma take_acks_inv:
  "take_acks n b = Inr (ids, r) \<Longrightarrow> length ids = n \<and> b = concat (map be32 ids) @ r"
proof (induction n arbitrary: b ids)
  case (Suc n)
  then show ?case
    by (fastforce split: sum.splits prod.splits simp: take_bytes_iff be32_of_be32)
qed simp

lemma parse_control_written:
  assumes "length local = 8" "length remote = 8" "length ids \<le> 255"
    and "ids = [] \<Longrightarrow> remote = zero_session"
  shows "parse_control p (local @ of_nat (length ids) # concat (map be32 ids)
           @ (if ids \<noteq> [] then remote else [])
           @ (if pkt_opcode p \<noteq> AcknowledgmentV1 then be32 i else []) @ payload)
         = Inr (p\<lparr>pkt_local_session_id := local, pkt_acknowledgment_ids := ids,
                  pkt_remote_session_id := remote,
                  pkt_id := (if pkt_opcode p \<noteq> AcknowledgmentV1 then i else pkt_id p)\<rparr>, payload)"
proof -
  have n: "unat (of_nat (length ids) :: u8) = length ids"
    using assms(3) by (simp add: unat_of_nat)
  show ?thesis
    using assms by (cases "ids = []")
      (simp_all add: parse_control_def codec_simps n del: take_acks.simps, simp_all add: codec_simps)
qed

lemma parse_header:
  assumes "opcode_wf op" "k < 8"
  shows "parse ((push_bit 3 (wire_value op) OR (k AND 7)) # body) = parse_body (packet_new op k []) body"
    and "k AND 7 = k"
proof -
  have "drop_bit 3 (push_bit 3 (wire_value op) OR (k AND 7)) = wire_value op"
    using assms(1) by (intro header_opcode_bits) (simp add: opcode_wf_def)
  moreover have "(push_bit 3 (wire_value op) OR (k AND 7)) AND 7 = k"
    using assms(2) by (rule header_key_bits)
  ultimately show "parse ((push_bit 3 (wire_value op) OR (k AND 7)) # body)
      = parse_body (packet_new op k []) body"
    using assms(1) unfolding parse_def list.case by (simp add: opcode_wf_def)
  show "k AND 7 = k" using header_key_bits [OF assms(2), of 0] by simp
qed

lemma canonicalD:
  assumes "packet_canonical p"
  shows "opcode_wf (pkt_opcode p)" "pkt_key_id p < 8" "length (pkt_peer_id p) = 3"
    "length (pkt_local_session_id p) = 8" "length (pkt_remote_session_id p) = 8"
    "pkt_link_source p = None"
    "pkt_acknowledgment_ids p = [] \<Longrightarrow> pkt_remote_session_id p = zero_session"
    "\<not> is_control (pkt_opcode p) \<Longrightarrow> pkt_id p = 0"
    "pkt_opcode p \<noteq> DataV2 \<Longrightarrow> pkt_peer_id p = replicate 3 0"
  using assms by (auto simp: packet_canonical_def packet_wf_def Let_def)

lemma packet_dec_enc_control:
  assumes c: "packet_canonical p" and e: "encode p = Inr b"
    and ctl: "is_control (pkt_opcode p) \<or> pkt_opcode p = AcknowledgmentV1"
  shows "parse b = Inr p"
proof -
  let ?op = "pkt_opcode p" and ?ids = "pkt_acknowledgment_ids p"
  let ?q = "packet_new ?op (pkt_key_id p) []"
  have nd: "?op \<noteq> DataV2" using ctl by (auto simp: is_control_def)
  with ctl e have len: "length ?ids \<le> 255"
    and b: "b = (push_bit 3 (wire_value ?op) OR (pkt_key_id p AND 7)) # pkt_local_session_id p
        @ of_nat (length ?ids) # concat (map be32 ?ids)
        @ (if ?ids \<noteq> [] then pkt_remote_session_id p else [])
        @ (if ?op \<noteq> AcknowledgmentV1 then be32 (pkt_id p) else []) @ pkt_payload p"
    by (auto simp: encode_def Let_def split: if_splits)
  have q: "pkt_opcode ?q = ?op" by (simp add: packet_new_def)
  note pc = parse_control_written [OF canonicalD(4,5) [OF c] len canonicalD(7) [OF c],
      of ?q "pkt_id p" "pkt_payload p", unfolded q]
  have "parse b = Inr (?q\<lparr>pkt_local_session_id := pkt_local_session_id p,
      pkt_acknowledgment_ids := ?ids, pkt_remote_session_id := pkt_remote_session_id p,
      pkt_id := (if ?op \<noteq> AcknowledgmentV1 then pkt_id p else pkt_id ?q),
      pkt_payload := pkt_payload p\<rparr>)"
    using nd ctl unfolding b parse_header(1) [OF canonicalD(1,2) [OF c]] parse_body_def
    by (simp add: pc q del: append_assoc)
  also have "\<dots> = Inr p"
    using parse_header(2) [OF canonicalD(1,2) [OF c]] canonicalD(6,8,9) [OF c] nd
    by (cases p) (auto simp: packet_new_def)
  finally show ?thesis .
qed

lemma packet_dec_enc:
  assumes c: "packet_canonical p" and e: "encode p = Inr b"
  shows "parse b = Inr p"
proof (cases "is_control (pkt_opcode p) \<or> pkt_opcode p = AcknowledgmentV1")
  case True
  with c e show ?thesis by (rule packet_dec_enc_control)
next
  case False
  let ?body = "(if pkt_opcode p = DataV2 then pkt_peer_id p else []) @ pkt_payload p"
  have b: "b = (push_bit 3 (wire_value (pkt_opcode p)) OR (pkt_key_id p AND 7)) # ?body"
    using False e by (auto simp: encode_def Let_def split: if_splits)
  have "parse_body (packet_new (pkt_opcode p) (pkt_key_id p) []) ?body = Inr p"
    using False c canonicalD [OF c] parse_header(2) [OF canonicalD(1,2) [OF c]]
    by (auto simp: parse_body_def packet_new_def packet_canonical_def codec_simps Let_def)
  then show ?thesis by (simp only: b parse_header(1) [OF canonicalD(1,2) [OF c]])
qed

lemma parse_control_inv:
  assumes "parse_control p b = Inr (q, r)"
  obtains local ids remote i where "length local = 8" "length remote = 8" "length ids \<le> 255"
    and "ids = [] \<Longrightarrow> remote = zero_session"
    and "q = p\<lparr>pkt_local_session_id := local, pkt_acknowledgment_ids := ids,
        pkt_remote_session_id := remote,
        pkt_id := (if pkt_opcode p \<noteq> AcknowledgmentV1 then i else pkt_id p)\<rparr>"
    and "b = local @ of_nat (length ids) # concat (map be32 ids)
        @ (if ids \<noteq> [] then remote else [])
        @ (if pkt_opcode p \<noteq> AcknowledgmentV1 then be32 i else []) @ r"
proof -
  obtain local count ids remote b1 b2 b3 b4 where
    1: "take_bytes 8 b = Inr (local, b1)" and 2: "take_bytes 1 b1 = Inr (count, b2)" and
    3: "take_acks (unat (hd count)) b2 = Inr (ids, b3)" and
    4: "(if unat (hd count) > 0 then take_bytes 8 b3 else Inr (zero_session, b3)) = Inr (remote, b4)"
    and 5: "(let p = p\<lparr>pkt_local_session_id := local, pkt_acknowledgment_ids := ids,
                pkt_remote_session_id := remote\<rparr>
      in if pkt_opcode p \<noteq> AcknowledgmentV1
         then (case take_bytes 4 b4 of
                 Inl e \<Rightarrow> Inl e
               | Inr (v, body) \<Rightarrow> Inr (p\<lparr>pkt_id := of_be32 v\<rparr>, body))
         else Inr (p, b4)) = Inr (q, r)"
    using assms unfolding parse_control_def by (auto split: sum.splits prod.splits)
  from 2 obtain c where c: "count = [c]" by (auto simp: take_bytes_iff length_Suc_conv)
  from take_acks_inv [OF 3] c have len: "length ids = unat c" and b2: "b2 = concat (map be32 ids) @ b3"
    by auto
  have "unat c < 256" using unsigned_less [of c, where ?'a = nat] by simp
  with len have l255: "length ids \<le> 255" by simp
  have cn: "of_nat (length ids) = c" by (simp add: len)
  show thesis
    by (rule that [of local remote ids "pkt_id q"])
       (use 1 2 4 5 c len l255 cn b2 in
          \<open>auto simp: take_bytes_iff zero_session_def be32_of_be32 Let_def split: if_splits sum.splits prod.splits\<close>)
qed

lemma packet_enc_dec:
  assumes "parse b = Inr p"
  shows "encode p = Inr b \<and> packet_canonical p"
proof -
  from assms obtain h body where b: "b = h # body"
    and pb: "parse_body (packet_new (from_wire (drop_bit 3 h)) (h AND 7) []) body = Inr p"
    by (auto simp: parse_def split: list.splits)
  let ?op = "from_wire (drop_bit 3 h)"
  have op: "opcode_wf ?op" by (rule opcode_wf_from_wire [OF header_bounds(1)])
  have k: "(h AND 7) AND 7 = h AND 7" by (simp add: and.assoc)
  note hs = header_split [of h] header_bounds(2) [of h]
  show ?thesis
  proof (cases "is_control ?op \<or> ?op = AcknowledgmentV1")
    case True
    then have "?op \<noteq> DataV2" by (auto simp: is_control_def)
    with True pb obtain q r where q: "parse_control (packet_new ?op (h AND 7) []) body = Inr (q, r)"
      and p: "p = q\<lparr>pkt_payload := r\<rparr>"
      by (auto simp: parse_body_def packet_new_def split: sum.splits prod.splits)
    from q show ?thesis
      by (rule parse_control_inv)
         (use True \<open>?op \<noteq> DataV2\<close> op k hs b p in
           \<open>auto simp: encode_def packet_canonical_def packet_wf_def packet_new_def Let_def\<close>)
  next
    case False
    have "?op = DataV2 \<Longrightarrow> 72 OR (h AND 7) = h"
      using hs(1) wire_value_from_wire [of "drop_bit 3 h"] by simp
    with False pb op k hs b show ?thesis
      by (auto simp: parse_body_def encode_def packet_canonical_def packet_wf_def packet_new_def
          zero_session_def take_bytes_iff Let_def split: if_splits sum.splits prod.splits)
  qed
qed

interpretation packet_wire: wire_format encode parse packet_canonical
  by unfold_locales (auto dest: packet_dec_enc packet_enc_dec)

text \<open>
  Property C13. A byte string parses to a packet exactly when the packet is canonical and encodes
  to that byte string: \<open>Packet::parse\<close> and \<open>Packet::encode\<close> are mutually inverse, so no two byte
  strings denote the same packet and no packet shape loses a field on the wire.
\<close>

theorem parse_encode_exact: "parse b = Inr p \<longleftrightarrow> packet_canonical p \<and> encode p = Inr b"
  by (rule packet_wire.dec_iff)

subsection \<open>Stream framing\<close>

datatype io_error_kind = InvalidData | InvalidInput | UnexpectedEof

text \<open>
  \<open>read_u16\<close> and \<open>read_exact\<close> consume a prefix of the bytes the peer sends and fail with
  \<open>UnexpectedEof\<close> when the stream ends early; the writer appends to the bytes sent so far.
\<close>

definition read_exact :: "nat \<Rightarrow> bytes \<Rightarrow> io_error_kind + bytes \<times> bytes" where
  "read_exact n s = (if length s < n then Inl UnexpectedEof else Inr (take n s, drop n s))"

definition read_stream_packet :: "bytes \<Rightarrow> io_error_kind + bytes \<times> bytes" where
  "read_stream_packet s =
     (case read_exact 2 s of
        Inl e \<Rightarrow> Inl e
      | Inr (hdr, s) \<Rightarrow>
          (let len = unat (of_be16 hdr)
           in if len = 0 then Inl InvalidData else read_exact len s))"

definition write_stream_packet :: "bytes \<Rightarrow> bytes \<Rightarrow> io_error_kind + bytes" where
  "write_stream_packet out pkt =
     (if pkt = [] then Inr out
      else if length pkt > 65535 then Inl InvalidInput
      else Inr (out @ be16 (of_nat (length pkt)) @ pkt))"

fun write_stream_packets :: "bytes \<Rightarrow> bytes list \<Rightarrow> nat \<Rightarrow> io_error_kind + bytes \<times> nat" where
  "write_stream_packets out [] written = Inr (out, written)"
| "write_stream_packets out (p # ps) written =
     (case write_stream_packet out p of
        Inl e \<Rightarrow> Inl e
      | Inr out' \<Rightarrow> write_stream_packets out' ps (written + 1))"

fun read_stream_packets :: "nat \<Rightarrow> bytes \<Rightarrow> io_error_kind + bytes list \<times> bytes" where
  "read_stream_packets 0 s = Inr ([], s)"
| "read_stream_packets (Suc n) s =
     (case read_stream_packet s of
        Inl e \<Rightarrow> Inl e
      | Inr (p, s') \<Rightarrow>
          (case read_stream_packets n s' of
             Inl e \<Rightarrow> Inl e
           | Inr (ps, s'') \<Rightarrow> Inr (p # ps, s'')))"

lemma read_exact_iff: "read_exact n b = Inr (v, r) \<longleftrightarrow> b = v @ r \<and> length v = n"
  by (auto simp: read_exact_def)

lemma read_written_packet:
  assumes "p \<noteq> []" "length p \<le> 65535"
  shows "read_stream_packet (be16 (of_nat (length p)) @ p @ s) = Inr (p, s)"
  using assms by (simp add: read_stream_packet_def read_exact_def unat_of_nat Let_def)

lemma read_stream_packet_inv:
  assumes "read_stream_packet s = Inr (p, r)"
  shows "p \<noteq> [] \<and> length p \<le> 65535 \<and> s = be16 (of_nat (length p)) @ p @ r"
proof -
  from assms obtain hdr t where h: "read_exact 2 s = Inr (hdr, t)" "unat (of_be16 hdr) \<noteq> 0"
    "read_exact (unat (of_be16 hdr)) t = Inr (p, r)"
    by (auto simp: read_stream_packet_def Let_def split: sum.splits prod.splits if_splits)
  then have s: "s = hdr @ t" "length hdr = 2" and t: "t = p @ r" "length p = unat (of_be16 hdr)"
    by (auto simp: read_exact_iff)
  have "unat (of_be16 hdr) < 65536"
    using unsigned_less [of "of_be16 hdr", where ?'a = nat] by simp
  with s t h(2) show ?thesis by (auto simp: be16_of_be16)
qed

lemma write_stream_packets_out:
  "write_stream_packets out ps n = Inr (out', m) \<Longrightarrow>
     m = n + length ps \<and> (\<forall>p \<in> set ps. length p \<le> 65535)
     \<and> out' = out @ concat (map (\<lambda>p. be16 (of_nat (length p)) @ p) (filter (\<lambda>p. p \<noteq> []) ps))"
proof (induction ps arbitrary: out n)
  case (Cons p ps)
  then obtain out1 where w: "write_stream_packet out p = Inr out1"
    and r: "write_stream_packets out1 ps (n + 1) = Inr (out', m)"
    by (auto split: sum.splits)
  from w Cons.IH [OF r] show ?case
    by (auto simp: write_stream_packet_def split: if_splits)
qed simp

lemma read_framed:
  "\<forall>p \<in> set ps. p \<noteq> [] \<and> length p \<le> 65535 \<Longrightarrow>
   read_stream_packets (length ps) (concat (map (\<lambda>p. be16 (of_nat (length p)) @ p) ps) @ s) = Inr (ps, s)"
  by (induction ps) (auto simp: read_written_packet)

text \<open>
  Property C34. Every packet that \<open>write_stream_packets\<close> puts on a TCP stream is read back by
  \<open>read_stream_packet\<close>, in order and whole, with whatever follows left unread; empty packets are
  counted but not sent, and the count returned is the number of packets given.
\<close>

theorem stream_round_trip:
  assumes "write_stream_packets [] ps 0 = Inr (out, n)"
  shows "n = length ps
    \<and> read_stream_packets (length (filter (\<lambda>p. p \<noteq> []) ps)) (out @ rest)
        = Inr (filter (\<lambda>p. p \<noteq> []) ps, rest)"
  using write_stream_packets_out [OF assms]
    read_framed [of "filter (\<lambda>p. p \<noteq> []) ps" rest] by auto

theorem stream_round_trip_witness:
  "write_stream_packets [] [[1, 2], [], [3]] 0 = Inr ([0, 2, 1, 2, 0, 1, 3], 3)
   \<and> read_stream_packets 2 ([0, 2, 1, 2, 0, 1, 3] @ [9]) = Inr ([[1, 2], [3]], [9])"
proof -
  have w: "write_stream_packets [] [[1, 2], [], [3]] 0 = Inr ([0, 2, 1, 2, 0, 1, 3], 3)"
    by (simp add: write_stream_packet_def be16_def)
  show ?thesis
    using w stream_round_trip [OF w, of "[9]"]
    by (simp del: read_stream_packets.simps write_stream_packets.simps add: numeral_2_eq_2)
qed

end
