(* ===== verification/Ovpn_Session.thy ===== *)
theory Ovpn_Session
  imports Ovpn_Packet
begin

text \<open>
  The per-key OpenVPN session state (\<open>protocol/openvpn/session.rs\<close>): session ids, the control
  and data packet-id counters, and the constructors of the packets a session sends. The random
  local id of \<open>SessionManager::new\<close> is the argument of \<open>with_local_id\<close>, as in the code.
\<close>

definition KEY_ID_MAX_VALUE :: u8 where
  "KEY_ID_MAX_VALUE = 7"

definition next_key_id :: "u8 \<Rightarrow> u8" where
  "next_key_id key_id = (if key_id \<ge> KEY_ID_MAX_VALUE then 1 else key_id + 1)"

datatype negotiation_state = Initial | PreStart | Start | ControlReady

record session =
  ses_key_id :: u8
  ses_local_session_id :: bytes
  ses_remote_session_id :: "bytes option"
  ses_local_control_packet_id :: u32
  ses_local_data_packet_id :: u32
  ses_negotiation_state :: negotiation_state

datatype session_error = MissingRemoteSessionId | PacketIdExpired | InvalidOpcode

definition with_local_id :: "bytes \<Rightarrow> session" where
  "with_local_id i = \<lparr>ses_key_id = 0, ses_local_session_id = i, ses_remote_session_id = None,
     ses_local_control_packet_id = 1, ses_local_data_packet_id = 1,
     ses_negotiation_state = Initial\<rparr>"

definition set_remote_session_id :: "bytes \<Rightarrow> session \<Rightarrow> session" where
  "set_remote_session_id i s = s\<lparr>ses_remote_session_id := Some i\<rparr>"

definition set_negotiation_state :: "negotiation_state \<Rightarrow> session \<Rightarrow> session" where
  "set_negotiation_state st s = s\<lparr>ses_negotiation_state := st\<rparr>"

definition validate_incoming_remote_session_id :: "session \<Rightarrow> packet \<Rightarrow> bool" where
  "validate_incoming_remote_session_id s p \<longleftrightarrow>
     pkt_acknowledgment_ids p = []
     \<or> (pkt_remote_session_id p \<noteq> zero_session \<and> pkt_remote_session_id p = ses_local_session_id s)"

definition validate_incoming_local_session_id :: "session \<Rightarrow> packet \<Rightarrow> bool" where
  "validate_incoming_local_session_id s p \<longleftrightarrow>
     (case ses_remote_session_id s of None \<Rightarrow> False | Some i \<Rightarrow> pkt_local_session_id p = i)"

definition renegotiation :: "session \<Rightarrow> u8 \<Rightarrow> session" where
  "renegotiation s key_id = \<lparr>ses_key_id = key_id, ses_local_session_id = ses_local_session_id s,
     ses_remote_session_id = ses_remote_session_id s, ses_local_control_packet_id = 1,
     ses_local_data_packet_id = 1, ses_negotiation_state = Start\<rparr>"

definition new_soft_reset_packet :: "session \<Rightarrow> session_error + packet" where
  "new_soft_reset_packet s =
     (case ses_remote_session_id s of
        None \<Rightarrow> Inl MissingRemoteSessionId
      | Some remote \<Rightarrow>
          Inr ((packet_new ControlSoftResetV1 (ses_key_id s) [])
            \<lparr>pkt_local_session_id := ses_local_session_id s, pkt_remote_session_id := remote\<rparr>))"

definition new_acknowledgment_packet :: "session \<Rightarrow> u32 list \<Rightarrow> session_error + packet" where
  "new_acknowledgment_packet s ids =
     (case ses_remote_session_id s of
        None \<Rightarrow> Inl MissingRemoteSessionId
      | Some remote \<Rightarrow>
          Inr ((packet_new AcknowledgmentV1 (ses_key_id s) [])
            \<lparr>pkt_local_session_id := ses_local_session_id s, pkt_remote_session_id := remote,
             pkt_acknowledgment_ids := ids\<rparr>))"

definition new_hard_reset_server_v2_packet :: "session \<Rightarrow> u32 list \<Rightarrow> session_error + packet" where
  "new_hard_reset_server_v2_packet s ids =
     (let p = (packet_new ControlHardResetServerV2 (ses_key_id s) [])
                \<lparr>pkt_local_session_id := ses_local_session_id s, pkt_acknowledgment_ids := ids\<rparr>
      in if ids \<noteq> []
         then (case ses_remote_session_id s of
                 None \<Rightarrow> Inl MissingRemoteSessionId
               | Some remote \<Rightarrow> Inr (p\<lparr>pkt_remote_session_id := remote\<rparr>))
         else Inr p)"

definition new_control_packet :: "opcode \<Rightarrow> bytes \<Rightarrow> session \<Rightarrow> session_error + session \<times> packet" where
  "new_control_packet op payload s =
     (if \<not> is_control op then Inl InvalidOpcode
      else if ses_local_control_packet_id s = - 1 then Inl PacketIdExpired
      else Inr (s\<lparr>ses_local_control_packet_id := ses_local_control_packet_id s + 1\<rparr>,
             (packet_new op (ses_key_id s) payload)
               \<lparr>pkt_local_session_id := ses_local_session_id s,
                pkt_remote_session_id := (case ses_remote_session_id s of
                  None \<Rightarrow> zero_session | Some i \<Rightarrow> i),
                pkt_id := ses_local_control_packet_id s\<rparr>))"

definition new_data_packet_ids :: "opcode \<Rightarrow> nat \<Rightarrow> session \<Rightarrow> session_error + session \<times> u32 list" where
  "new_data_packet_ids op count s =
     (if \<not> is_data op then Inl InvalidOpcode
      else if count \<ge> 2 ^ 32 then Inl PacketIdExpired
      else let start = ses_local_data_packet_id s in
           if unat start + count \<ge> 2 ^ 32 then Inl PacketIdExpired
           else Inr (s\<lparr>ses_local_data_packet_id := start + of_nat count\<rparr>,
                     map of_nat [unat start ..< unat start + count]))"

subsection \<open>Key ids cycle through 1 to 7\<close>

lemma next_key_id_unat: "unat (next_key_id k) = (if unat k \<ge> 7 then 1 else unat k + 1)"
  by (auto simp: next_key_id_def KEY_ID_MAX_VALUE_def word_le_nat_alt unat_word_ariths)

lemma next_key_id_range: "next_key_id k \<in> {1..7}"
  using next_key_id_unat [of k] by (auto simp: word_le_nat_alt split: if_splits)

lemma next_key_id_iter:
  assumes "k \<in> {1..7}"
  shows "unat ((next_key_id ^^ n) k) = (unat k - 1 + n) mod 7 + 1"
proof (induction n)
  case 0
  from assms show ?case by (auto simp: word_le_nat_alt)
next
  case (Suc n)
  have "(unat k - 1 + n) mod 7 < 7" by simp
  with Suc show ?case by (auto simp: next_key_id_unat mod_Suc)
qed

text \<open>
  \<open>next_key_id\<close> never returns 0, the id reserved for the initial key, stays within
  1..7, never returns the current id, and comes back to an id in that range after exactly
  seven renegotiations.
\<close>

theorem next_key_id_cycle:
  "next_key_id k \<in> {1..7} \<and> next_key_id k \<noteq> k
   \<and> ((next_key_id ^^ 7) k = k \<longleftrightarrow> k \<in> {1..7})
   \<and> (\<forall>n. 0 < n \<and> n < 7 \<and> k \<in> {1..7} \<longrightarrow> (next_key_id ^^ n) k \<noteq> k)"
proof -
  have diff: "next_key_id k \<noteq> k"
    using next_key_id_unat [of k] by (auto split: if_splits)
  have ret: "(next_key_id ^^ 7) k = k \<Longrightarrow> k \<in> {1..7}"
    using next_key_id_range [of "(next_key_id ^^ 6) k"] by (simp add: numeral_eq_Suc)
  have iter: "(next_key_id ^^ n) k = k \<longleftrightarrow> n mod 7 = 0" if k: "k \<in> {1..7}" for n
  proof -
    from k have "1 \<le> unat k" "unat k \<le> 7" by (auto simp: word_le_nat_alt)
    then have "unat k \<in> {1, 2, 3, 4, 5, 6, 7}" by auto
    then have "(unat k - 1 + n) mod 7 + 1 = unat k \<longleftrightarrow> n mod 7 = 0"
      by (elim insertE emptyE; simp; presburger)
    then show ?thesis using next_key_id_iter [OF k, of n] by (simp add: word_unat_eq_iff)
  qed
  from iter [of 7] ret have "(next_key_id ^^ 7) k = k \<longleftrightarrow> k \<in> {1..7}" by fastforce
  moreover have "\<forall>n. 0 < n \<and> n < 7 \<and> k \<in> {1..7} \<longrightarrow> (next_key_id ^^ n) k \<noteq> k"
    using iter by (metis mod_less less_irrefl)
  ultimately show ?thesis using next_key_id_range diff by blast
qed

theorem next_key_id_cycle_witness:
  "(3 :: u8) \<in> {1..7} \<and> (next_key_id ^^ 7) 3 = 3 \<and> (next_key_id ^^ 2) 3 \<noteq> 3"
proof -
  have m: "(3 :: u8) \<in> {1..7}" by simp
  from next_key_id_cycle [of 3] m have "(next_key_id ^^ 7) 3 = 3" by blast
  moreover from next_key_id_cycle [of 3] m have "(next_key_id ^^ 2) 3 \<noteq> 3" by auto
  ultimately show ?thesis using m by blast
qed

subsection \<open>Packet ids are never reused\<close>

text \<open>The operations that change a session, in any interleaving its callers produce.\<close>

datatype session_op =
  OpControl opcode bytes | OpData opcode nat | OpRemote bytes | OpState negotiation_state

fun session_step :: "session_op \<Rightarrow> session \<Rightarrow> session \<times> u32 list \<times> u32 list" where
  "session_step (OpControl op payload) s =
     (case new_control_packet op payload s of
        Inl _ \<Rightarrow> (s, [], []) | Inr (s', p) \<Rightarrow> (s', [pkt_id p], []))"
| "session_step (OpData op n) s =
     (case new_data_packet_ids op n s of
        Inl _ \<Rightarrow> (s, [], []) | Inr (s', ids) \<Rightarrow> (s', [], ids))"
| "session_step (OpRemote i) s = (set_remote_session_id i s, [], [])"
| "session_step (OpState st) s = (set_negotiation_state st s, [], [])"

fun session_run :: "session_op list \<Rightarrow> session \<Rightarrow> session \<times> u32 list \<times> u32 list" where
  "session_run [] s = (s, [], [])"
| "session_run (e # es) s =
     (case session_step e s of (s', cs, ds) \<Rightarrow>
        (case session_run es s' of (s'', cs', ds') \<Rightarrow> (s'', cs @ cs', ds @ ds')))"

abbreviation ids_between :: "u32 \<Rightarrow> u32 \<Rightarrow> u32 list" where
  "ids_between a b \<equiv> map of_nat [unat a ..< unat b]"

lemma ids_between_append: "a \<le> b \<Longrightarrow> b \<le> c \<Longrightarrow> ids_between a b @ ids_between b c = ids_between a c"
  by (metis le_add_diff_inverse map_append upt_add_eq_append word_le_nat_alt)

lemma new_control_packet_id:
  assumes "new_control_packet op payload s = Inr (s', p)"
  shows "ids_between (ses_local_control_packet_id s) (ses_local_control_packet_id s') = [pkt_id p]"
    and "ses_local_control_packet_id s \<le> ses_local_control_packet_id s'"
    and "ses_local_data_packet_id s' = ses_local_data_packet_id s"
proof -
  let ?c = "ses_local_control_packet_id s"
  from assms have c: "?c \<noteq> - 1" and s': "ses_local_control_packet_id s' = ?c + 1"
    and p: "pkt_id p = ?c" and "ses_local_data_packet_id s' = ses_local_data_packet_id s"
    by (auto simp: new_control_packet_def split: if_splits)
  then show "ses_local_data_packet_id s' = ses_local_data_packet_id s" by simp
  from c have u: "unat (?c + 1) = Suc (unat ?c)"
    by (rule unat_succ)
  show "ids_between ?c (ses_local_control_packet_id s') = [pkt_id p]"
    by (simp add: s' p u)
  show "?c \<le> ses_local_control_packet_id s'"
    by (simp add: s' u word_le_nat_alt)
qed

lemma new_data_packet_ids_ids:
  assumes "new_data_packet_ids op n s = Inr (s', ids)"
  shows "ids_between (ses_local_data_packet_id s) (ses_local_data_packet_id s') = ids"
    and "ses_local_data_packet_id s \<le> ses_local_data_packet_id s'"
    and "ses_local_control_packet_id s' = ses_local_control_packet_id s" and "length ids = n"
proof -
  let ?d = "ses_local_data_packet_id s"
  from assms have n: "unat ?d + n < 2 ^ 32" and s': "ses_local_data_packet_id s' = ?d + of_nat n"
    and ids: "ids = map of_nat [unat ?d ..< unat ?d + n]"
    and "ses_local_control_packet_id s' = ses_local_control_packet_id s"
    by (auto simp: new_data_packet_ids_def Let_def split: if_splits)
  then show "ses_local_control_packet_id s' = ses_local_control_packet_id s" "length ids = n"
    by simp_all
  from n have u: "unat (?d + of_nat n) = unat ?d + n"
    by (simp add: unat_word_ariths unat_of_nat)
  show "ids_between ?d (ses_local_data_packet_id s') = ids" by (simp add: s' ids u)
  show "?d \<le> ses_local_data_packet_id s'" by (simp add: s' u word_le_nat_alt)
qed

lemma session_step_ids:
  assumes "session_step e s = (s', cs, ds)"
  shows "cs = ids_between (ses_local_control_packet_id s) (ses_local_control_packet_id s')"
    and "ds = ids_between (ses_local_data_packet_id s) (ses_local_data_packet_id s')"
    and "ses_local_control_packet_id s \<le> ses_local_control_packet_id s'"
    and "ses_local_data_packet_id s \<le> ses_local_data_packet_id s'"
  using assms
  by (cases e;
      force simp: set_remote_session_id_def set_negotiation_state_def
        split: sum.splits dest: new_control_packet_id new_data_packet_ids_ids)+

lemma session_run_ids:
  assumes "session_run es s = (s', cs, ds)"
  shows "cs = ids_between (ses_local_control_packet_id s) (ses_local_control_packet_id s')
    \<and> ds = ids_between (ses_local_data_packet_id s) (ses_local_data_packet_id s')
    \<and> ses_local_control_packet_id s \<le> ses_local_control_packet_id s'
    \<and> ses_local_data_packet_id s \<le> ses_local_data_packet_id s'"
  using assms
proof (induction es arbitrary: s cs ds)
  case (Cons e es)
  obtain s1 c1 d1 where st: "session_step e s = (s1, c1, d1)" by (metis prod_cases3)
  obtain c2 d2 where r: "session_run es s1 = (s', c2, d2)" and cs: "cs = c1 @ c2" "ds = d1 @ d2"
    using Cons.prems st by (auto split: prod.splits)
  from session_step_ids [OF st] Cons.IH [OF r] show ?case
    by (simp add: cs ids_between_append) (meson order_trans)
qed simp

text \<open>
  Property C36. Whatever control packets, data batches, remote ids and state changes a fresh
  session sees, in any order, the control packet ids it hands out are 1, 2, 3, \dots without gap
  or repetition, and so are the data packet ids, so no packet id is ever used twice under a key.
\<close>

theorem session_ids_unique:
  assumes "session_run es (with_local_id i) = (s', cs, ds)"
  shows "cs = ids_between 1 (ses_local_control_packet_id s') \<and> ds = ids_between 1 (ses_local_data_packet_id s')
    \<and> distinct cs \<and> distinct ds"
proof -
  have d: "distinct (ids_between 1 b)" for b :: u32
  proof -
    have "inj_on (of_nat :: nat \<Rightarrow> u32) {..< 2 ^ 32}"
      by (rule inj_on_inverseI [of _ unat]) (simp add: unat_of_nat)
    moreover have "set [unat (1 :: u32) ..< unat b] \<subseteq> {..< 2 ^ 32}"
      using unsigned_less [of b, where ?'a = nat] by auto
    ultimately show ?thesis by (simp add: distinct_map inj_on_subset)
  qed
  from session_run_ids [OF assms] show ?thesis
    using d [of "ses_local_control_packet_id s'"] d [of "ses_local_data_packet_id s'"]
    by (simp add: with_local_id_def)
qed

theorem session_ids_unique_witness:
  "session_run [OpControl ControlV1 [7], OpData DataV2 2, OpControl DataV1 []] (with_local_id zero_session)
     = ((with_local_id zero_session)\<lparr>ses_local_control_packet_id := 2, ses_local_data_packet_id := 3\<rparr>,
        [1], [1, 2])
   \<and> [1, 2] = ids_between 1 3"
proof -
  have r: "session_run [OpControl ControlV1 [7], OpData DataV2 2, OpControl DataV1 []] (with_local_id zero_session)
     = ((with_local_id zero_session)\<lparr>ses_local_control_packet_id := 2, ses_local_data_packet_id := 3\<rparr>,
        [1], [1, 2])"
    by (simp add: new_control_packet_def new_data_packet_ids_def with_local_id_def packet_new_def
        upt_rec Let_def)
  from session_ids_unique [OF r] have "[1, 2] = ids_between 1 3" by simp
  with r show ?thesis by blast
qed

end
