(* ===== verification/Ovpn_Reliable.thy ===== *)
theory Ovpn_Reliable
  imports Ovpn_Session "HOL-Library.Multiset"
begin

text \<open>
  The reliable control layer (\<open>protocol/openvpn/reliable.rs\<close>): the six-slot send window with
  acknowledgments and retransmission deadlines, and the twelve-slot receive window that
  reorders incoming control packets. Each operation runs under the state's mutex, so it is one
  function on the guarded value; the closure \<open>create\<close> of \<open>insert_outgoing_packet\<close> carries the
  state \<open>'c\<close> it captures.
\<close>

definition RELIABLE_SEND_BUFFER_SIZE :: nat where "RELIABLE_SEND_BUFFER_SIZE = 6"
definition RELIABLE_RECEIVE_BUFFER_SIZE :: u32 where "RELIABLE_RECEIVE_BUFFER_SIZE = 12"
definition MAXIMUM_ACKNOWLEDGMENTS_PER_PACKET :: nat where "MAXIMUM_ACKNOWLEDGMENTS_PER_PACKET = 4"
definition ACKNOWLEDGMENT_SET_CAPACITY :: nat where "ACKNOWLEDGMENT_SET_CAPACITY = 8"
definition INITIAL_RETRANSMISSION_TIMEOUT :: duration where "INITIAL_RETRANSMISSION_TIMEOUT = secs 2"
definition MAXIMUM_RETRANSMISSION_TIMEOUT :: duration where "MAXIMUM_RETRANSMISSION_TIMEOUT = secs 60"
definition FAST_RETRANSMISSION_ACK_THRESHOLD :: u8 where "FAST_RETRANSMISSION_ACK_THRESHOLD = 3"

lemmas reliable_consts = RELIABLE_SEND_BUFFER_SIZE_def RELIABLE_RECEIVE_BUFFER_SIZE_def
  ACKNOWLEDGMENT_SET_CAPACITY_def INITIAL_RETRANSMISSION_TIMEOUT_def
  MAXIMUM_RETRANSMISSION_TIMEOUT_def FAST_RETRANSMISSION_ACK_THRESHOLD_def

subsection \<open>The send window\<close>

record in_flight_packet =
  ifp_packet :: packet
  ifp_retransmission_deadline :: "instant option"
  ifp_higher_packet_acknowledgments :: u8
  ifp_retransmission_count :: u32

definition schedule :: "instant \<Rightarrow> in_flight_packet \<Rightarrow> in_flight_packet" where
  "schedule now t =
     (let count = sat_add (ifp_retransmission_count t) 1;
          shift = min (sat_sub count 1) 31;
          multiplier = push_bit (unat shift) (1 :: u32);
          timeout = min (INITIAL_RETRANSMISSION_TIMEOUT * unat multiplier) MAXIMUM_RETRANSMISSION_TIMEOUT
      in t\<lparr>ifp_retransmission_count := count, ifp_retransmission_deadline := Some (now + timeout)\<rparr>)"

record outgoing_inner =
  out_in_flight :: "(u32 \<times> in_flight_packet) list"
  out_pending_acknowledgments :: "u32 list"

definition outgoing_new :: outgoing_inner where
  "outgoing_new = \<lparr>out_in_flight = [], out_pending_acknowledgments = []\<rparr>"

definition take_acknowledgments :: "nat \<Rightarrow> outgoing_inner \<Rightarrow> outgoing_inner \<times> u32 list" where
  "take_acknowledgments maximum s =
     (let ids = take maximum (out_pending_acknowledgments s)
      in (s\<lparr>out_pending_acknowledgments := fold removeAll ids (out_pending_acknowledgments s)\<rparr>, ids))"

fun return_ids :: "u32 list \<Rightarrow> u32 list \<Rightarrow> u32 list" where
  "return_ids [] pending = pending"
| "return_ids (i # ids) pending =
     (if length pending \<ge> ACKNOWLEDGMENT_SET_CAPACITY \<and> i \<notin> set pending then pending
      else return_ids ids (bset_insert i pending))"

definition return_acknowledgments :: "u32 list \<Rightarrow> outgoing_inner \<Rightarrow> outgoing_inner" where
  "return_acknowledgments ids s =
     s\<lparr>out_pending_acknowledgments := return_ids ids (out_pending_acknowledgments s)\<rparr>"

definition insert_outgoing_packet ::
  "nat \<Rightarrow> (u32 list \<Rightarrow> 'c \<Rightarrow> 'c \<times> ('e + packet)) \<Rightarrow> 'c \<Rightarrow> outgoing_inner
    \<Rightarrow> outgoing_inner \<times> 'c \<times> ('e + packet option)" where
  "insert_outgoing_packet maximum create c s =
     (if length (out_in_flight s) \<ge> RELIABLE_SEND_BUFFER_SIZE then (s, c, Inr None)
      else case take_acknowledgments maximum s of (s1, ids) \<Rightarrow>
        (case create ids c of
           (c', Inl e) \<Rightarrow> (return_acknowledgments ids s1, c', Inl e)
         | (c', Inr p) \<Rightarrow>
             (s1\<lparr>out_in_flight := btree_insert (pkt_id p)
                  \<lparr>ifp_packet = p, ifp_retransmission_deadline = None,
                   ifp_higher_packet_acknowledgments = 0, ifp_retransmission_count = 0\<rparr>
                  (out_in_flight s1)\<rparr>,
              c', Inr (Some p))))"

definition acknowledge :: "u32 \<Rightarrow> (u32 \<times> in_flight_packet) list \<Rightarrow> (u32 \<times> in_flight_packet) list" where
  "acknowledge a m =
     map (\<lambda>(i, t). (i, if a > i
            then t\<lparr>ifp_higher_packet_acknowledgments := sat_add (ifp_higher_packet_acknowledgments t) 1\<rparr>
            else t))
         (btree_remove a m)"

definition on_incoming_packet :: "packet \<Rightarrow> outgoing_inner \<Rightarrow> outgoing_inner" where
  "on_incoming_packet p s =
     (let pending = (if pkt_opcode p \<noteq> AcknowledgmentV1
                        \<and> length (out_pending_acknowledgments s) < ACKNOWLEDGMENT_SET_CAPACITY
                     then bset_insert (pkt_id p) (out_pending_acknowledgments s)
                     else out_pending_acknowledgments s)
      in \<lparr>out_in_flight = fold acknowledge (pkt_acknowledgment_ids p) (out_in_flight s),
          out_pending_acknowledgments = pending\<rparr>)"

definition pending_acknowledgment_count :: "outgoing_inner \<Rightarrow> nat" where
  "pending_acknowledgment_count s = length (out_pending_acknowledgments s)"

definition has_in_flight_packets :: "outgoing_inner \<Rightarrow> bool" where
  "has_in_flight_packets s \<longleftrightarrow> out_in_flight s \<noteq> []"

definition ready_to_send :: "instant \<Rightarrow> in_flight_packet \<Rightarrow> bool" where
  "ready_to_send now t \<longleftrightarrow>
     (case ifp_retransmission_deadline t of None \<Rightarrow> True | Some deadline \<Rightarrow> deadline \<le> now)
     \<or> ifp_higher_packet_acknowledgments t \<ge> FAST_RETRANSMISSION_ACK_THRESHOLD"

definition packets_ready_to_send :: "instant \<Rightarrow> outgoing_inner \<Rightarrow> outgoing_inner \<times> packet list" where
  "packets_ready_to_send now s =
     (s\<lparr>out_in_flight := map (\<lambda>(i, t). (i, if ready_to_send now t then schedule now t else t)) (out_in_flight s)\<rparr>,
      map (ifp_packet \<circ> snd) (filter (ready_to_send now \<circ> snd) (out_in_flight s)))"

subsection \<open>The receive window\<close>

record incoming_inner =
  inc_pending :: "(u32 \<times> packet) list"
  inc_last_consumed_id :: u32

definition incoming_new :: incoming_inner where
  "incoming_new = \<lparr>inc_pending = [], inc_last_consumed_id = 0\<rparr>"

definition try_insert_incoming_packet :: "packet \<Rightarrow> incoming_inner \<Rightarrow> incoming_inner \<times> bool" where
  "try_insert_incoming_packet p s =
     (if pkt_id p \<le> inc_last_consumed_id s \<or> map_of (inc_pending s) (pkt_id p) \<noteq> None
      then (s, False)
      else let nxt = inc_last_consumed_id s + 1
        in if pkt_id p - nxt \<ge> RELIABLE_RECEIVE_BUFFER_SIZE
              \<or> length (inc_pending s) \<ge> unat RELIABLE_RECEIVE_BUFFER_SIZE
           then (s, False)
           else (s\<lparr>inc_pending := btree_insert (pkt_id p) p (inc_pending s)\<rparr>, True))"

function drain_ordered :: "(u32 \<times> packet) list \<Rightarrow> u32 \<Rightarrow> (u32 \<times> packet) list \<times> u32 \<times> packet list" where
  "drain_ordered pending lst =
     (let nxt = lst + 1 in
      case map_of pending nxt of
        None \<Rightarrow> (pending, lst, [])
      | Some p \<Rightarrow>
          (case drain_ordered (btree_remove nxt pending) nxt of
             (pending', lst', ready) \<Rightarrow> (pending', lst', p # ready)))"
  by pat_completeness auto
termination
proof (relation "measure (length \<circ> fst)", goal_cases)
  case (2 pending lst nxt p)
  then have "(nxt, p) \<in> set pending" by (auto dest: map_of_in_set)
  then show ?case
    by (auto simp: btree_remove_def intro!: length_filter_less [of "(nxt, p)"])
qed simp

declare drain_ordered.simps [simp del]

definition next_ordered_sequence :: "incoming_inner \<Rightarrow> incoming_inner \<times> packet list" where
  "next_ordered_sequence s =
     (case drain_ordered (inc_pending s) (inc_last_consumed_id s) of
        (pending, lst, ready) \<Rightarrow> (\<lparr>inc_pending = pending, inc_last_consumed_id = lst\<rparr>, ready))"

subsection \<open>Acknowledgment bookkeeping\<close>

lemma fold_removeAll: "fold removeAll ids xs = filter (\<lambda>x. x \<notin> set ids) xs"
  by (induction ids arbitrary: xs) (auto simp: removeAll_filter_not_eq conj_commute intro: filter_cong)

lemma filter_take_drop: "distinct xs \<Longrightarrow> filter (\<lambda>x. x \<notin> set (take n xs)) xs = drop n xs"
proof -
  assume "distinct xs"
  then have "distinct (take n xs @ drop n xs)" by simp
  then have "set (take n xs) \<inter> set (drop n xs) = {}" by (simp only: distinct_append)
  then have "filter (\<lambda>x. x \<notin> set (take n xs)) (drop n xs) = drop n xs"
    by (intro filter_True) auto
  moreover have "filter (\<lambda>x. x \<notin> set (take n xs)) (take n xs) = []" by (simp add: filter_empty_conv)
  ultimately show ?thesis by (metis append_Nil append_take_drop_id filter_append)
qed

lemma take_acknowledgments_eq:
  "ascending (out_pending_acknowledgments s) \<Longrightarrow>
   take_acknowledgments n s =
     (s\<lparr>out_pending_acknowledgments := drop n (out_pending_acknowledgments s)\<rparr>,
      take n (out_pending_acknowledgments s))"
  by (simp add: take_acknowledgments_def Let_def fold_removeAll filter_take_drop ascending_distinct)

lemma return_ids_wf:
  "ascending p \<Longrightarrow> length p \<le> 8 \<Longrightarrow> ascending (return_ids ids p) \<and> length (return_ids ids p) \<le> 8"
proof (induction ids arbitrary: p)
  case (Cons i ids)
  show ?case
  proof (cases "length p \<ge> 8 \<and> i \<notin> set p")
    case False
    with Cons.prems have "length (bset_insert i p) \<le> 8" "ascending (bset_insert i p)"
      by (auto simp: length_bset_insert intro: ascending_bset_insert)
    with Cons.IH False show ?thesis by (auto simp: reliable_consts)
  qed (use Cons.prems in \<open>auto simp: reliable_consts\<close>)
qed simp

lemma return_ids_set:
  "ascending p \<Longrightarrow> distinct (ids @ p) \<Longrightarrow> length (ids @ p) \<le> 8 \<Longrightarrow> set (return_ids ids p) = set ids \<union> set p"
proof (induction ids arbitrary: p)
  case (Cons i ids)
  from Cons.prems have "distinct (ids @ bset_insert i p)" "length (ids @ bset_insert i p) \<le> 8"
    "ascending (bset_insert i p)"
    by (auto simp: length_bset_insert set_insort_insert distinct_insort_insert ascending_bset_insert)
  with Cons show ?case by (auto simp: reliable_consts set_insort_insert)
qed simp

text \<open>Returning what was just taken restores the pending set exactly.\<close>

lemma return_taken:
  assumes "ascending xs" "length xs \<le> 8"
  shows "return_ids (take n xs) (drop n xs) = xs"
proof -
  have d: "ascending (drop n xs)" using assms(1) by (simp add: ascending_iff sorted_wrt_drop)
  then have "ascending (return_ids (take n xs) (drop n xs))" using return_ids_wf assms(2) by auto
  moreover have "distinct (take n xs @ drop n xs)" using ascending_distinct [OF assms(1)] by simp
  then have "set (return_ids (take n xs) (drop n xs)) = set (take n xs) \<union> set (drop n xs)"
    using return_ids_set [OF d, of "take n xs"] assms(2) by simp
  then have "set (return_ids (take n xs) (drop n xs)) = set xs" by (metis append_take_drop_id set_append)
  ultimately show ?thesis using assms(1) by (auto simp: ascending_iff intro: sorted_distinct_set_unique)
qed

subsection \<open>The send window is bounded\<close>

definition out_wf :: "outgoing_inner \<Rightarrow> bool" where
  "out_wf s \<longleftrightarrow> btree_wf (out_in_flight s) \<and> length (out_in_flight s) \<le> 6
     \<and> ascending (out_pending_acknowledgments s) \<and> length (out_pending_acknowledgments s) \<le> 8
     \<and> (\<forall>(i, t) \<in> set (out_in_flight s). pkt_id (ifp_packet t) = i)"

lemma insert_outgoing_cases:
  assumes "out_wf s" "insert_outgoing_packet n create c s = (s', c', r)"
  shows "case r of
     Inl e \<Rightarrow> s' = s \<and> create (take n (out_pending_acknowledgments s)) c = (c', Inl e)
   | Inr None \<Rightarrow> s' = s \<and> c' = c \<and> length (out_in_flight s) = 6
   | Inr (Some p) \<Rightarrow> create (take n (out_pending_acknowledgments s)) c = (c', Inr p)
       \<and> length (out_in_flight s) < 6
       \<and> s' = \<lparr>out_in_flight = btree_insert (pkt_id p) \<lparr>ifp_packet = p, ifp_retransmission_deadline = None,
                 ifp_higher_packet_acknowledgments = 0, ifp_retransmission_count = 0\<rparr> (out_in_flight s),
               out_pending_acknowledgments = drop n (out_pending_acknowledgments s)\<rparr>"
proof (cases "length (out_in_flight s) \<ge> 6")
  case True
  with assms show ?thesis by (auto simp: insert_outgoing_packet_def out_wf_def reliable_consts)
next
  case False
  obtain c1 q where q: "create (take n (out_pending_acknowledgments s)) c = (c1, q)" by fastforce
  from assms have w: "ascending (out_pending_acknowledgments s)" "length (out_pending_acknowledgments s) \<le> 8"
    by (auto simp: out_wf_def)
  from assms(2) False q w show ?thesis
    by (cases q) (auto simp: insert_outgoing_packet_def take_acknowledgments_eq reliable_consts
        return_acknowledgments_def return_taken)
qed

lemma out_wf_insert [inv_intros]:
  assumes "out_wf s" "insert_outgoing_packet n create c s = (s', c', r)"
  shows "out_wf s'"
proof (cases r)
  case (Inr q)
  show ?thesis
  proof (cases q)
    case (Some p)
    let ?f = "\<lparr>ifp_packet = p, ifp_retransmission_deadline = None,
                 ifp_higher_packet_acknowledgments = 0, ifp_retransmission_count = 0\<rparr>"
    from insert_outgoing_cases [OF assms] Inr Some
    have l: "length (out_in_flight s) < 6"
      and s': "s' = \<lparr>out_in_flight = btree_insert (pkt_id p) ?f (out_in_flight s),
               out_pending_acknowledgments = drop n (out_pending_acknowledgments s)\<rparr>" by auto
    from assms(1) l have "length (btree_insert (pkt_id p) ?f (out_in_flight s)) \<le> 6"
      by (auto simp: out_wf_def length_btree_insert)
    moreover have "\<forall>(i, t) \<in> set (btree_insert (pkt_id p) ?f (out_in_flight s)). pkt_id (ifp_packet t) = i"
      using assms(1) set_btree_insert_subset [of "pkt_id p" ?f "out_in_flight s"]
      by (auto simp: out_wf_def)
    moreover have "ascending (drop n (out_pending_acknowledgments s))"
      using assms(1) by (simp add: out_wf_def sorted_wrt_drop)
    ultimately show ?thesis using assms(1) by (auto simp: s' out_wf_def intro: btree_wf_insert)
  qed (use insert_outgoing_cases [OF assms] assms Inr in auto)
qed (use insert_outgoing_cases [OF assms] assms in auto)

lemma acknowledge_keys [simp]: "map fst (acknowledge a m) = map fst (btree_remove a m)"
  by (simp add: acknowledge_def split_def)

lemma acknowledge_packets:
  "(\<forall>(i, t) \<in> set m. pkt_id (ifp_packet t) = i) \<Longrightarrow> \<forall>(i, t) \<in> set (acknowledge a m). pkt_id (ifp_packet t) = i"
  by (auto simp: acknowledge_def btree_remove_def)

lemma fold_acknowledge:
  assumes "btree_wf m" "\<forall>(i, t) \<in> set m. pkt_id (ifp_packet t) = i"
  shows "btree_wf (fold acknowledge as m) \<and> length (fold acknowledge as m) \<le> length m
    \<and> (\<forall>(i, t) \<in> set (fold acknowledge as m). pkt_id (ifp_packet t) = i)
    \<and> fst ` set (fold acknowledge as m) = fst ` set m - set as"
  using assms
proof (induction as arbitrary: m)
  case (Cons a as)
  have "btree_wf (acknowledge a m)" using Cons.prems(1) by (simp add: btree_wf_remove)
  note IH = Cons.IH [OF this acknowledge_packets [OF Cons.prems(2)]]
  have "length (acknowledge a m) = length (btree_remove a m)" by (simp add: acknowledge_def)
  then have "length (acknowledge a m) \<le> length m" by (simp add: length_btree_remove)
  moreover have "fst ` set (acknowledge a m) = fst ` set m - {a}"
    by (metis acknowledge_keys keys_btree_remove list.set_map)
  ultimately show ?case using IH by auto
qed simp

lemma out_wf_on_incoming [inv_intros]:
  assumes "out_wf s"
  shows "out_wf (on_incoming_packet p s)"
  using assms fold_acknowledge [of "out_in_flight s" "pkt_acknowledgment_ids p"]
  by (auto simp: out_wf_def on_incoming_packet_def Let_def reliable_consts length_bset_insert
      intro: ascending_bset_insert)

lemma schedule_packet [simp]: "ifp_packet (schedule now t) = ifp_packet t"
  by (simp add: schedule_def Let_def)

lemma out_wf_poll [inv_intros]: "out_wf s \<Longrightarrow> out_wf (fst (packets_ready_to_send now s))"
  by (auto simp: out_wf_def packets_ready_to_send_def split_def comp_def)

datatype out_event =
  OutInsert nat "u32 list \<Rightarrow> unit + packet" | OutIncoming packet | OutTake nat
| OutReturn "u32 list" | OutPoll instant

fun out_step :: "out_event \<Rightarrow> outgoing_inner \<Rightarrow> outgoing_inner" where
  "out_step (OutInsert n create) s = fst (insert_outgoing_packet n (\<lambda>ids c. (c, create ids)) () s)"
| "out_step (OutIncoming p) s = on_incoming_packet p s"
| "out_step (OutTake n) s = fst (take_acknowledgments n s)"
| "out_step (OutReturn ids) s = return_acknowledgments ids s"
| "out_step (OutPoll now) s = fst (packets_ready_to_send now s)"

interpretation send_window: event_system outgoing_new out_step out_wf
proof
  show "out_wf outgoing_new" by (simp add: out_wf_def outgoing_new_def)
  show "out_wf (out_step e s)" if "out_wf s" for s e
  proof (cases e)
    case (OutInsert n create)
    obtain s' c' r where "insert_outgoing_packet n (\<lambda>ids c. (c, create ids)) () s = (s', c', r)"
      by (metis prod_cases3)
    with OutInsert that show ?thesis by (simp add: out_wf_insert)
  next
    case (OutTake n)
    with that show ?thesis
      by (auto simp: out_wf_def take_acknowledgments_eq ascending_iff sorted_wrt_drop)
  next
    case (OutReturn ids)
    with that show ?thesis using return_ids_wf by (auto simp: out_wf_def return_acknowledgments_def)
  qed (use that in \<open>simp_all add: out_wf_on_incoming out_wf_poll\<close>)
qed

text \<open>
  Property C30. However sends, acknowledgments, received packets and retransmission polls
  interleave, at most six control packets are unacknowledged and at most eight acknowledgments
  are pending, both kept in ascending packet-id order without repetition.
\<close>

theorem send_window_bounded:
  "let s = fold out_step es outgoing_new
   in length (out_in_flight s) \<le> RELIABLE_SEND_BUFFER_SIZE
      \<and> length (out_pending_acknowledgments s) \<le> ACKNOWLEDGMENT_SET_CAPACITY
      \<and> btree_wf (out_in_flight s) \<and> ascending (out_pending_acknowledgments s)
      \<and> map fst (out_in_flight s) = map (pkt_id \<circ> ifp_packet \<circ> snd) (out_in_flight s)"
  using send_window.invar_reached [of es] by (auto simp: Let_def out_wf_def reliable_consts)

text \<open>
  Sending is atomic in every reachable state: a failing packet constructor leaves the
  window and the pending acknowledgments as they were, a full window consumes neither
  acknowledgments nor constructor state, and a successful send takes the oldest pending
  acknowledgments and files the packet as not yet transmitted.
\<close>

theorem insert_outgoing_atomic:
  "let s = fold out_step es outgoing_new; acks = take n (out_pending_acknowledgments s)
   in case insert_outgoing_packet n create c s of
        (s', c', Inl e) \<Rightarrow> s' = s \<and> create acks c = (c', Inl e)
      | (s', c', Inr None) \<Rightarrow> s' = s \<and> c' = c \<and> length (out_in_flight s) = RELIABLE_SEND_BUFFER_SIZE
      | (s', c', Inr (Some p)) \<Rightarrow> create acks c = (c', Inr p)
          \<and> acks @ out_pending_acknowledgments s' = out_pending_acknowledgments s
          \<and> map_of (out_in_flight s') = (map_of (out_in_flight s))(pkt_id p \<mapsto>
              \<lparr>ifp_packet = p, ifp_retransmission_deadline = None,
               ifp_higher_packet_acknowledgments = 0, ifp_retransmission_count = 0\<rparr>)"
proof -
  let ?s = "fold out_step es outgoing_new"
  obtain s' c' r where i: "insert_outgoing_packet n create c ?s = (s', c', r)" by (metis prod_cases3)
  from insert_outgoing_cases [OF send_window.invar_reached i] show ?thesis
    by (auto simp: i Let_def reliable_consts split: sum.splits option.splits)
qed

subsection \<open>Retransmission\<close>

lemma min_pow_cap:
  fixes c k :: nat
  shows "min (2 * 2 ^ min c 31 * k) (60 * k) = min (2 * 2 ^ c * k) (60 * k)"
proof (cases "c \<le> 31")
  case False
  have "(2 :: nat) ^ 31 \<le> 2 ^ c" using False by (intro power_increasing) auto
  then have "60 \<le> 2 * (2 :: nat) ^ c" by simp
  then have "60 * k \<le> 2 * 2 ^ c * k" by (rule mult_right_mono) simp
  with False show ?thesis by (auto simp: min_def)
qed (simp add: min_absorb1)

text \<open>
  The deadline of the n-th retransmission backs off exponentially from two seconds to
  a cap of sixty, for every value of the 32-bit counter including its saturated one.
\<close>

theorem schedule_backoff:
  "ifp_retransmission_deadline (schedule now t)
     = Some (now + min (secs (2 * 2 ^ unat (ifp_retransmission_count t))) (secs 60))"
proof -
  let ?c = "ifp_retransmission_count t"
  have "unat (sat_sub (sat_add ?c 1) 1) = min (unat ?c) (2 ^ 32 - 2)"
    by (simp add: unat_sat_sub unat_sat_add)
  then have sh: "unat (min (sat_sub (sat_add ?c 1) 1) 31) = min (unat ?c) 31"
    by (auto simp: min_def word_le_nat_alt)
  have "unat (push_bit n (1 :: u32)) = 2 ^ n" if "n \<le> 31" for n
  proof -
    from that have "take_bit 32 (push_bit n (1 :: nat)) = 2 ^ n"
      by (simp add: take_bit_nat_eq_self)
    then show ?thesis by (simp only: unsigned_push_bit_eq) simp
  qed
  then have "unat (push_bit (min (unat ?c) 31) (1 :: u32)) = 2 ^ min (unat ?c) 31" by simp
  then show ?thesis
    using min_pow_cap [of "unat ?c" 1000000000]
    by (simp add: schedule_def Let_def sh reliable_consts mult.assoc mult.commute mult.left_commute)
qed

text \<open>
  A packet overtaken by three acknowledgments is retransmitted by every later poll,
  even one at the same instant: scheduling a retransmission does not reset the count of higher
  acknowledgments, so the backoff deadline no longer applies to that packet.
\<close>

theorem fast_retransmission_repeats:
  assumes "(i, t) \<in> set (out_in_flight s)"
    and "ifp_higher_packet_acknowledgments t \<ge> FAST_RETRANSMISSION_ACK_THRESHOLD"
  shows "ifp_packet t \<in> set (snd (packets_ready_to_send now s))
    \<and> ifp_packet t \<in> set (snd (packets_ready_to_send now (fst (packets_ready_to_send now s))))"
proof -
  from assms(2) have r: "ready_to_send now t" by (simp add: ready_to_send_def)
  from assms(2) have r': "ready_to_send now (schedule now t)"
    by (simp add: ready_to_send_def schedule_def Let_def)
  from assms(1) r have "(i, schedule now t) \<in> set (out_in_flight (fst (packets_ready_to_send now s)))"
    by (force simp: packets_ready_to_send_def)
  with assms(1) r r' show ?thesis
    by (force simp: packets_ready_to_send_def)
qed

theorem fast_retransmission_repeats_witness:
  "\<exists>s t. s = fold out_step
      (map (\<lambda>i. OutInsert 0 (\<lambda>_. Inr ((packet_new ControlV1 0 [])\<lparr>pkt_id := i\<rparr>))) [1, 2, 3, 4]
       @ [OutPoll 0, OutIncoming ((packet_new AcknowledgmentV1 0 [])\<lparr>pkt_acknowledgment_ids := [2, 3, 4]\<rparr>)])
      outgoing_new
    \<and> (1, t) \<in> set (out_in_flight s)
    \<and> ifp_packet t \<in> set (snd (packets_ready_to_send 0 (fst (packets_ready_to_send 0 s))))"
proof -
  define p where "p = (packet_new ControlV1 0 [])\<lparr>pkt_id := 1\<rparr>"
  define t where "t = \<lparr>ifp_packet = p, ifp_retransmission_deadline = Some (secs 2),
    ifp_higher_packet_acknowledgments = 3, ifp_retransmission_count = 1\<rparr>"
  define s where "s = fold out_step
      (map (\<lambda>i. OutInsert 0 (\<lambda>_. Inr ((packet_new ControlV1 0 [])\<lparr>pkt_id := i\<rparr>))) [1, 2, 3, 4]
       @ [OutPoll 0, OutIncoming ((packet_new AcknowledgmentV1 0 [])\<lparr>pkt_acknowledgment_ids := [2, 3, 4]\<rparr>)])
      outgoing_new"
  have s: "s = \<lparr>out_in_flight = [(1, t)], out_pending_acknowledgments = []\<rparr>"
    by (simp add: s_def t_def p_def insert_outgoing_packet_def take_acknowledgments_def outgoing_new_def
        reliable_consts packets_ready_to_send_def ready_to_send_def schedule_def on_incoming_packet_def
        acknowledge_def btree_remove_def packet_new_def sat_add_def sat_sub_def Let_def)
  have "(1, t) \<in> set (out_in_flight s)" by (simp add: s)
  moreover have "ifp_higher_packet_acknowledgments t \<ge> FAST_RETRANSMISSION_ACK_THRESHOLD"
    by (simp add: t_def reliable_consts)
  ultimately have "ifp_packet t \<in> set (snd (packets_ready_to_send 0 (fst (packets_ready_to_send 0 s))))"
    using fast_retransmission_repeats by blast
  then show ?thesis using s s_def by auto
qed

subsection \<open>In-order exactly-once delivery\<close>

definition inc_wf :: "incoming_inner \<Rightarrow> bool" where
  "inc_wf s \<longleftrightarrow> btree_wf (inc_pending s)
     \<and> (\<forall>(k, p) \<in> set (inc_pending s). pkt_id p = k
          \<and> unat (inc_last_consumed_id s) < unat k \<and> unat k \<le> unat (inc_last_consumed_id s) + 12)"

lemma window_distance:
  assumes "lst < (k :: u32)"
  shows "k - (lst + 1) < 12 \<longleftrightarrow> unat k \<le> unat lst + 12"
proof -
  from assms have "lst \<noteq> - 1" using word_order.extremum_strict by blast
  then have "unat (lst + 1) = Suc (unat lst)" by (rule unat_succ)
  moreover from this assms have "lst + 1 \<le> k" by (simp add: word_le_nat_alt word_less_nat_alt)
  ultimately show ?thesis using assms
    by (auto simp: word_less_nat_alt unat_sub)
qed

lemma pending_short:
  assumes "inc_wf s" "k \<notin> fst ` set (inc_pending s)"
    "unat (inc_last_consumed_id s) < unat k" "unat k \<le> unat (inc_last_consumed_id s) + 12"
  shows "length (inc_pending s) < 12"
proof -
  let ?l = "unat (inc_last_consumed_id s)"
  have d: "distinct (map fst (inc_pending s))" using assms(1) by (simp add: inc_wf_def ascending_distinct)
  have "unat ` fst ` set (inc_pending s) \<subseteq> {?l <.. ?l + 12} - {unat k}"
    using assms(1,2) by (force simp: inc_wf_def word_unat_eq_iff)
  then have "card (unat ` fst ` set (inc_pending s)) \<le> card ({?l <.. ?l + 12} - {unat k})"
    by (intro card_mono) auto
  also have "\<dots> = 11" using assms(3,4) by (simp add: card_Diff_singleton)
  finally have "card (fst ` set (inc_pending s)) \<le> 11"
    by (subst (asm) card_image) (auto simp: inj_on_def word_unat_eq_iff)
  then show ?thesis using distinct_card [OF d] by simp
qed

lemma try_insert_cases:
  assumes "inc_wf s"
  shows "try_insert_incoming_packet p s =
    (if inc_last_consumed_id s < pkt_id p \<and> unat (pkt_id p) \<le> unat (inc_last_consumed_id s) + 12
        \<and> pkt_id p \<notin> fst ` set (inc_pending s)
     then (s\<lparr>inc_pending := btree_insert (pkt_id p) p (inc_pending s)\<rparr>, True) else (s, False))"
proof (cases "inc_last_consumed_id s < pkt_id p \<and> pkt_id p \<notin> fst ` set (inc_pending s)")
  case True
  then show ?thesis
    using pending_short [OF assms, of "pkt_id p"] window_distance [of "inc_last_consumed_id s" "pkt_id p"]
    by (auto simp: try_insert_incoming_packet_def Let_def reliable_consts map_of_eq_None_iff
        not_le not_less word_less_nat_alt word_le_nat_alt)
next
  case False
  then show ?thesis
    by (auto simp: try_insert_incoming_packet_def map_of_eq_None_iff not_less)
qed

lemma inc_wf_try_insert [inv_intros]:
  assumes "inc_wf s" "try_insert_incoming_packet p s = (s', b)"
  shows "inc_wf s'"
proof (cases b)
  case True
  let ?m = "btree_insert (pkt_id p) p (inc_pending s)" and ?l = "unat (inc_last_consumed_id s)"
  from assms True have s': "s' = s\<lparr>inc_pending := ?m\<rparr>"
    and w: "?l < unat (pkt_id p)" "unat (pkt_id p) \<le> ?l + 12"
    by (auto simp: try_insert_cases word_less_nat_alt split: if_splits)
  have "pkt_id q = k \<and> ?l < unat k \<and> unat k \<le> ?l + 12" if "(k, q) \<in> set ?m" for k q
  proof -
    from that have "(k, q) = (pkt_id p, p) \<or> (k, q) \<in> set (inc_pending s)"
      using set_btree_insert_subset [of "pkt_id p" p "inc_pending s"] by blast
    with assms(1) w show ?thesis by (auto simp: inc_wf_def)
  qed
  moreover have "btree_wf ?m" using assms(1) by (simp add: inc_wf_def btree_wf_insert)
  ultimately show ?thesis by (auto simp: inc_wf_def s')
next
  case False
  with assms show ?thesis by (auto simp: try_insert_cases split: if_splits)
qed

lemma mset_btree_insert:
  "k \<notin> fst ` set m \<Longrightarrow> mset (map snd (btree_insert k v m)) = add_mset v (mset (map snd m))"
  by (induction m) auto

lemma mset_btree_remove:
  assumes "btree_wf m" "map_of m k = Some v"
  shows "mset (map snd m) = add_mset v (mset (map snd (btree_remove k m)))"
  using assms
proof (induction m)
  case (Cons e m)
  show ?case
  proof (cases "fst e = k")
    case True
    with Cons.prems have "filter (\<lambda>x. fst x \<noteq> k) m = m" by (auto simp: filter_id_conv)
    with True Cons.prems show ?thesis by (auto simp: btree_remove_def)
  next
    case False
    with Cons.prems have "btree_wf m" "map_of m k = Some v" by (auto split: if_splits)
    with Cons.IH False show ?thesis by (simp add: btree_remove_def)
  qed
qed simp

lemma drain_ordered_spec:
  assumes "inc_wf \<lparr>inc_pending = m, inc_last_consumed_id = l\<rparr>" "drain_ordered m l = (m', l', ready)"
  shows "inc_wf \<lparr>inc_pending = m', inc_last_consumed_id = l'\<rparr>
    \<and> unat l \<le> unat l' \<and> map (unat \<circ> pkt_id) ready = [Suc (unat l) ..< Suc (unat l')]
    \<and> mset (map snd m) = mset ready + mset (map snd m') \<and> l' + 1 \<notin> fst ` set m'"
  using assms
proof (induction m l arbitrary: m' l' ready rule: drain_ordered.induct)
  case (1 m l)
  show ?case
  proof (cases "map_of m (l + 1)")
    case None
    with 1(3) have "m' = m" "l' = l" "ready = []" by (simp_all add: drain_ordered.simps [of m l])
    with 1(2) None show ?thesis by (simp add: map_of_eq_None_iff)
  next
    case (Some p)
    obtain r2 where r: "drain_ordered (btree_remove (l + 1) m) (l + 1) = (m', l', r2)" "ready = p # r2"
      using 1(3) Some by (auto simp: drain_ordered.simps [of m l] Let_def split: prod.splits)
    have p: "(l + 1, p) \<in> set m" using Some by (rule map_of_in_set)
    with 1(2) have "unat l < unat (l + 1)" "pkt_id p = l + 1" by (auto simp: inc_wf_def)
    then have u: "unat (l + 1) = Suc (unat l)"
      by (metis less_zeroE unat_0 unat_succ add.left_inverse)
    have w: "btree_wf m" using 1(2) by (simp add: inc_wf_def)
    have "inc_wf \<lparr>inc_pending = btree_remove (l + 1) m, inc_last_consumed_id = l + 1\<rparr>"
      using 1(2) by (fastforce simp: inc_wf_def u btree_remove_def word_unat_eq_iff
          intro: ascending_filter)
    note IH = 1(1) [OF refl Some this r(1)]
    have "map (unat \<circ> pkt_id) ready = [Suc (unat l) ..< Suc (unat l')]"
      using IH r(2) \<open>pkt_id p = l + 1\<close> by (simp add: u upt_conv_Cons comp_def del: upt_Suc)
    with IH r(2) show ?thesis using mset_btree_remove [OF w Some] by (simp add: u comp_def del: upt_Suc)
  qed
qed

datatype in_event = Arrive packet | Drain

fun in_step :: "in_event \<Rightarrow> incoming_inner \<Rightarrow> incoming_inner \<times> bool \<times> packet list" where
  "in_step (Arrive p) s = (case try_insert_incoming_packet p s of (s', b) \<Rightarrow> (s', b, []))"
| "in_step Drain s = (case next_ordered_sequence s of (s', ready) \<Rightarrow> (s', False, ready))"

definition in_accept :: "in_event \<Rightarrow> incoming_inner \<Rightarrow> incoming_inner \<times> bool" where
  "in_accept e s = (case in_step e s of (s', b, _) \<Rightarrow> (s', b))"

text \<open>A run returns the final state, the packets delivered and the arrivals accepted.\<close>

fun in_run :: "in_event list \<Rightarrow> incoming_inner \<Rightarrow> incoming_inner \<times> packet list \<times> packet list" where
  "in_run [] s = (s, [], [])"
| "in_run (e # es) s =
     (case in_step e s of (s1, b, ready) \<Rightarrow>
        (case in_run es s1 of (s2, delivered, accepted) \<Rightarrow>
           (s2, ready @ delivered, (case e of Arrive p \<Rightarrow> if b then [p] else [] | Drain \<Rightarrow> []) @ accepted)))"

definition in_blocked :: "incoming_inner \<Rightarrow> u32 set" where
  "in_blocked s = {..inc_last_consumed_id s} \<union> fst ` set (inc_pending s)"

fun in_key :: "in_event \<Rightarrow> u32" where
  "in_key (Arrive p) = pkt_id p"
| "in_key Drain = 0"

lemma in_step_spec:
  assumes "inc_wf s" "in_step e s = (s', b, ready)"
  shows "inc_wf s'" (is ?wf)
    and "unat (inc_last_consumed_id s) \<le> unat (inc_last_consumed_id s')" (is ?mono)
    and "map (unat \<circ> pkt_id) ready
           = [Suc (unat (inc_last_consumed_id s)) ..< Suc (unat (inc_last_consumed_id s'))]" (is ?ids)
    and "mset (map snd (inc_pending s)) + mset (case e of Arrive p \<Rightarrow> if b then [p] else [] | Drain \<Rightarrow> [])
           = mset ready + mset (map snd (inc_pending s'))" (is ?bag)
    and "in_blocked s \<subseteq> in_blocked s'" (is ?blk)
proof -
  have "?wf \<and> ?mono \<and> ?ids \<and> ?bag \<and> ?blk"
  proof (cases e)
    case (Arrive p)
    then obtain "ready = []" and t: "try_insert_incoming_packet p s = (s', b)"
      using assms(2) by (auto split: prod.splits)
    moreover from t assms(1) have "b \<Longrightarrow> pkt_id p \<notin> fst ` set (inc_pending s)"
      by (auto simp: try_insert_cases split: if_splits)
    moreover have "inc_wf s'" by (rule inc_wf_try_insert [OF assms(1) t])
    moreover from t assms(1) have ?blk
      by (force simp: try_insert_cases in_blocked_def split: if_splits)
    ultimately show ?thesis using Arrive t assms(1)
      by (auto simp: try_insert_cases mset_btree_insert simp flip: mset_map split: if_splits)
  next
    case Drain
    obtain m l where d: "drain_ordered (inc_pending s) (inc_last_consumed_id s) = (m, l, ready)"
      and s': "s' = \<lparr>inc_pending = m, inc_last_consumed_id = l\<rparr>"
      using Drain assms(2) by (auto simp: next_ordered_sequence_def split: prod.splits)
    have "inc_wf \<lparr>inc_pending = inc_pending s, inc_last_consumed_id = inc_last_consumed_id s\<rparr>"
      using assms(1) by (cases s) simp
    note D = drain_ordered_spec [OF this d]
    have "unat k \<le> unat l \<or> k \<in> fst ` set m" if "(k, p) \<in> set (inc_pending s)" for k p
    proof -
      from that have "p \<in># mset (map snd (inc_pending s))" by force
      with D have "p \<in># mset ready + mset (map snd m)" by argo
      then have "p \<in> set ready \<or> (\<exists>j. (j, p) \<in> set m)" by auto
      moreover have "pkt_id p = k" using assms(1) that by (auto simp: inc_wf_def)
      moreover have "p \<in> set ready \<Longrightarrow> unat (pkt_id p) \<in> set [Suc (unat (inc_last_consumed_id s)) ..< Suc (unat l)]"
        using D by (metis comp_apply image_eqI list.set_map)
      moreover have "(j, p) \<in> set m \<Longrightarrow> pkt_id p = j" for j using D by (auto simp: inc_wf_def)
      ultimately show ?thesis by force
    qed
    then have "?blk" using D by (fastforce simp: in_blocked_def s' word_le_nat_alt)
    with D Drain show ?thesis by (simp add: s')
  qed
  then show ?wf ?mono ?ids ?bag ?blk by blast+
qed

interpretation receive_window: admission_filter in_accept in_key in_blocked inc_wf
proof
  fix s e s' b
  assume wf: "inc_wf s"
  show "inc_wf s'" "in_blocked s \<subseteq> in_blocked s'" if "in_accept e s = (s', b)"
    using that in_step_spec [OF wf] by (auto simp: in_accept_def split: prod.splits)
  show "in_key e \<notin> in_blocked s" if "in_accept e s = (s', True)"
    using that wf by (cases e) (auto simp: in_accept_def in_blocked_def try_insert_cases split: if_splits prod.splits)
  show "in_key e \<in> in_blocked s'" if "in_accept e s = (s', True)"
    using that wf by (cases e) (auto simp: in_accept_def in_blocked_def try_insert_cases split: if_splits prod.splits)
qed

lemma in_run_spec:
  assumes "inc_wf s" "in_run es s = (s', delivered, accepted)"
  shows "inc_wf s' \<and> unat (inc_last_consumed_id s) \<le> unat (inc_last_consumed_id s')
    \<and> map (unat \<circ> pkt_id) delivered
           = [Suc (unat (inc_last_consumed_id s)) ..< Suc (unat (inc_last_consumed_id s'))]
    \<and> mset (map snd (inc_pending s)) + mset accepted = mset delivered + mset (map snd (inc_pending s'))
    \<and> map Arrive accepted = admitted in_accept es s"
  using assms
proof (induction es arbitrary: s delivered accepted)
  case (Cons e es)
  obtain s1 b ready where st: "in_step e s = (s1, b, ready)" by (metis prod_cases3)
  let ?a = "case e of Arrive p \<Rightarrow> if b then [p] else [] | Drain \<Rightarrow> []"
  obtain d2 a2 where r: "in_run es s1 = (s', d2, a2)" and d: "delivered = ready @ d2" "accepted = ?a @ a2"
    using Cons.prems(2) st by (auto split: prod.splits)
  note S = in_step_spec [OF Cons.prems(1) st]
  note IH = Cons.IH [OF S(1) r]
  have acc: "in_accept e s = (s1, b)" by (simp add: in_accept_def st)
  have "map Arrive ?a = (if b then [e] else [])" using st by (cases e) (auto split: prod.splits)
  then have "map Arrive accepted = admitted in_accept (e # es) s"
    using IH d acc by auto
  moreover have "map (unat \<circ> pkt_id) delivered
      = [Suc (unat (inc_last_consumed_id s)) ..< Suc (unat (inc_last_consumed_id s'))]"
    using IH S(2,3) d upt_add_eq_append [of "Suc (unat (inc_last_consumed_id s))"
        "Suc (unat (inc_last_consumed_id s1))"
        "unat (inc_last_consumed_id s') - unat (inc_last_consumed_id s1)"]
    by (simp add: comp_def del: upt_Suc)
  moreover have "mset (map snd (inc_pending s)) + mset accepted
      = mset delivered + mset (map snd (inc_pending s'))"
  proof -
    have "mset (map snd (inc_pending s)) + mset accepted
        = (mset (map snd (inc_pending s)) + mset ?a) + mset a2" by (simp add: d(2))
    also have "\<dots> = mset ready + (mset (map snd (inc_pending s1)) + mset a2)" by (simp only: S(4) add.assoc)
    also have "\<dots> = mset delivered + mset (map snd (inc_pending s'))"
      using IH by (simp add: d(1))
    finally show ?thesis .
  qed
  ultimately show ?case using IH S(2) le_trans by blast
qed simp

text \<open>
  Property C14. Whatever arrives, in whatever order and with whatever repetitions, the control
  channel receives the packets with ids 1, 2, 3, \dots in this order, each exactly once; the
  packets accepted are exactly those delivered and those still waiting; no id is accepted twice;
  and what waits lies in the twelve ids after the last one delivered.
\<close>

theorem incoming_exactly_once:
  "case in_run es incoming_new of (s, delivered, accepted) \<Rightarrow>
     map (unat \<circ> pkt_id) delivered = [1 ..< Suc (unat (inc_last_consumed_id s))]
     \<and> mset accepted = mset delivered + mset (map snd (inc_pending s))
     \<and> distinct (map pkt_id accepted)
     \<and> unat ` fst ` set (inc_pending s)
         \<subseteq> {unat (inc_last_consumed_id s) <.. unat (inc_last_consumed_id s) + unat RELIABLE_RECEIVE_BUFFER_SIZE}"
proof -
  obtain s d a where r: "in_run es incoming_new = (s, d, a)" by (metis prod_cases3)
  have wf: "inc_wf incoming_new" by (simp add: inc_wf_def incoming_new_def)
  note S = in_run_spec [OF wf r]
  from S have "map in_key (admitted in_accept es incoming_new) = map pkt_id a"
    by (metis (no_types, lifting) comp_apply in_key.simps(1) list.map_comp list.map_cong0)
  with receive_window.admitted_once [OF wf, of es] have "distinct (map pkt_id a)" by simp
  moreover have "mset a = mset d + mset (map snd (inc_pending s))"
    using S by (simp add: incoming_new_def)
  moreover have "map (unat \<circ> pkt_id) d = [1 ..< Suc (unat (inc_last_consumed_id s))]"
    using S by (simp add: incoming_new_def del: upt_Suc)
  moreover have "unat ` fst ` set (inc_pending s)
      \<subseteq> {unat (inc_last_consumed_id s) <.. unat (inc_last_consumed_id s) + unat RELIABLE_RECEIVE_BUFFER_SIZE}"
    using S by (auto simp: inc_wf_def reliable_consts)
  ultimately show ?thesis by (simp add: r)
qed

text \<open>
  Property C35. In every reachable state a control packet is accepted exactly when its id is one
  of the twelve after the last delivered id and no packet with that id is waiting, and draining
  stops only at a gap: the next id is then missing from the window.
\<close>

theorem incoming_accepts_window:
  "case in_run es incoming_new of (s, _, _) \<Rightarrow>
     (snd (try_insert_incoming_packet p s) \<longleftrightarrow>
        unat (pkt_id p) \<in> {unat (inc_last_consumed_id s) <.. unat (inc_last_consumed_id s) + 12}
        \<and> pkt_id p \<notin> fst ` set (inc_pending s))
     \<and> (case next_ordered_sequence s of (s', _) \<Rightarrow>
          inc_last_consumed_id s' + 1 \<notin> fst ` set (inc_pending s'))"
proof -
  obtain s d a where r: "in_run es incoming_new = (s, d, a)" by (metis prod_cases3)
  have wf: "inc_wf incoming_new" by (simp add: inc_wf_def incoming_new_def)
  from in_run_spec [OF wf r] have w: "inc_wf s" by simp
  then have w': "inc_wf \<lparr>inc_pending = inc_pending s, inc_last_consumed_id = inc_last_consumed_id s\<rparr>"
    by (cases s) simp
  obtain m l q where d: "drain_ordered (inc_pending s) (inc_last_consumed_id s) = (m, l, q)"
    by (metis prod_cases3)
  from drain_ordered_spec [OF w' d] w show ?thesis
    by (auto simp: r d try_insert_cases next_ordered_sequence_def word_less_nat_alt)
qed

end
