(* ===== verification/Ovpn_Replay.thy ===== *)
theory Ovpn_Replay
  imports Zay_Prelude
begin

text \<open>
  Packet-id replay protection (\<open>protocol/openvpn/replay.rs\<close>): the sliding bitmap of 64-bit words,
  the arrival times that expire backtracking, and the timestamp epochs of the long packet-id
  form. \<open>Instant::now()\<close> is the argument \<open>now\<close> of the operations, as in the code's \<open>_at\<close> variants.
\<close>

record replay_window =
  rw_window_size :: u32
  rw_time_window :: duration

record replay_inner =
  ri_initialized :: bool
  ri_highest_id :: u32
  ri_highest_timestamp :: u32
  ri_bitmap :: "u64 list"
  ri_arrival_times :: "instant option list"
  ri_minimum_id :: u32

definition replay_new :: "replay_window \<Rightarrow> replay_inner" where
  "replay_new W = \<lparr>ri_initialized = False, ri_highest_id = 0, ri_highest_timestamp = 0,
     ri_bitmap = replicate ((unat (rw_window_size W) + 63) div 64) 0,
     ri_arrival_times = replicate (unat (rw_window_size W)) None, ri_minimum_id = 0\<rparr>"

definition shift_bitmap_word :: "nat \<Rightarrow> nat \<Rightarrow> u64 list \<Rightarrow> nat \<Rightarrow> u64" where
  "shift_bitmap_word word_shift bit_shift bitmap target =
     (if target < word_shift then 0
      else let source = target - word_shift;
               value = push_bit bit_shift (bitmap ! source)
           in if bit_shift > 0 \<and> source > 0
              then value OR drop_bit (64 - bit_shift) (bitmap ! (source - 1))
              else value)"

definition shift_bitmap :: "u64 list \<Rightarrow> u32 \<Rightarrow> u64 list" where
  "shift_bitmap bitmap shift =
     (let word_shift = unat shift div 64; bit_shift = unat shift mod 64
      in foldl (\<lambda>bm target. bm[target := shift_bitmap_word word_shift bit_shift bm target])
           bitmap (rev [0 ..< length bitmap]))"

definition shift_times :: "instant option list \<Rightarrow> u32 \<Rightarrow> instant option list" where
  "shift_times arrivals shift =
     (let n = unat shift
      in if n = 0 \<or> arrivals = [] then arrivals
         else if n \<ge> length arrivals then replicate (length arrivals) None
         else replicate n None @ take (length arrivals - n) arrivals)"

definition initialize :: "replay_window \<Rightarrow> u32 \<Rightarrow> u32 \<Rightarrow> instant \<Rightarrow> replay_inner \<Rightarrow> replay_inner" where
  "initialize W packet_id timestamp now s =
     (let bm = replicate (length (ri_bitmap s)) 0; ts = replicate (length (ri_arrival_times s)) None
      in s\<lparr>ri_initialized := True, ri_highest_timestamp := timestamp, ri_highest_id := packet_id,
           ri_minimum_id := 0,
           ri_bitmap := (if rw_window_size W > 0 then bm[0 := 1] else bm),
           ri_arrival_times := (if rw_window_size W > 0 then ts[0 := Some now] else ts)\<rparr>)"

definition expired :: "replay_window \<Rightarrow> instant \<Rightarrow> instant option \<Rightarrow> bool" where
  "expired W now arrival \<longleftrightarrow> (case arrival of None \<Rightarrow> False | Some t \<Rightarrow> now - t > rw_time_window W)"

fun first_expired :: "replay_window \<Rightarrow> instant \<Rightarrow> nat \<Rightarrow> instant option list \<Rightarrow> nat option" where
  "first_expired W now offset [] = None"
| "first_expired W now offset (arrival # arrivals) =
     (if expired W now arrival then Some offset else first_expired W now (Suc offset) arrivals)"

definition reap :: "replay_window \<Rightarrow> instant \<Rightarrow> replay_inner \<Rightarrow> replay_inner" where
  "reap W now s =
     (if rw_time_window W = 0 then s
      else case first_expired W now 0 (ri_arrival_times s) of
             None \<Rightarrow> s
           | Some offset \<Rightarrow>
               s\<lparr>ri_minimum_id := max (ri_minimum_id s) (ri_highest_id s - of_nat offset + 1)\<rparr>)"

definition accept_locked :: "replay_window \<Rightarrow> u32 \<Rightarrow> instant \<Rightarrow> replay_inner \<Rightarrow> replay_inner \<times> bool" where
  "accept_locked W packet_id now s0 =
     (if \<not> ri_initialized s0 then (initialize W packet_id 0 now s0, True)
      else if rw_window_size W = 0 then
        (if packet_id \<noteq> ri_highest_id s0 + 1 then (s0, False)
         else (s0\<lparr>ri_highest_id := packet_id\<rparr>, True))
      else let s = reap W now s0 in
        if packet_id > ri_highest_id s then
          let shift = packet_id - ri_highest_id s;
              bm = (if shift \<ge> rw_window_size W then replicate (length (ri_bitmap s)) 0
                    else shift_bitmap (ri_bitmap s) shift);
              ts = (if shift \<ge> rw_window_size W then replicate (length (ri_arrival_times s)) None
                    else shift_times (ri_arrival_times s) shift)
          in (s\<lparr>ri_bitmap := bm[0 := bm ! 0 OR 1], ri_arrival_times := ts[0 := Some now],
                ri_highest_id := packet_id\<rparr>, True)
        else if packet_id < ri_minimum_id s then (s, False)
        else let offset = ri_highest_id s - packet_id in
          if offset \<ge> rw_window_size W then (s, False)
          else let w = unat offset div 64; mask = push_bit (unat offset mod 64) (1 :: u64) in
            if (ri_bitmap s ! w) AND mask \<noteq> 0 then (s, False)
            else (s\<lparr>ri_bitmap := (ri_bitmap s)[w := (ri_bitmap s ! w) OR mask],
                    ri_arrival_times := (ri_arrival_times s)[unat offset := Some now]\<rparr>, True))"

definition accept_at :: "replay_window \<Rightarrow> u32 \<Rightarrow> instant \<Rightarrow> replay_inner \<Rightarrow> replay_inner \<times> bool" where
  "accept_at W packet_id now s =
     (if packet_id = 0 then (s, False) else accept_locked W packet_id now s)"

definition accept_long_form_at ::
  "replay_window \<Rightarrow> u32 \<Rightarrow> u32 \<Rightarrow> instant \<Rightarrow> replay_inner \<Rightarrow> replay_inner \<times> bool" where
  "accept_long_form_at W packet_id timestamp now s =
     (if packet_id = 0 then (s, False)
      else if \<not> ri_initialized s then
        (if rw_window_size W = 0 \<and> timestamp > 0 \<and> packet_id \<noteq> 1 then (s, False)
         else (initialize W packet_id timestamp now s, True))
      else if timestamp < ri_highest_timestamp s then (s, False)
      else if timestamp > ri_highest_timestamp s then
        (if rw_window_size W = 0 \<and> packet_id \<noteq> 1 then (s, False)
         else (initialize W packet_id timestamp now s, True))
      else accept_locked W packet_id now s)"

subsection \<open>The bitmap shift\<close>

definition bit_at :: "u64 list \<Rightarrow> nat \<Rightarrow> bool" where
  "bit_at bm i = bit (bm ! (i div 64)) (i mod 64)"

lemma shift_bitmap_word_cong:
  "(\<And>i. i \<le> t \<Longrightarrow> bm ! i = bm' ! i) \<Longrightarrow> shift_bitmap_word ws bs bm t = shift_bitmap_word ws bs bm' t"
  by (simp add: shift_bitmap_word_def Let_def)

lemma shift_loop:
  "n \<le> length bm \<Longrightarrow> t < length bm \<Longrightarrow>
   foldl (\<lambda>bm t. bm[t := shift_bitmap_word ws bs bm t]) bm (rev [0 ..< n]) ! t
     = (if t < n then shift_bitmap_word ws bs bm t else bm ! t)"
proof (induction n arbitrary: bm)
  case (Suc n)
  let ?bm = "bm[n := shift_bitmap_word ws bs bm n]"
  have "t < n \<Longrightarrow> shift_bitmap_word ws bs ?bm t = shift_bitmap_word ws bs bm t"
    by (rule shift_bitmap_word_cong) simp
  then show ?case using Suc.prems Suc.IH [of ?bm] by (auto simp: less_Suc_eq)
qed simp

lemma length_shift_loop:
  "length (foldl (\<lambda>bm t. bm[t := shift_bitmap_word ws bs bm t]) bm ts) = length bm"
  by (induction ts arbitrary: bm) auto

lemma length_shift_bitmap [simp]: "length (shift_bitmap bm s) = length bm"
  by (simp add: shift_bitmap_def Let_def length_shift_loop)

lemma nth_shift_bitmap:
  "t < length bm \<Longrightarrow> shift_bitmap bm s ! t = shift_bitmap_word (unat s div 64) (unat s mod 64) bm t"
  by (simp add: shift_bitmap_def Let_def shift_loop)

lemma shift_bitmap_bit:
  assumes "i < 64 * length bm"
  shows "bit_at (shift_bitmap bm s) i \<longleftrightarrow> unat s \<le> i \<and> bit_at bm (i - unat s)"
proof -
  define ws bs t j where "ws = unat s div 64" and "bs = unat s mod 64" and "t = i div 64" and "j = i mod 64"
  have s: "unat s = 64 * ws + bs" "bs < 64" and i: "i = 64 * t + j" "j < 64"
    by (simp_all add: ws_def bs_def t_def j_def)
  have t: "t < length bm" using assms i by simp
  have "bit_at (shift_bitmap bm s) i = bit (shift_bitmap_word ws bs bm t) j"
    using nth_shift_bitmap [OF t, of s] by (simp add: bit_at_def t_def j_def ws_def bs_def)
  also have "\<dots> \<longleftrightarrow> unat s \<le> i \<and> bit_at bm (i - unat s)"
  proof (cases "t < ws")
    case True
    then have "i < unat s" using s i by linarith
    with True show ?thesis by (simp add: shift_bitmap_word_def)
  next
    case False
    show ?thesis
    proof (cases "bs \<le> j")
      case True
      have "i - unat s = 64 * (t - ws) + (j - bs)" using s i False True by (simp add: algebra_simps)
      then have "(i - unat s) div 64 = t - ws" "(i - unat s) mod 64 = j - bs" using i by simp_all
      moreover have "\<not> bit (drop_bit (64 - bs) w) j" for w :: u64
        using True s(2) by (auto simp: bit_simps dest: bit_imp_le_length)
      moreover have "unat s \<le> i" using s i False True by linarith
      ultimately show ?thesis using False True i(2)
        by (auto simp: shift_bitmap_word_def Let_def bit_at_def bit_simps)
    next
      case lt: False
      show ?thesis
      proof (cases "t = ws")
        case True
        then show ?thesis using s i lt by (auto simp: shift_bitmap_word_def Let_def bit_simps)
      next
        case ne: False
        have "i - unat s = 64 * (t - ws - 1) + (64 + j - bs)" using s i False ne lt by (simp add: algebra_simps)
        moreover have "64 + j - bs < 64" using lt by linarith
        ultimately have "(i - unat s) div 64 = t - ws - 1" "(i - unat s) mod 64 = 64 + j - bs" by simp_all
        moreover have "unat s \<le> i" using s i False ne by linarith
        moreover have "64 - bs + j = 64 + j - bs" using s(2) by linarith
        ultimately show ?thesis using False ne lt s(2) i(2)
          by (auto simp: shift_bitmap_word_def Let_def bit_at_def bit_simps)
      qed
    qed
  qed
  finally show ?thesis .
qed

lemma length_shift_times [simp]: "length (shift_times ts s) = length ts"
  by (auto simp: shift_times_def Let_def)

lemma nth_shift_times:
  "i < length ts \<Longrightarrow> shift_times ts s ! i = (if unat s \<le> i then ts ! (i - unat s) else None)"
  by (auto simp: shift_times_def Let_def nth_append)

subsection \<open>The bitmap tracks the arrival times\<close>

definition tracks :: "nat \<Rightarrow> nat \<Rightarrow> u64 list \<Rightarrow> instant option list \<Rightarrow> bool" where
  "tracks w h bm arr \<longleftrightarrow> w \<le> 64 * length bm \<and> length arr = w
     \<and> (\<forall>i < w. (bit_at bm i \<longleftrightarrow> arr ! i \<noteq> None) \<and> (arr ! i \<noteq> None \<longrightarrow> i < h))"

lemma bit_at_set:
  assumes "k < 64 * length bm"
  shows "bit_at (bm[k div 64 := bm ! (k div 64) OR push_bit (k mod 64) 1]) i \<longleftrightarrow> i = k \<or> bit_at bm i"
proof (cases "i div 64 = k div 64")
  case True
  have "i = k \<longleftrightarrow> i mod 64 = k mod 64" using True by (metis div_mult_mod_eq)
  moreover have "k div 64 < length bm" using assms by linarith
  moreover have "bit (push_bit (k mod 64) (1 :: u64)) (i mod 64) \<longleftrightarrow> i mod 64 = k mod 64"
    by (auto simp: bit_simps)
  ultimately show ?thesis using True by (auto simp: bit_at_def bit_or_iff)
next
  case False
  then show ?thesis by (auto simp: bit_at_def)
qed

lemma tracks_set [inv_intros]:
  assumes "tracks w h bm arr" "k < w" "k < h"
  shows "tracks w h (bm[k div 64 := bm ! (k div 64) OR push_bit (k mod 64) 1]) (arr[k := Some now])"
proof -
  have "k < 64 * length bm" using assms by (simp add: tracks_def)
  then show ?thesis using assms
    by (auto simp: tracks_def bit_at_set nth_list_update simp del: push_bit_of_1)
qed

lemma tracks_set_head [inv_intros]:
  "tracks w h bm arr \<Longrightarrow> 0 < w \<Longrightarrow> 0 < h \<Longrightarrow> tracks w h (bm[0 := bm ! 0 OR 1]) (arr[0 := Some now])"
  using tracks_set [of w h bm arr 0 now] by simp

lemma tracks_empty [inv_intros]:
  "w \<le> 64 * n \<Longrightarrow> tracks w h (replicate n 0) (replicate w None)"
  by (auto simp: tracks_def bit_at_def)

lemma tracks_shift [inv_intros]:
  assumes "tracks w h bm arr"
  shows "tracks w (h + unat s) (shift_bitmap bm s) (shift_times arr s)"
  unfolding tracks_def
proof (intro conjI allI impI)
  fix i assume i: "i < w"
  then have b: "i < 64 * length bm" and a: "i < length arr" using assms by (simp_all add: tracks_def)
  show "bit_at (shift_bitmap bm s) i \<longleftrightarrow> shift_times arr s ! i \<noteq> None"
    using assms i by (simp add: shift_bitmap_bit [OF b] nth_shift_times [OF a] tracks_def)
  assume "shift_times arr s ! i \<noteq> None"
  then have "unat s \<le> i" "arr ! (i - unat s) \<noteq> None"
    by (auto simp: nth_shift_times [OF a] split: if_splits)
  moreover from this i assms have "i - unat s < h" by (simp add: tracks_def)
  ultimately show "i < h + unat s" by linarith
qed (use assms in \<open>auto simp: tracks_def\<close>)

definition replay_wf :: "replay_window \<Rightarrow> replay_inner \<Rightarrow> bool" where
  "replay_wf W s \<longleftrightarrow>
     unat (rw_window_size W) \<le> 64 * length (ri_bitmap s)
     \<and> length (ri_arrival_times s) = unat (rw_window_size W)
     \<and> (ri_initialized s \<longrightarrow> ri_highest_id s \<noteq> 0
          \<and> tracks (unat (rw_window_size W)) (unat (ri_highest_id s)) (ri_bitmap s) (ri_arrival_times s))"

lemma replay_wf_new [inv_intros]: "replay_wf W (replay_new W)"
  by (simp add: replay_wf_def replay_new_def)

lemma replay_wf_initialize [inv_intros]:
  assumes "replay_wf W s" "i \<noteq> 0"
  shows "replay_wf W (initialize W i ts now s)"
proof -
  let ?w = "unat (rw_window_size W)"
  have e: "tracks ?w (unat i) (replicate (length (ri_bitmap s)) 0) (replicate ?w None)"
    using assms(1) by (intro tracks_empty) (simp add: replay_wf_def)
  have "0 < ?w \<Longrightarrow> tracks ?w (unat i) ((replicate (length (ri_bitmap s)) 0)[0 := 1])
      ((replicate ?w None)[0 := Some now])"
    using tracks_set_head [OF e, of now] assms unat_gt_0 [of i]
    by (cases "length (ri_bitmap s)") (auto simp: replay_wf_def)
  with e assms show ?thesis
    by (auto simp: replay_wf_def initialize_def Let_def word_less_nat_alt tracks_def)
qed

lemma reap_fields [simp]:
  "ri_initialized (reap W now s) = ri_initialized s" "ri_highest_id (reap W now s) = ri_highest_id s"
  "ri_highest_timestamp (reap W now s) = ri_highest_timestamp s"
  "ri_bitmap (reap W now s) = ri_bitmap s" "ri_arrival_times (reap W now s) = ri_arrival_times s"
  "ri_minimum_id s \<le> ri_minimum_id (reap W now s)"
  by (auto simp: reap_def split: option.splits)

lemma replay_wf_reap [inv_intros]: "replay_wf W s \<Longrightarrow> replay_wf W (reap W now s)"
  by (simp add: replay_wf_def)

lemma replay_wf_accept_locked [inv_intros]:
  assumes "replay_wf W s" "i \<noteq> 0"
  shows "replay_wf W (fst (accept_locked W i now s))"
proof (cases "ri_initialized s \<and> rw_window_size W \<noteq> 0")
  case True
  let ?w = "unat (rw_window_size W)" and ?h = "ri_highest_id s"
  have h: "?h \<noteq> 0" and t: "tracks ?w (unat ?h) (ri_bitmap s) (ri_arrival_times s)" and w: "0 < ?w"
    and len: "?w \<le> 64 * length (ri_bitmap s)" "length (ri_arrival_times s) = ?w"
    using assms True by (auto simp: replay_wf_def unat_gt_0)
  have i: "0 < unat i" using assms(2) by (simp add: unat_gt_0)
  consider "i > ?h" | "i \<le> ?h" by fastforce
  then show ?thesis
  proof cases
    case 1
    then have sum: "unat ?h + unat (i - ?h) = unat i"
      using unat_sub [of ?h i] by (simp add: word_less_nat_alt word_le_nat_alt)
    have "tracks ?w (unat i) (shift_bitmap (ri_bitmap s) (i - ?h)) (shift_times (ri_arrival_times s) (i - ?h))"
      using tracks_shift [OF t, of "i - ?h"] sum by simp
    moreover have "tracks ?w (unat i) (replicate (length (ri_bitmap s)) 0) (replicate (length (ri_arrival_times s)) None)"
      using len tracks_empty by simp
    ultimately show ?thesis
      using assms True 1 len tracks_set_head [OF _ w i]
      by (auto simp: accept_locked_def replay_wf_def Let_def)
  next
    case 2
    then have o: "unat (?h - i) = unat ?h - unat i" by (simp add: unat_sub)
    then have "unat (?h - i) < unat ?h" using i h by (simp add: unat_gt_0)
    moreover have "\<not> rw_window_size W \<le> ?h - i \<Longrightarrow> unat (?h - i) < ?w"
      by (simp add: not_le word_less_nat_alt)
    moreover have "\<not> i > ?h" using 2 by simp
    ultimately show ?thesis
      using assms True len t tracks_set [OF t, of "unat (?h - i)" now]
      by (simp add: accept_locked_def replay_wf_def Let_def)
  qed
next
  case False
  with assms show ?thesis
    by (auto simp: accept_locked_def replay_wf_initialize) (auto simp: replay_wf_def tracks_def)
qed

subsection \<open>No packet id is accepted twice\<close>

definition arrival :: "replay_window \<Rightarrow> replay_inner \<Rightarrow> u32 \<Rightarrow> instant option" where
  "arrival W s i =
     (if i \<le> ri_highest_id s \<and> unat (ri_highest_id s) - unat i < unat (rw_window_size W)
      then ri_arrival_times s ! (unat (ri_highest_id s) - unat i) else None)"

definition replay_blocked :: "replay_window \<Rightarrow> replay_inner \<Rightarrow> u32 set" where
  "replay_blocked W s = {i. i = 0 \<or> ri_initialized s \<and> i \<le> ri_highest_id s
     \<and> (unat (rw_window_size W) \<le> unat (ri_highest_id s) - unat i \<or> i < ri_minimum_id s
        \<or> arrival W s i \<noteq> None)}"

lemma accept_locked_old:
  assumes "replay_wf W s" "ri_initialized s" "rw_window_size W \<noteq> 0" "i \<le> ri_highest_id s"
  shows "accept_locked W i now s =
    (if i < ri_minimum_id (reap W now s) \<or> unat (rw_window_size W) \<le> unat (ri_highest_id s) - unat i
        \<or> arrival W s i \<noteq> None
     then (reap W now s, False)
     else let k = unat (ri_highest_id s) - unat i in
       ((reap W now s)\<lparr>ri_bitmap := (ri_bitmap s)[k div 64 := ri_bitmap s ! (k div 64) OR push_bit (k mod 64) 1],
          ri_arrival_times := (ri_arrival_times s)[k := Some now]\<rparr>, True))"
proof -
  let ?k = "unat (ri_highest_id s) - unat i"
  have k: "unat (ri_highest_id s - i) = ?k" using assms(4) by (simp add: unat_sub)
  have "?k < unat (rw_window_size W) \<Longrightarrow>
      (ri_bitmap s ! (?k div 64)) AND push_bit (?k mod 64) 1 \<noteq> 0 \<longleftrightarrow> arrival W s i \<noteq> None"
    using assms by (simp add: replay_wf_def tracks_def arrival_def bit_at_def and_exp_eq_0_iff_not_bit)
  moreover have "rw_window_size W \<le> ri_highest_id s - i \<longleftrightarrow> unat (rw_window_size W) \<le> ?k"
    by (simp add: word_le_nat_alt k)
  moreover have "\<not> i > ri_highest_id s" using assms(4) by simp
  ultimately show ?thesis using assms(2,3)
    by (auto simp: accept_locked_def Let_def k simp del: push_bit_of_1)
qed

lemma accept_locked_new:
  assumes "ri_initialized s" "rw_window_size W \<noteq> 0" "ri_highest_id s < i" "replay_wf W s"
    "accept_locked W i now s = (s', b)"
  shows "b" "ri_initialized s'" "ri_highest_id s' = i" "ri_highest_timestamp s' = ri_highest_timestamp s"
    "ri_minimum_id s \<le> ri_minimum_id s'"
    "arrival W s' i = Some now"
    "\<And>j. j \<le> ri_highest_id s \<Longrightarrow> unat i - unat j < unat (rw_window_size W)
        \<Longrightarrow> arrival W s' j = arrival W s j"
proof -
  let ?d = "i - ri_highest_id s"
  have d: "unat ?d = unat i - unat (ri_highest_id s)" using assms(3) by (simp add: unat_sub less_imp_le)
  have len: "length (ri_arrival_times s) = unat (rw_window_size W)" using assms(4) by (simp add: replay_wf_def)
  show "b" "ri_initialized s'" "ri_highest_id s' = i" "ri_highest_timestamp s' = ri_highest_timestamp s"
    "ri_minimum_id s \<le> ri_minimum_id s'"
    using assms(1,2,3,5) by (auto simp: accept_locked_def Let_def)
  have arr: "ri_arrival_times s' =
      (if ?d \<ge> rw_window_size W then replicate (length (ri_arrival_times s)) None
       else shift_times (ri_arrival_times s) ?d)[0 := Some now]"
    using assms(1,2,3,5) by (auto simp: accept_locked_def Let_def)
  have "0 < unat (rw_window_size W)" using assms(2) by (simp add: unat_gt_0)
  then show "arrival W s' i = Some now"
    using \<open>ri_highest_id s' = i\<close> len by (simp add: arrival_def arr)
  show "arrival W s' j = arrival W s j"
    if j: "j \<le> ri_highest_id s" and w: "unat i - unat j < unat (rw_window_size W)" for j
  proof -
    have u: "unat j \<le> unat (ri_highest_id s)" "unat (ri_highest_id s) < unat i"
      using j assms(3) by (simp_all add: word_le_nat_alt word_less_nat_alt)
    then have "unat ?d < unat (rw_window_size W)" using w d by linarith
    then have "\<not> ?d \<ge> rw_window_size W" by (simp add: word_le_nat_alt)
    moreover have "unat i - unat j - unat ?d = unat (ri_highest_id s) - unat j" "unat ?d \<le> unat i - unat j"
      "unat i - unat j \<noteq> 0" "unat (ri_highest_id s) - unat j < unat (rw_window_size W)"
      using u d w by linarith+
    moreover have "j \<le> i" using j assms(3) by simp
    ultimately show ?thesis
      using w len u \<open>ri_highest_id s' = i\<close> j by (simp add: arrival_def arr nth_shift_times)
  qed
qed

lemma initialize_fields [simp]:
  "ri_initialized (initialize W i ts now s)" "ri_highest_id (initialize W i ts now s) = i"
  "ri_highest_timestamp (initialize W i ts now s) = ts" "ri_minimum_id (initialize W i ts now s) = 0"
  by (simp_all add: initialize_def Let_def)

lemma initialize_blocks: "replay_wf W s \<Longrightarrow> i \<in> replay_blocked W (initialize W i ts now s)"
  by (auto simp: replay_blocked_def arrival_def replay_wf_def initialize_def Let_def unat_gt_0 word_gt_0)

lemma blocked_reap: "replay_blocked W s \<subseteq> replay_blocked W (reap W now s)"
  using reap_fields(6) [of s W now]
  by (auto simp: replay_blocked_def arrival_def simp del: reap_fields(6))

lemma blocked_mark:
  "replay_blocked W s \<subseteq> replay_blocked W (s\<lparr>ri_bitmap := bm, ri_arrival_times := (ri_arrival_times s)[k := Some now]\<rparr>)"
proof -
  have "ri_arrival_times s ! n \<noteq> None \<Longrightarrow> (ri_arrival_times s)[k := Some now] ! n \<noteq> None" for n
    by (cases "k < length (ri_arrival_times s)") (auto simp: nth_list_update not_less list_update_beyond)
  then show ?thesis by (auto simp: replay_blocked_def arrival_def split: if_splits)
qed

lemma accept_locked_blocked:
  assumes wf: "replay_wf W s" and i: "i \<noteq> 0" and a: "accept_locked W i now s = (s', b)"
  shows "replay_blocked W s \<subseteq> replay_blocked W s' \<and> (b \<longrightarrow> i \<notin> replay_blocked W s \<and> i \<in> replay_blocked W s')
    \<and> (ri_initialized s \<longrightarrow> ri_highest_timestamp s' = ri_highest_timestamp s \<and> ri_initialized s')"
proof -
  consider (fresh) "\<not> ri_initialized s"
    | (strict) "ri_initialized s" "rw_window_size W = 0"
    | (new) "ri_initialized s" "rw_window_size W \<noteq> 0" "ri_highest_id s < i"
    | (old) "ri_initialized s" "rw_window_size W \<noteq> 0" "i \<le> ri_highest_id s"
    by fastforce
  then show ?thesis
  proof cases
    case fresh
    then have s': "s' = initialize W i 0 now s" "b" using a by (auto simp: accept_locked_def)
    have "replay_blocked W s = {0}" using fresh by (auto simp: replay_blocked_def)
    moreover have "0 \<in> replay_blocked W s'" by (simp add: replay_blocked_def)
    ultimately show ?thesis using fresh i s' initialize_blocks [OF wf] by simp
  next
    case strict
    show ?thesis
    proof (cases "i = ri_highest_id s + 1")
      case True
      with i have "ri_highest_id s \<noteq> - 1" by auto
      then have "ri_highest_id s < i" by (simp add: True word_less_nat_alt unat_succ)
      then show ?thesis using strict a True i
        by (auto simp: accept_locked_def replay_blocked_def)
    qed (use strict a in \<open>auto simp: accept_locked_def\<close>)
  next
    case new
    note N = accept_locked_new [OF new wf a]
    have "j \<in> replay_blocked W s'" if "j \<in> replay_blocked W s" "j \<noteq> 0" for j
    proof -
      have j: "j \<le> ri_highest_id s" using that by (simp add: replay_blocked_def)
      then have "unat (ri_highest_id s) - unat j \<le> unat i - unat j"
        using new(3) by (simp add: word_less_nat_alt diff_le_mono)
      moreover have "j \<le> i" using j new(3) by simp
      moreover have "j < ri_minimum_id s \<Longrightarrow> j < ri_minimum_id s'" using N(5) by simp
      moreover have "arrival W s' j \<noteq> None \<or> unat (rw_window_size W) \<le> unat i - unat j"
        if "arrival W s j \<noteq> None" using that N(7) [OF j] by (metis not_le)
      ultimately show ?thesis using that(1) N(2,3) by (simp add: replay_blocked_def) (metis le_trans)
    qed
    then have "replay_blocked W s \<subseteq> replay_blocked W s'" by (auto simp: replay_blocked_def [of W s'])
    moreover have "i \<notin> replay_blocked W s" using new(3) i by (auto simp: replay_blocked_def)
    ultimately show ?thesis using N by (simp add: replay_blocked_def)
  next
    case old
    let ?k = "unat (ri_highest_id s) - unat i"
    have len: "length (ri_arrival_times s) = unat (rw_window_size W)" using wf by (simp add: replay_wf_def)
    show ?thesis
    proof (cases b)
      case False
      then have "s' = reap W now s" using a accept_locked_old [OF wf old, of now]
        by (auto simp: Let_def split: if_splits)
      then show ?thesis using False blocked_reap old by simp
    next
      case True
      have s': "s' = (reap W now s)\<lparr>ri_bitmap := (ri_bitmap s)[?k div 64 := ri_bitmap s ! (?k div 64) OR push_bit (?k mod 64) 1],
          ri_arrival_times := (ri_arrival_times (reap W now s))[?k := Some now]\<rparr>"
        and c: "\<not> i < ri_minimum_id (reap W now s)" "?k < unat (rw_window_size W)" "arrival W s i = None"
        using True a accept_locked_old [OF wf old, of now]
        by (auto simp: Let_def not_le simp del: push_bit_of_1 split: if_splits)
      have "arrival W s' i = Some now" using c(2) len old(3) by (simp add: s' arrival_def)
      then have "i \<in> replay_blocked W s'" using old by (simp add: replay_blocked_def s' del: push_bit_of_1)
      moreover have "i \<notin> replay_blocked W s"
        using c i reap_fields(6) [of s W now] by (auto simp: replay_blocked_def simp del: reap_fields(6))
      moreover have "replay_blocked W s \<subseteq> replay_blocked W s'"
        unfolding s' by (rule order.trans [OF blocked_reap blocked_mark])
      ultimately show ?thesis using True old by (simp add: s' del: push_bit_of_1)
    qed
  qed
qed

definition short_form :: "replay_window \<Rightarrow> u32 \<times> instant \<Rightarrow> replay_inner \<Rightarrow> replay_inner \<times> bool" where
  "short_form W e s = accept_at W (fst e) (snd e) s"

definition long_form :: "replay_window \<Rightarrow> (u32 \<times> u32) \<times> instant \<Rightarrow> replay_inner \<Rightarrow> replay_inner \<times> bool" where
  "long_form W e s = accept_long_form_at W (snd (fst e)) (fst (fst e)) (snd e) s"

definition long_blocked :: "replay_window \<Rightarrow> replay_inner \<Rightarrow> (u32 \<times> u32) set" where
  "long_blocked W s = {(ts, i). i = 0 \<or> ri_initialized s
     \<and> (ts < ri_highest_timestamp s \<or> ts = ri_highest_timestamp s \<and> i \<in> replay_blocked W s)}"

lemma replay_wf_accept_at [inv_intros]: "replay_wf W s \<Longrightarrow> replay_wf W (fst (accept_at W i now s))"
  by (simp add: accept_at_def replay_wf_accept_locked)

lemma replay_wf_long [inv_intros]: "replay_wf W s \<Longrightarrow> replay_wf W (fst (accept_long_form_at W i ts now s))"
  by (simp add: accept_long_form_at_def replay_wf_accept_locked replay_wf_initialize)

lemma long_form_blocked:
  assumes wf: "replay_wf W s" and a: "accept_long_form_at W i ts now s = (s', b)"
  shows "long_blocked W s \<subseteq> long_blocked W s' \<and> (b \<longrightarrow> (ts, i) \<notin> long_blocked W s \<and> (ts, i) \<in> long_blocked W s')"
proof -
  consider (same) "s' = s" "\<not> b"
    | (init) "i \<noteq> 0" "s' = initialize W i ts now s" "ri_initialized s \<longrightarrow> ri_highest_timestamp s < ts"
    | (lock) "i \<noteq> 0" "ri_initialized s" "ts = ri_highest_timestamp s" "accept_locked W i now s = (s', b)"
    using a by (auto simp: accept_long_form_at_def split: if_splits)
  then show ?thesis
  proof cases
    case init
    then have "(ts, i) \<in> long_blocked W s'" using initialize_blocks [OF wf] by (simp add: long_blocked_def)
    moreover have "long_blocked W s \<subseteq> long_blocked W s'" using init by (auto simp: long_blocked_def)
    moreover have "(ts, i) \<notin> long_blocked W s" using init by (auto simp: long_blocked_def)
    ultimately show ?thesis by simp
  next
    case lock
    from accept_locked_blocked [OF wf lock(1,4)] lock show ?thesis
      by (auto simp: long_blocked_def)
  qed simp
qed

interpretation short_window: admission_filter "short_form W" fst "replay_blocked W" "replay_wf W" for W
proof
  fix s e s' b
  assume wf: "replay_wf W s"
  have key: "accept_locked W (fst e) (snd e) s = (s', b) \<and> fst e \<noteq> 0 \<or> s' = s \<and> \<not> b"
    if "short_form W e s = (s', b)" for b
    using that by (auto simp: short_form_def accept_at_def split: if_splits)
  show "replay_wf W s'" "replay_blocked W s \<subseteq> replay_blocked W s'" if "short_form W e s = (s', b)"
    using that wf replay_wf_accept_at [OF wf, of "fst e" "snd e"] key [OF that]
      accept_locked_blocked [OF wf, of "fst e" "snd e" s' b]
    by (auto simp: short_form_def)
  show "fst e \<notin> replay_blocked W s" "fst e \<in> replay_blocked W s'" if "short_form W e s = (s', True)"
    using key [OF that] accept_locked_blocked [OF wf, of "fst e" "snd e" s' True] by auto
qed

interpretation long_window: admission_filter "long_form W" fst "long_blocked W" "replay_wf W" for W
proof
  fix s e s' b
  assume wf: "replay_wf W s"
  show "replay_wf W s'" "long_blocked W s \<subseteq> long_blocked W s'" if "long_form W e s = (s', b)"
    using that replay_wf_long [OF wf, of "snd (fst e)" "fst (fst e)" "snd e"] long_form_blocked [OF wf]
    by (auto simp: long_form_def)
  show "fst e \<notin> long_blocked W s" "fst e \<in> long_blocked W s'" if "long_form W e s = (s', True)"
    using that long_form_blocked [OF wf, of "snd (fst e)" "fst (fst e)" "snd e" s' True]
    by (auto simp: long_form_def)
qed

text \<open>
  Property C4. A replay window of any size and time limit accepts no packet id twice, and none of
  the pairs of timestamp and id of the long form, whatever the order, spacing and arrival times of
  the packets offered to it.
\<close>

theorem replay_accepts_once:
  "distinct (map fst (admitted (short_form W) es (replay_new W)))
   \<and> distinct (map fst (admitted (long_form W) fs (replay_new W)))"
  using short_window.admitted_once [OF replay_wf_new] long_window.admitted_once [OF replay_wf_new] by blast

subsection \<open>Exactly which packets are accepted\<close>






end
