(* ===== verification/Ovpn_Fragment.thy ===== *)
theory Ovpn_Fragment
  imports Zay_Prelude "HOL-Library.Multiset"
begin

text \<open>
  OpenVPN \<open>--fragment\<close> framing and bounded reassembly (\<open>protocol/openvpn/fragment.rs\<close>). Byte counts
  (\<open>usize\<close>) are natural numbers. The map of reassembly buffers is iterated by the code, so it is an
  association list in hash order; the event \<open>FragRehash\<close> lets that order change arbitrarily. The
  parts of a buffer are only looked up, hence a map.
\<close>

definition TYPE_WHOLE :: u32 where "TYPE_WHOLE = 0"
definition TYPE_PARTIAL :: u32 where "TYPE_PARTIAL = 1"
definition TYPE_LAST :: u32 where "TYPE_LAST = 2"
definition FRAGMENT_MAX_PARTS :: nat where "FRAGMENT_MAX_PARTS = 32"
definition FRAGMENT_RECEIVE_WINDOW :: int where "FRAGMENT_RECEIVE_WINDOW = 25"
definition FRAGMENT_REASSEMBLY_TIMEOUT :: duration where "FRAGMENT_REASSEMBLY_TIMEOUT = secs 30"
definition FRAGMENT_REASSEMBLY_MAX_BYTES :: nat where "FRAGMENT_REASSEMBLY_MAX_BYTES = 4 * 2 ^ 20"
definition FRAGMENT_REASSEMBLY_MAX_PACKET_BYTES :: nat where "FRAGMENT_REASSEMBLY_MAX_PACKET_BYTES = 65535"

lemmas fragment_consts = TYPE_WHOLE_def TYPE_PARTIAL_def TYPE_LAST_def FRAGMENT_MAX_PARTS_def
  FRAGMENT_RECEIVE_WINDOW_def FRAGMENT_REASSEMBLY_TIMEOUT_def FRAGMENT_REASSEMBLY_MAX_BYTES_def
  FRAGMENT_REASSEMBLY_MAX_PACKET_BYTES_def

datatype fragment_error =
  PacketSizeTooSmall | TooManyFragments | HeaderNotFound | SpuriousFlags | UnknownType u8
| PacketTooLarge | MemoryLimit

record incoming_buffer =
  ib_max_size :: nat
  ib_last_id :: "nat option"
  ib_parts :: "nat \<rightharpoonup> bytes"
  ib_bytes :: nat
  ib_updated :: instant

record fragment_inner =
  fi_outgoing_sequence :: u8
  fi_incoming_sequence :: "u8 option"
  fi_incoming :: "(u8 \<times> incoming_buffer) list"
  fi_incoming_bytes :: nat

record fragment_codec =
  fc_reassembly_timeout :: duration
  fc_reassembly_max_bytes :: nat
  fc_reassembly_max_packet_bytes :: nat

definition fragment_inner_default :: fragment_inner where
  "fragment_inner_default = \<lparr>fi_outgoing_sequence = 0, fi_incoming_sequence = None, fi_incoming = [],
     fi_incoming_bytes = 0\<rparr>"

definition fragment_codec_new :: fragment_codec where
  "fragment_codec_new = \<lparr>fc_reassembly_timeout = FRAGMENT_REASSEMBLY_TIMEOUT,
     fc_reassembly_max_bytes = FRAGMENT_REASSEMBLY_MAX_BYTES,
     fc_reassembly_max_packet_bytes = FRAGMENT_REASSEMBLY_MAX_PACKET_BYTES\<rparr>"

definition frame :: "bytes \<Rightarrow> u32 \<Rightarrow> u8 \<Rightarrow> u8 \<Rightarrow> nat \<Rightarrow> bytes" where
  "frame payload kind sequence i maximum_size =
     (let flags = (kind AND 3) OR push_bit 2 (ucast sequence AND 0xff) OR push_bit 10 (ucast i AND 0x1f);
          flags = (if kind = TYPE_LAST then flags OR push_bit 15 (of_nat maximum_size AND 0x3fff) else flags)
      in be32 flags @ payload)"

fun chunks :: "nat \<Rightarrow> bytes \<Rightarrow> bytes list" where
  "chunks n xs = (if n = 0 \<or> xs = [] then [] else take n xs # chunks n (drop n xs))"

declare chunks.simps [simp del]

fun encode_chunks :: "u8 \<Rightarrow> nat \<Rightarrow> nat \<Rightarrow> nat \<Rightarrow> bytes list \<Rightarrow> fragment_error + bytes list" where
  "encode_chunks sequence fragment_size len i [] = Inr []"
| "encode_chunks sequence fragment_size len i (chunk # rest) =
     (if i \<ge> FRAGMENT_MAX_PARTS then Inl TooManyFragments
      else let lst = (i + 1) * fragment_size \<ge> len;
               f = frame chunk (if lst then TYPE_LAST else TYPE_PARTIAL) sequence (of_nat i)
                     (if lst then fragment_size div 4 else 0)
           in case encode_chunks sequence fragment_size len (i + 1) rest of
                Inl e \<Rightarrow> Inl e
              | Inr fs \<Rightarrow> Inr (f # fs))"

definition fragment_encode :: "bytes \<Rightarrow> nat \<Rightarrow> fragment_inner \<Rightarrow> fragment_inner \<times> (fragment_error + bytes list)" where
  "fragment_encode payload requested s =
     (let fragment_size = requested div 4 * 4
      in if fragment_size = 0 then (s, Inl PacketSizeTooSmall)
         else if length payload \<le> fragment_size then (s, Inr [frame payload TYPE_WHOLE 0 0 0])
         else (s\<lparr>fi_outgoing_sequence := fi_outgoing_sequence s + 1\<rparr>,
               encode_chunks (fi_outgoing_sequence s) fragment_size (length payload) 0
                 (chunks fragment_size payload)))"

definition sequence_difference :: "u8 \<Rightarrow> u8 \<Rightarrow> int" where
  "sequence_difference sequence reference =
     (let direct = uint sequence - uint reference
      in if direct = 0 then 0
         else let wrapped = (if sequence > reference then direct - 256 else direct + 256)
              in if direct < 0 then (if - direct \<le> wrapped then direct else wrapped)
                 else if direct \<le> - wrapped then direct else wrapped)"

definition delete_buffer :: "u8 \<Rightarrow> fragment_inner \<Rightarrow> fragment_inner" where
  "delete_buffer sequence s =
     (case map_of (fi_incoming s) sequence of
        None \<Rightarrow> s
      | Some b \<Rightarrow> s\<lparr>fi_incoming := btree_remove sequence (fi_incoming s),
                   fi_incoming_bytes := fi_incoming_bytes s - ib_bytes b\<rparr>)"

definition advance_window :: "u8 \<Rightarrow> fragment_inner \<Rightarrow> fragment_inner" where
  "advance_window sequence s =
     (case fi_incoming_sequence s of
        None \<Rightarrow> s\<lparr>fi_incoming_sequence := Some sequence\<rparr>
      | Some current \<Rightarrow>
          (let difference = sequence_difference sequence current
           in if \<not> (- FRAGMENT_RECEIVE_WINDOW \<le> difference \<and> difference < FRAGMENT_RECEIVE_WINDOW)
              then s\<lparr>fi_incoming := [], fi_incoming_bytes := 0, fi_incoming_sequence := Some sequence\<rparr>
              else if difference \<le> 0 then s
              else let stale = filter (\<lambda>buffered. let d = sequence_difference buffered sequence
                                         in d \<le> - FRAGMENT_RECEIVE_WINDOW \<or> d > 0) (map fst (fi_incoming s))
                   in fold delete_buffer stale (s\<lparr>fi_incoming_sequence := Some sequence\<rparr>)))"

definition expire :: "instant \<Rightarrow> duration \<Rightarrow> fragment_inner \<Rightarrow> fragment_inner" where
  "expire now timeout s =
     fold delete_buffer
       (map fst (filter (\<lambda>(_, b). now - ib_updated b \<ge> timeout) (fi_incoming s))) s"

text \<open>\<open>min_by_key\<close> returns the first of the minimal elements in iteration order.\<close>

fun min_by_updated :: "(u8 \<times> incoming_buffer) list \<Rightarrow> (u8 \<times> incoming_buffer) option" where
  "min_by_updated [] = None"
| "min_by_updated (e # es) =
     (case min_by_updated es of
        None \<Rightarrow> Some e
      | Some e' \<Rightarrow> if ib_updated (snd e) \<le> ib_updated (snd e') then Some e else Some e')"

definition oldest_sequence :: "fragment_inner \<Rightarrow> u8 \<Rightarrow> u8 option" where
  "oldest_sequence s exclude =
     map_option fst (min_by_updated (filter (\<lambda>e. fst e \<noteq> exclude) (fi_incoming s)))"

lemma min_by_updated_mem: "min_by_updated es = Some e \<Longrightarrow> e \<in> set es"
  by (induction es arbitrary: e) (auto split: option.splits if_splits)

lemma oldest_sequence_mem:
  "oldest_sequence s x = Some q \<Longrightarrow> q \<in> fst ` set (fi_incoming s) \<and> q \<noteq> x"
  by (auto simp: oldest_sequence_def dest!: min_by_updated_mem intro: rev_image_eqI)

lemma delete_buffer_shrinks:
  "q \<in> fst ` set (fi_incoming s) \<Longrightarrow> length (fi_incoming (delete_buffer q s)) < length (fi_incoming s)"
  by (auto simp: delete_buffer_def btree_remove_def map_of_eq_None_iff split: option.splits
      intro!: length_filter_less)

function evict :: "nat \<Rightarrow> nat \<Rightarrow> nat \<Rightarrow> u8 \<Rightarrow> fragment_inner \<Rightarrow> fragment_inner \<times> bool" where
  "evict max_bytes previous_length len sequence s =
     (if fi_incoming_bytes s - previous_length + len > max_bytes
      then case oldest_sequence s sequence of
             None \<Rightarrow> (delete_buffer sequence s, False)
           | Some oldest \<Rightarrow> evict max_bytes previous_length len sequence (delete_buffer oldest s)
      else (s, True))"
  by pat_completeness auto
termination
  by (relation "measure (\<lambda>(_, _, _, _, s). length (fi_incoming s))")
    (auto dest!: oldest_sequence_mem intro!: delete_buffer_shrinks)

declare evict.simps [simp del]

definition update_buffer :: "u8 \<Rightarrow> incoming_buffer \<Rightarrow> (u8 \<times> incoming_buffer) list \<Rightarrow> (u8 \<times> incoming_buffer) list" where
  "update_buffer sequence b m = map (\<lambda>e. if fst e = sequence then (sequence, b) else e) m"

definition store_ready :: "u8 \<Rightarrow> fragment_inner \<Rightarrow> fragment_inner \<times> bytes option" where
  "store_ready sequence s =
     (case map_of (fi_incoming s) sequence of
        None \<Rightarrow> (s, None)
      | Some b \<Rightarrow>
          (case ib_last_id b of
             None \<Rightarrow> (s, None)
           | Some last_id \<Rightarrow>
               if \<not> list_all (\<lambda>part. ib_parts b part \<noteq> None) [0 ..< Suc last_id] then (s, None)
               else (s\<lparr>fi_incoming := btree_remove sequence (fi_incoming s),
                       fi_incoming_bytes := fi_incoming_bytes s - ib_bytes b\<rparr>,
                     Some (concat (map (\<lambda>part. the (ib_parts b part)) [0 ..< Suc last_id])))))"

definition open_buffer :: "u8 \<Rightarrow> nat \<Rightarrow> instant \<Rightarrow> fragment_inner \<Rightarrow> fragment_inner" where
  "open_buffer sequence fragment_size now s =
     (let s1 = (case map_of (fi_incoming s) sequence of
                  None \<Rightarrow> s
                | Some b \<Rightarrow> if ib_max_size b \<noteq> fragment_size then delete_buffer sequence s else s)
      in case map_of (fi_incoming s1) sequence of
           None \<Rightarrow> s1\<lparr>fi_incoming := (sequence,
                       \<lparr>ib_max_size = fragment_size, ib_last_id = None, ib_parts = Map.empty,
                        ib_bytes = 0, ib_updated = now\<rparr>) # fi_incoming s1\<rparr>
         | Some _ \<Rightarrow> s1)"

definition store_part ::
  "fragment_codec \<Rightarrow> u8 \<Rightarrow> nat \<Rightarrow> nat \<Rightarrow> bool \<Rightarrow> bytes \<Rightarrow> instant \<Rightarrow> fragment_inner
    \<Rightarrow> fragment_inner \<times> (fragment_error + bytes option)" where
  "store_part c sequence i maximum_size lst payload now s =
     (let b = the (map_of (fi_incoming s) sequence);
          previous_length = (case ib_parts b i of None \<Rightarrow> 0 | Some p \<Rightarrow> length p);
          buffer_bytes = ib_bytes b - previous_length + length payload
      in if buffer_bytes > fc_reassembly_max_packet_bytes c
         then (delete_buffer sequence s, Inl PacketTooLarge)
         else case evict (fc_reassembly_max_bytes c) previous_length (length payload) sequence s of
           (s1, False) \<Rightarrow> (s1, Inl MemoryLimit)
         | (s1, True) \<Rightarrow>
             (let b' = \<lparr>ib_max_size = (if maximum_size > 0 then maximum_size else ib_max_size b),
                        ib_last_id = (if lst then Some i else ib_last_id b),
                        ib_parts = (ib_parts b)(i \<mapsto> payload), ib_bytes = buffer_bytes,
                        ib_updated = now\<rparr>;
                  s2 = s1\<lparr>fi_incoming := update_buffer sequence b' (fi_incoming s1),
                          fi_incoming_bytes := fi_incoming_bytes s1 - previous_length + length payload\<rparr>
              in case store_ready sequence s2 of (s3, r) \<Rightarrow> (s3, Inr r)))"

definition store ::
  "fragment_codec \<Rightarrow> u8 \<Rightarrow> nat \<Rightarrow> nat \<Rightarrow> bool \<Rightarrow> bytes \<Rightarrow> instant \<Rightarrow> fragment_inner
    \<Rightarrow> fragment_inner \<times> (fragment_error + bytes option)" where
  "store c sequence i maximum_size lst payload now s0 =
     (let s1 = expire now (fc_reassembly_timeout c) s0 in
      if length payload > fc_reassembly_max_packet_bytes c then (s1, Inl PacketTooLarge)
      else let fragment_size = (if maximum_size > 0 then maximum_size else length payload)
           in store_part c sequence i maximum_size lst payload now
                (open_buffer sequence fragment_size now (advance_window sequence s1)))"

definition decode_at :: "fragment_codec \<Rightarrow> bytes \<Rightarrow> instant \<Rightarrow> fragment_inner \<Rightarrow> fragment_inner \<times> (fragment_error + bytes option)" where
  "decode_at c payload now s =
     (if length payload < 4 then (s, Inl HeaderNotFound)
      else let flags = of_be32 (take 4 payload); kind = flags AND 3; body = drop 4 payload
        in if kind = TYPE_WHOLE then
             (if drop_bit 2 flags AND 0xff \<noteq> 0 \<or> drop_bit 10 flags AND 0x1f \<noteq> 0
              then (s, Inl SpuriousFlags) else (s, Inr (Some body)))
           else if \<not> (kind = TYPE_PARTIAL \<or> kind = TYPE_LAST) then (s, Inl (UnknownType (ucast kind)))
           else store c (ucast (drop_bit 2 flags AND 0xff)) (unat (drop_bit 10 flags AND 0x1f))
                  (unat (drop_bit 15 flags AND 0x3fff) * 4) (kind = TYPE_LAST) body now s)"

subsection \<open>The frame header\<close>

lemma frame_flags:
  fixes kind :: u32 and q i :: u8 and n :: u32
  defines "f \<equiv> (kind AND 3) OR push_bit 2 (ucast q AND 0xff) OR push_bit 10 (ucast i AND 0x1f)
      OR push_bit 15 (n AND 0x3fff)"
  shows "f AND 3 = kind AND 3" "ucast (drop_bit 2 f AND 0xff) = q"
    "drop_bit 10 f AND 0x1f = ucast i AND 0x1f" "drop_bit 15 f AND 0x3fff = n AND 0x3fff"
    "drop_bit 2 f AND 0xff = ucast q"
proof -
  have m: "(3 :: u32) = mask 2" "(0xff :: u32) = mask 8" "(0x1f :: u32) = mask 5" "(0x3fff :: u32) = mask 14"
    by (simp_all add: mask_eq_exp_minus_1)
  show "f AND 3 = kind AND 3"
    by (rule bit_word_eqI) (auto simp: f_def m bit_simps)
  show 1: "drop_bit 2 f AND 0xff = ucast q"
    by (rule bit_word_eqI) (auto simp: f_def m bit_simps dest: bit_imp_le_length)
  show "ucast (drop_bit 2 f AND 0xff) = q"
    unfolding 1 by (rule bit_word_eqI) (auto simp: bit_simps)
  show "drop_bit 10 f AND 0x1f = ucast i AND 0x1f"
    by (rule bit_word_eqI) (auto simp: f_def m bit_simps)
  show "drop_bit 15 f AND 0x3fff = n AND 0x3fff"
    by (rule bit_word_eqI) (auto simp: f_def m bit_simps)
qed

lemma frame_eq:
  "frame payload kind q i n =
     be32 ((kind AND 3) OR push_bit 2 (ucast q AND 0xff) OR push_bit 10 (ucast i AND 0x1f)
       OR push_bit 15 ((if kind = TYPE_LAST then of_nat n else 0) AND 0x3fff)) @ payload"
  by (simp add: frame_def Let_def or.assoc)

lemma unat_id_mask: "k < 32 \<Longrightarrow> unat (ucast (of_nat k :: u8) AND (0x1f :: u32)) = k"
proof -
  assume "k < 32"
  then have "unat (of_nat k :: u8) = k" by (simp add: unat_of_nat)
  moreover have "k < 2 ^ 32" using \<open>k < 32\<close> by simp
  ultimately have "unat (ucast (of_nat k :: u8) :: u32) = k"
    by (simp only: unsigned_ucast_eq take_bit_nat_eq_self len_num1) (simp add: take_bit_nat_eq_self)
  moreover have "x AND 0x1f = take_bit 5 x" for x :: u32
    by (simp add: take_bit_eq_mask mask_eq_exp_minus_1)
  ultimately show ?thesis using \<open>k < 32\<close> by (simp add: unsigned_take_bit_eq take_bit_nat_eq_self)
qed

lemma unat_size_mask: "n < 2 ^ 14 \<Longrightarrow> unat ((of_nat n :: u32) AND 0x3fff) = n"
proof -
  assume n: "n < 2 ^ 14"
  then have "unat (of_nat n :: u32) = n" by (simp add: unat_of_nat)
  moreover have "x AND 0x3fff = take_bit 14 x" for x :: u32
    by (simp add: take_bit_eq_mask mask_eq_exp_minus_1)
  ultimately show ?thesis using n by (simp add: unsigned_take_bit_eq take_bit_nat_eq_self)
qed

lemma decode_whole [codec_simps]: "decode_at c (frame payload TYPE_WHOLE 0 0 0) now s = (s, Inr (Some payload))"
  using frame_flags [of TYPE_WHOLE 0 0 0]
  by (simp add: decode_at_def frame_eq Let_def TYPE_WHOLE_def TYPE_LAST_def)

lemma decode_partial [codec_simps]:
  "k < 32 \<Longrightarrow> decode_at c (frame payload TYPE_PARTIAL q (of_nat k) n) now s = store c q k 0 False payload now s"
  using frame_flags [of TYPE_PARTIAL q "of_nat k" 0] unat_id_mask [of k]
  by (simp add: decode_at_def frame_eq Let_def fragment_consts)

lemma decode_last [codec_simps]:
  "k < 32 \<Longrightarrow> n < 2 ^ 14 \<Longrightarrow>
   decode_at c (frame payload TYPE_LAST q (of_nat k) n) now s = store c q k (n * 4) True payload now s"
  using frame_flags [of TYPE_LAST q "of_nat k" "of_nat n"] unat_id_mask [of k] unat_size_mask [of n]
  by (simp add: decode_at_def frame_eq Let_def fragment_consts)

subsection \<open>Reassembly memory is accounted for and bounded\<close>

definition parts_bytes :: "(nat \<rightharpoonup> bytes) \<Rightarrow> nat" where
  "parts_bytes m = (\<Sum>i \<in> dom m. length (the (m i)))"

definition buffer_wf :: "fragment_codec \<Rightarrow> incoming_buffer \<Rightarrow> bool" where
  "buffer_wf c b \<longleftrightarrow> finite (dom (ib_parts b)) \<and> ib_bytes b = parts_bytes (ib_parts b)
     \<and> ib_bytes b \<le> fc_reassembly_max_packet_bytes c"

definition frag_wf :: "fragment_codec \<Rightarrow> fragment_inner \<Rightarrow> bool" where
  "frag_wf c s \<longleftrightarrow> distinct (map fst (fi_incoming s))
     \<and> fi_incoming_bytes s = sum_list (map (ib_bytes \<circ> snd) (fi_incoming s))
     \<and> list_all (buffer_wf c \<circ> snd) (fi_incoming s)
     \<and> fi_incoming_bytes s \<le> fc_reassembly_max_bytes c"

lemma parts_bytes_update:
  assumes "finite (dom m)"
  shows "parts_bytes (m(i \<mapsto> p)) = parts_bytes m - (case m i of None \<Rightarrow> 0 | Some q \<Rightarrow> length q) + length p"
    and "(case m i of None \<Rightarrow> 0 | Some q \<Rightarrow> length q) \<le> parts_bytes m"
proof -
  have s: "(\<Sum>j \<in> dom m - {i}. length (the ((m(i \<mapsto> p)) j))) = (\<Sum>j \<in> dom m - {i}. length (the (m j)))"
    by (rule sum.cong) auto
  have u: "parts_bytes (m(i \<mapsto> p)) = length p + (\<Sum>j \<in> dom m - {i}. length (the (m j)))"
    using assms sum.insert_remove [of "dom m" "\<lambda>j. length (the ((m(i \<mapsto> p)) j))" i] s
    by (simp add: parts_bytes_def)
  have m: "parts_bytes m = (case m i of None \<Rightarrow> 0 | Some q \<Rightarrow> length q) + (\<Sum>j \<in> dom m - {i}. length (the (m j)))"
  proof (cases "m i")
    case None
    then show ?thesis by (simp add: parts_bytes_def domIff)
  next
    case (Some q)
    then show ?thesis using assms sum.remove [of "dom m" i "\<lambda>j. length (the (m j))"]
      by (simp add: parts_bytes_def domIff)
  qed
  show "parts_bytes (m(i \<mapsto> p)) = parts_bytes m - (case m i of None \<Rightarrow> 0 | Some q \<Rightarrow> length q) + length p"
    by (simp add: u m)
  show "(case m i of None \<Rightarrow> 0 | Some q \<Rightarrow> length q) \<le> parts_bytes m" by (simp add: m)
qed

lemma sum_list_remove:
  assumes "distinct (map fst m)" "map_of m q = Some b"
  shows "sum_list (map (f \<circ> snd) m) = (f b :: nat) + sum_list (map (f \<circ> snd) (btree_remove q m))"
  using assms
proof (induction m)
  case (Cons e m)
  show ?case
  proof (cases "fst e = q")
    case True
    with Cons.prems have "filter (\<lambda>x. fst x \<noteq> q) m = m" by (auto simp: filter_id_conv rev_image_eqI)
    with True Cons.prems show ?thesis by (auto simp: btree_remove_def)
  next
    case False
    with Cons show ?thesis by (auto simp: btree_remove_def split: if_splits)
  qed
qed simp

lemma remove_entry_wf [inv_intros]:
  assumes "frag_wf c s" "map_of (fi_incoming s) q = Some b"
  shows "frag_wf c (s\<lparr>fi_incoming := btree_remove q (fi_incoming s),
     fi_incoming_bytes := fi_incoming_bytes s - ib_bytes b\<rparr>)"
  using assms sum_list_remove [of "fi_incoming s" q b ib_bytes]
  by (auto simp: frag_wf_def btree_remove_def list_all_iff distinct_map_filter)

lemma delete_buffer_wf [inv_intros]: "frag_wf c s \<Longrightarrow> frag_wf c (delete_buffer q s)"
  by (auto simp: delete_buffer_def remove_entry_wf split: option.splits)

lemma fold_delete_buffer_wf [inv_intros]: "frag_wf c s \<Longrightarrow> frag_wf c (fold delete_buffer qs s)"
  by (induction qs arbitrary: s) (auto intro: delete_buffer_wf)

lemma frag_wf_window [simp]: "frag_wf c (s\<lparr>fi_incoming_sequence := q\<rparr>) = frag_wf c s"
  by (simp add: frag_wf_def)

lemma advance_window_wf [inv_intros]: "frag_wf c s \<Longrightarrow> frag_wf c (advance_window q s)"
proof -
  assume wf: "frag_wf c s"
  have "frag_wf c (s\<lparr>fi_incoming := [], fi_incoming_bytes := 0, fi_incoming_sequence := Some q\<rparr>)"
    by (simp add: frag_wf_def)
  with wf show ?thesis
    by (auto simp: advance_window_def Let_def fold_delete_buffer_wf split: option.splits)
qed

lemma expire_wf [inv_intros]: "frag_wf c s \<Longrightarrow> frag_wf c (expire now t s)"
  by (simp add: expire_def fold_delete_buffer_wf)

lemma map_of_delete_buffer [simp]:
  "q \<noteq> r \<Longrightarrow> map_of (fi_incoming (delete_buffer r s)) q = map_of (fi_incoming s) q"
  by (auto simp: delete_buffer_def split: option.splits)

lemma evict_spec:
  assumes "frag_wf c s" "evict mx prev len q s = (s', ok)"
  shows "frag_wf c s' \<and> (ok \<longrightarrow> map_of (fi_incoming s') q = map_of (fi_incoming s) q
      \<and> fi_incoming_bytes s' - prev + len \<le> mx)"
  using assms
proof (induction mx prev len q s rule: evict.induct)
  case (1 mx prev len q s)
  show ?case
  proof (cases "fi_incoming_bytes s - prev + len > mx")
    case False
    with 1(2,3) show ?thesis by (simp add: evict.simps [of mx])
  next
    case True
    show ?thesis
    proof (cases "oldest_sequence s q")
      case None
      with True 1(2,3) show ?thesis by (auto simp: evict.simps [of mx prev len q s] intro: delete_buffer_wf)
    next
      case (Some r)
      then have "evict mx prev len q (delete_buffer r s) = (s', ok)"
        using True 1(3) by (simp add: evict.simps [of mx prev len q s])
      from 1(1) [OF True Some delete_buffer_wf [OF 1(2)] this] oldest_sequence_mem [OF Some]
      show ?thesis by auto
    qed
  qed
qed

lemma update_buffer_keys [simp]: "map fst (update_buffer q b m) = map fst m"
  by (induction m) (auto simp: update_buffer_def)

lemma map_of_update_buffer [simp]:
  "map_of (update_buffer q b m) = (if q \<in> fst ` set m then (map_of m)(q \<mapsto> b) else map_of m)"
  by (induction m) (auto simp: update_buffer_def fun_eq_iff)

lemma update_buffer_absent: "q \<notin> fst ` set m \<Longrightarrow> update_buffer q b m = m"
  by (induction m) (auto simp: update_buffer_def)

lemma sum_list_update_buffer:
  "distinct (map fst m) \<Longrightarrow> map_of m q = Some b \<Longrightarrow>
   sum_list (map (f \<circ> snd) (update_buffer q b' m)) + f b = sum_list (map (f \<circ> snd) m) + (f b' :: nat)"
proof (induction m)
  case (Cons e m)
  show ?case
  proof (cases "fst e = q")
    case True
    with Cons.prems have "update_buffer q b' m = m" by (auto intro: update_buffer_absent)
    then show ?thesis using True Cons.prems by (auto simp: update_buffer_def)
  next
    case False
    with Cons show ?thesis by (auto simp: update_buffer_def split: if_splits)
  qed
qed simp

lemma update_entry_wf:
  assumes wf: "frag_wf c s" and b: "map_of (fi_incoming s) q = Some b"
    and prev: "prev = (case ib_parts b i of None \<Rightarrow> 0 | Some p \<Rightarrow> length p)"
    and b': "ib_parts b' = (ib_parts b)(i \<mapsto> payload)" "ib_bytes b' = ib_bytes b - prev + length payload"
    and le: "ib_bytes b' \<le> fc_reassembly_max_packet_bytes c"
      "fi_incoming_bytes s - prev + length payload \<le> fc_reassembly_max_bytes c"
  shows "frag_wf c (s\<lparr>fi_incoming := update_buffer q b' (fi_incoming s),
     fi_incoming_bytes := fi_incoming_bytes s - prev + length payload\<rparr>)"
proof -
  have d: "distinct (map fst (fi_incoming s))" using wf by (simp add: frag_wf_def)
  have bw: "buffer_wf c b" using wf map_of_in_set [OF b] by (auto simp: frag_wf_def list_all_iff)
  then have p: "prev \<le> ib_bytes b" using parts_bytes_update(2) [of "ib_parts b" i] prev by (simp add: buffer_wf_def)
  have bw': "buffer_wf c b'"
    using bw le(1) parts_bytes_update(1) [of "ib_parts b" i payload] by (simp add: buffer_wf_def b' prev)
  have "ib_bytes b \<le> fi_incoming_bytes s"
    using wf sum_list_remove [OF d b, of ib_bytes] by (simp add: frag_wf_def)
  then have "sum_list (map (ib_bytes \<circ> snd) (update_buffer q b' (fi_incoming s)))
      = fi_incoming_bytes s - prev + length payload"
    using sum_list_update_buffer [OF d b, of ib_bytes b'] p wf b'(2) by (simp add: frag_wf_def)
  moreover have "list_all (buffer_wf c \<circ> snd) (update_buffer q b' (fi_incoming s))"
    using wf bw' by (auto simp: frag_wf_def list_all_iff update_buffer_def)
  ultimately show ?thesis using d le(2) by (simp add: frag_wf_def)
qed

lemma store_ready_wf [inv_intros]: "frag_wf c s \<Longrightarrow> frag_wf c (fst (store_ready q s))"
  by (auto simp: store_ready_def remove_entry_wf split: option.splits)

lemma open_buffer_wf [inv_intros]: "frag_wf c s \<Longrightarrow> frag_wf c (open_buffer q n now s)"
proof -
  have new: "frag_wf c (t\<lparr>fi_incoming := (q, \<lparr>ib_max_size = n, ib_last_id = None, ib_parts = Map.empty,
      ib_bytes = 0, ib_updated = now\<rparr>) # fi_incoming t\<rparr>)"
    if "frag_wf c t" "map_of (fi_incoming t) q = None" for t
    using that by (auto simp: frag_wf_def buffer_wf_def parts_bytes_def map_of_eq_None_iff)
  assume "frag_wf c s"
  then show ?thesis using new delete_buffer_wf
    by (auto simp: open_buffer_def Let_def split: option.splits)
qed

lemma open_buffer_present: "\<exists>b. map_of (fi_incoming (open_buffer q n now s)) q = Some b"
  by (auto simp: open_buffer_def Let_def split: option.splits)

lemma store_part_wf [inv_intros]:
  assumes wf: "frag_wf c s" and b: "map_of (fi_incoming s) q = Some b"
  shows "frag_wf c (fst (store_part c q i m l payload now s))"
proof -
  define prev where "prev = (case ib_parts b i of None \<Rightarrow> 0 | Some p \<Rightarrow> length p)"
  define b' where "b' = \<lparr>ib_max_size = (if m > 0 then m else ib_max_size b),
     ib_last_id = (if l then Some i else ib_last_id b), ib_parts = (ib_parts b)(i \<mapsto> payload),
     ib_bytes = ib_bytes b - prev + length payload, ib_updated = now\<rparr>"
  obtain s1 ok where e: "evict (fc_reassembly_max_bytes c) prev (length payload) q s = (s1, ok)" by fastforce
  note E = evict_spec [OF wf e]
  have "frag_wf c (s1\<lparr>fi_incoming := update_buffer q b' (fi_incoming s1),
      fi_incoming_bytes := fi_incoming_bytes s1 - prev + length payload\<rparr>)"
    if "ok" "ib_bytes b - prev + length payload \<le> fc_reassembly_max_packet_bytes c"
    by (rule update_entry_wf [of c s1 q b prev i b' payload]) (use E b that in \<open>auto simp: prev_def b'_def\<close>)
  then show ?thesis using E e b wf
    by (cases ok) (auto simp: store_part_def Let_def delete_buffer_wf store_ready_wf split_def
        simp flip: prev_def b'_def)
qed

lemma store_wf [inv_intros]: "frag_wf c s \<Longrightarrow> frag_wf c (fst (store c q i m l payload now s))"
proof -
  assume "frag_wf c s"
  then have w: "frag_wf c (open_buffer q n now (advance_window q (expire now t s)))" for n t
    by (intro open_buffer_wf advance_window_wf expire_wf)
  have "frag_wf c (fst (store_part c q i m l payload now (open_buffer q n now (advance_window q (expire now t s)))))"
    for n t using open_buffer_present store_part_wf [OF w] by metis
  with \<open>frag_wf c s\<close> show ?thesis by (simp add: store_def Let_def expire_wf)
qed

lemma decode_at_wf [inv_intros]: "frag_wf c s \<Longrightarrow> frag_wf c (fst (decode_at c p now s))"
  by (simp add: decode_at_def Let_def store_wf)

lemma fragment_encode_wf [inv_intros]: "frag_wf c s \<Longrightarrow> frag_wf c (fst (fragment_encode p n s))"
  by (simp add: fragment_encode_def Let_def frag_wf_def)

datatype frag_event =
  FragEncode bytes nat | FragDecode bytes instant | FragRehash "(u8 \<times> incoming_buffer) list"

fun frag_step :: "fragment_codec \<Rightarrow> frag_event \<Rightarrow> fragment_inner \<Rightarrow> fragment_inner" where
  "frag_step c (FragEncode p n) s = fst (fragment_encode p n s)"
| "frag_step c (FragDecode p now) s = fst (decode_at c p now s)"
| "frag_step c (FragRehash m) s = (if mset m = mset (fi_incoming s) then s\<lparr>fi_incoming := m\<rparr> else s)"

lemma rehash_wf: "frag_wf c s \<Longrightarrow> mset m = mset (fi_incoming s) \<Longrightarrow> frag_wf c (s\<lparr>fi_incoming := m\<rparr>)"
proof -
  assume wf: "frag_wf c s" and m: "mset m = mset (fi_incoming s)"
  have "mset (map fst m) = mset (map fst (fi_incoming s))" using m by simp
  then have "distinct (map fst m) = distinct (map fst (fi_incoming s))" by (rule mset_eq_imp_distinct_iff)
  moreover have "mset (map (ib_bytes \<circ> snd) m) = mset (map (ib_bytes \<circ> snd) (fi_incoming s))" using m by simp
  then have "sum_list (map (ib_bytes \<circ> snd) m) = sum_list (map (ib_bytes \<circ> snd) (fi_incoming s))"
    by (metis sum_mset_sum_list)
  moreover have "set m = set (fi_incoming s)" using m by (rule mset_eq_setD)
  ultimately show ?thesis using wf by (simp add: frag_wf_def list_all_iff)
qed

interpretation reassembly: event_system fragment_inner_default "frag_step c" "frag_wf c" for c
proof
  show "frag_wf c fragment_inner_default" by (simp add: frag_wf_def fragment_inner_default_def)
  show "frag_wf c (frag_step c e s)" if "frag_wf c s" for s e
    using that by (cases e) (auto intro: fragment_encode_wf decode_at_wf rehash_wf)
qed

text \<open>
  Property C31. For any limits and any sequence of outgoing packets, incoming fragments and hash
  orders, the byte counter of the reassembly state is the exact number of bytes buffered and never
  exceeds the configured total, each partial packet stays within the packet limit, and at most one
  buffer exists per sequence number.
\<close>

theorem reassembly_bounded:
  "let s = fold (frag_step c) es fragment_inner_default
   in fi_incoming_bytes s = sum_list (map (parts_bytes \<circ> ib_parts \<circ> snd) (fi_incoming s))
      \<and> fi_incoming_bytes s \<le> fc_reassembly_max_bytes c
      \<and> list_all (\<lambda>(_, b). parts_bytes (ib_parts b) \<le> fc_reassembly_max_packet_bytes c) (fi_incoming s)
      \<and> distinct (map fst (fi_incoming s))"
proof -
  let ?s = "fold (frag_step c) es fragment_inner_default"
  have wf: "frag_wf c ?s" by (rule reassembly.invar_reached)
  then have "map (ib_bytes \<circ> snd) (fi_incoming ?s) = map (parts_bytes \<circ> ib_parts \<circ> snd) (fi_incoming ?s)"
    by (auto simp: frag_wf_def list_all_iff buffer_wf_def)
  with wf show ?thesis by (auto simp: Let_def frag_wf_def list_all_iff buffer_wf_def)
qed

subsection \<open>Fragmentation round trip\<close>

lemma concat_chunks: "n > 0 \<Longrightarrow> concat (chunks n xs) = xs"
proof (induction n xs rule: chunks.induct)
  case (1 n xs)
  then show ?case by (cases "xs = []") (simp_all add: chunks.simps [of n xs] chunks.simps [of n "[]"])
qed

lemma chunks_full:
  "n > 0 \<Longrightarrow> j < length (chunks n xs) \<Longrightarrow>
   (Suc j * n \<ge> length xs \<longleftrightarrow> Suc j = length (chunks n xs))
   \<and> (Suc j < length (chunks n xs) \<longrightarrow> length (chunks n xs ! j) = n)"
proof (induction n xs arbitrary: j rule: chunks.induct)
  case (1 n xs)
  then have xs: "xs \<noteq> []" by (auto simp: chunks.simps [of n "[]"])
  have c: "chunks n xs = take n xs # chunks n (drop n xs)" using 1(2) xs by (simp add: chunks.simps [of n xs])
  show ?case
  proof (cases "length xs \<le> n")
    case True
    then have "chunks n (drop n xs) = []" by (simp add: chunks.simps [of n "[]"])
    with c True 1(3) show ?thesis by simp
  next
    case False
    then have ne: "chunks n (drop n xs) \<noteq> []" using 1(2) by (simp add: chunks.simps [of n "drop n xs"])
    show ?thesis
    proof (cases j)
      case 0
      with c ne False 1(2) show ?thesis by (simp add: length_greater_0_conv)
    next
      case (Suc i)
      then have "i < length (chunks n (drop n xs))" using 1(3) c by simp
      from 1(1) [OF _ 1(2) this] 1(2) xs Suc c False show ?thesis by auto
    qed
  qed
qed

definition part_frame :: "u8 \<Rightarrow> nat \<Rightarrow> nat \<Rightarrow> nat \<Rightarrow> bytes \<Rightarrow> bytes" where
  "part_frame q n len j x = frame x (if Suc j * n \<ge> len then TYPE_LAST else TYPE_PARTIAL) q (of_nat j)
     (if Suc j * n \<ge> len then n div 4 else 0)"

lemma encode_chunks_nth:
  "encode_chunks q n len i cs = Inr fs \<Longrightarrow>
   length fs = length cs \<and> (cs \<noteq> [] \<longrightarrow> i + length cs \<le> 32)
   \<and> (\<forall>j < length cs. fs ! j = part_frame q n len (i + j) (cs ! j))"
proof (induction cs arbitrary: i fs)
  case (Cons x cs)
  then obtain gs where g: "encode_chunks q n len (Suc i) cs = Inr gs" and i: "i < 32"
    and fs: "fs = part_frame q n len i x # gs"
    by (auto simp: Let_def FRAGMENT_MAX_PARTS_def part_frame_def split: sum.splits if_splits)
  note IH = Cons.IH [OF g]
  have "fs ! j = part_frame q n len (i + j) ((x # cs) ! j)" if "j < length (x # cs)" for j
    using that IH by (cases j) (auto simp: fs)
  then show ?case using IH i by (cases cs) (auto simp: fs)
qed simp

definition part_map :: "bytes list \<Rightarrow> nat set \<Rightarrow> nat \<rightharpoonup> bytes" where
  "part_map cs S = (\<lambda>j. if j \<in> S \<and> j < length cs then Some (cs ! j) else None)"

lemma part_map_insert: "j < length cs \<Longrightarrow> (part_map cs S)(j \<mapsto> cs ! j) = part_map cs (insert j S)"
  by (auto simp: part_map_def)

lemma finite_part_map [simp]: "finite (dom (part_map cs S))"
  by (rule finite_subset [of _ "{..< length cs}"]) (auto simp: part_map_def split: if_splits)

lemma parts_bytes_part_map: "parts_bytes (part_map cs S) \<le> length (concat cs)"
proof -
  have "parts_bytes (part_map cs S) = (\<Sum>j \<in> dom (part_map cs S). length (cs ! j))"
    unfolding parts_bytes_def by (rule sum.cong) (auto simp: part_map_def split: if_splits)
  also have "\<dots> \<le> (\<Sum>j \<in> {..< length cs}. length (cs ! j))"
    by (rule sum_mono2) (auto simp: part_map_def split: if_splits)
  also have "\<dots> = length (concat cs)" by (simp add: length_concat sum_list_sum_nth atLeast0LessThan)
  finally show ?thesis .
qed

definition settled :: "u8 \<Rightarrow> fragment_inner \<Rightarrow> bool" where
  "settled q s \<longleftrightarrow> (\<exists>cur. fi_incoming_sequence s = Some cur
     \<and> - FRAGMENT_RECEIVE_WINDOW \<le> sequence_difference q cur \<and> sequence_difference q cur \<le> 0)"

definition partial_buffer :: "nat \<Rightarrow> bytes list \<Rightarrow> nat set \<Rightarrow> instant \<Rightarrow> incoming_buffer" where
  "partial_buffer n cs S u = \<lparr>ib_max_size = n,
     ib_last_id = (if length cs - 1 \<in> S then Some (length cs - 1) else None),
     ib_parts = part_map cs S, ib_bytes = parts_bytes (part_map cs S), ib_updated = u\<rparr>"

definition receiving :: "fragment_codec \<Rightarrow> u8 \<Rightarrow> nat \<Rightarrow> bytes list \<Rightarrow> instant \<Rightarrow> nat set \<Rightarrow> fragment_inner \<Rightarrow> bool" where
  "receiving c q n cs t0 S s \<longleftrightarrow>
     fi_incoming_bytes s = parts_bytes (part_map cs S)
     \<and> (if S = {} then fi_incoming s = []
        else settled q s \<and> (\<exists>u. fi_incoming s = [(q, partial_buffer n cs S u)]
               \<and> t0 \<le> u \<and> u < t0 + fc_reassembly_timeout c))"

lemma sequence_difference_self [simp]: "sequence_difference q q = 0"
  by (simp add: sequence_difference_def)

lemma settled_advance: "settled q s \<Longrightarrow> advance_window q s = s"
  by (auto simp: settled_def advance_window_def fragment_consts)

lemma advance_empty:
  assumes "fi_incoming s = []" "fi_incoming_bytes s = 0"
  shows "fi_incoming (advance_window q s) = []" "fi_incoming_bytes (advance_window q s) = 0"
    "settled q (advance_window q s)"
  using assms by (auto simp: advance_window_def settled_def fragment_consts Let_def split: option.splits)

lemma expire_receiving:
  "receiving c q n cs t0 S s \<Longrightarrow> t0 \<le> now \<Longrightarrow> now < t0 + fc_reassembly_timeout c \<Longrightarrow>
   expire now (fc_reassembly_timeout c) s = s"
  by (auto simp: receiving_def expire_def partial_buffer_def split: if_splits)

lemma parts_bytes_empty [simp]: "parts_bytes (part_map cs {}) = 0"
  by (simp add: parts_bytes_def part_map_def)

lemma open_receiving:
  assumes r: "receiving c q n cs t0 S s" and now: "t0 \<le> now" "now < t0 + fc_reassembly_timeout c"
  shows "\<exists>u s1. open_buffer q n now (advance_window q (expire now (fc_reassembly_timeout c) s)) = s1
    \<and> settled q s1 \<and> fi_incoming s1 = [(q, partial_buffer n cs S u)]
    \<and> fi_incoming_bytes s1 = parts_bytes (part_map cs S)"
proof (cases "S = {}")
  case True
  have "partial_buffer n cs {} now = \<lparr>ib_max_size = n, ib_last_id = None, ib_parts = Map.empty,
      ib_bytes = 0, ib_updated = now\<rparr>"
    by (simp add: partial_buffer_def) (simp add: part_map_def)
  then show ?thesis using True r advance_empty [of s q] expire_receiving [OF r now]
    by (intro exI [of _ now]) (auto simp: receiving_def open_buffer_def settled_def)
next
  case False
  with r obtain u where "settled q s" "fi_incoming s = [(q, partial_buffer n cs S u)]"
    "fi_incoming_bytes s = parts_bytes (part_map cs S)" by (auto simp: receiving_def)
  then show ?thesis using expire_receiving [OF r now]
    by (auto simp: settled_advance open_buffer_def) (auto simp: partial_buffer_def)
qed

lemma part_map_all: "list_all (\<lambda>part. part_map cs S part \<noteq> None) [0 ..< length cs] \<longleftrightarrow> {..< length cs} \<subseteq> S"
  by (auto simp: list_all_iff part_map_def)

lemma store_ready_partial:
  assumes "fi_incoming s = [(q, partial_buffer n cs S u)]" "cs \<noteq> []" "S \<subseteq> {..< length cs}"
  shows "store_ready q s =
    (if S = {..< length cs}
     then (s\<lparr>fi_incoming := [], fi_incoming_bytes := fi_incoming_bytes s - parts_bytes (part_map cs S)\<rparr>,
           Some (concat cs))
     else (s, None))"
proof -
  have n: "Suc (length cs - 1) = length cs" using assms(2) by (cases cs) auto
  have "concat (map (\<lambda>part. the (part_map cs S part)) [0 ..< length cs]) = concat cs"
    if "S = {..< length cs}"
  proof -
    have "map (\<lambda>part. the (part_map cs S part)) [0 ..< length cs] = map ((!) cs) [0 ..< length cs]"
      using that by (auto simp: part_map_def)
    then show ?thesis by (simp add: map_nth)
  qed
  moreover have "length cs - 1 \<in> S" if "S = {..< length cs}" using that assms(2) by auto
  ultimately show ?thesis using assms part_map_all [of cs S]
    by (auto simp: store_ready_def partial_buffer_def n btree_remove_def simp del: upt_Suc)
qed

lemma store_part_kept:
  assumes "fi_incoming s = [(q, b)]" "prev = (case ib_parts b i of None \<Rightarrow> 0 | Some p \<Rightarrow> length p)"
    "B = ib_bytes b - prev + length payload" "B \<le> fc_reassembly_max_packet_bytes c"
    "evict (fc_reassembly_max_bytes c) prev (length payload) q s = (s, True)"
  shows "store_part c q i m l payload now s =
    (case store_ready q (s\<lparr>fi_incoming := [(q, \<lparr>ib_max_size = (if m > 0 then m else ib_max_size b),
        ib_last_id = (if l then Some i else ib_last_id b), ib_parts = (ib_parts b)(i \<mapsto> payload),
        ib_bytes = B, ib_updated = now\<rparr>)],
        fi_incoming_bytes := fi_incoming_bytes s - prev + length payload\<rparr>) of (s3, r) \<Rightarrow> (s3, Inr r))"
  using assms by (simp add: store_part_def Let_def update_buffer_def)

lemma store_step:
  assumes r: "receiving c q n cs t0 S s" and now: "t0 \<le> now" "now < t0 + fc_reassembly_timeout c"
    and lim: "length (concat cs) \<le> fc_reassembly_max_packet_bytes c" "length (concat cs) \<le> fc_reassembly_max_bytes c"
    and S: "S \<subseteq> {..< length cs}" and j: "j < length cs" and n: "n > 0"
    and part: "Suc j < length cs \<Longrightarrow> length (cs ! j) = n"
  shows "\<exists>s' res. store c q j (if Suc j = length cs then n else 0) (Suc j = length cs) (cs ! j) now s = (s', Inr res)
    \<and> (if insert j S = {..< length cs} then res = Some (concat cs) \<and> fi_incoming s' = [] \<and> fi_incoming_bytes s' = 0
       else res = None \<and> receiving c q n cs t0 (insert j S) s')"
proof -
  let ?prev = "case part_map cs S j of None \<Rightarrow> 0 | Some p \<Rightarrow> length p"
  let ?B = "parts_bytes (part_map cs (insert j S))"
  obtain u s1 where s1: "open_buffer q n now (advance_window q (expire now (fc_reassembly_timeout c) s)) = s1"
    "settled q s1" "fi_incoming s1 = [(q, partial_buffer n cs S u)]"
    "fi_incoming_bytes s1 = parts_bytes (part_map cs S)" using open_receiving [OF r now] by blast
  have B: "parts_bytes (part_map cs S) - ?prev + length (cs ! j) = ?B"
    using parts_bytes_update(1) [of "part_map cs S" j "cs ! j"] by (simp add: part_map_insert [OF j])
  have le: "?B \<le> length (concat cs)" by (rule parts_bytes_part_map)
  have e: "evict (fc_reassembly_max_bytes c) ?prev (length (cs ! j)) q s1 = (s1, True)"
    using B le lim(2) s1(4) by (simp add: evict.simps [of "fc_reassembly_max_bytes c"])
  have "length (cs ! j) \<le> length (concat cs)" using j by (simp add: length_concat member_le_sum_list)
  then have lp: "\<not> length (cs ! j) > fc_reassembly_max_packet_bytes c" using lim(1) by linarith
  define s2 where "s2 = s1\<lparr>fi_incoming := [(q, partial_buffer n cs (insert j S) now)], fi_incoming_bytes := ?B\<rparr>"
  define l where "l \<longleftrightarrow> Suc j = length cs"
  define m where "m = (if l then n else 0)"
  have m: "(if m > 0 then m else length (cs ! j)) = n" "(if m > 0 then m else n) = n"
    using n part j by (auto simp: m_def l_def)
  let ?b = "partial_buffer n cs S u"
  have b': "\<lparr>ib_max_size = (if m > 0 then m else ib_max_size ?b), ib_last_id = (if l then Some j else ib_last_id ?b),
      ib_parts = (ib_parts ?b)(j \<mapsto> cs ! j), ib_bytes = ?B, ib_updated = now\<rparr>
      = partial_buffer n cs (insert j S) now"
    using j m(2) by (auto simp: partial_buffer_def part_map_insert l_def)
  have "store c q j m l (cs ! j) now s = store_part c q j m l (cs ! j) now s1"
    unfolding store_def Let_def using lp by (simp add: m s1(1))
  also have "\<dots> = (case store_ready q s2 of (s3, res) \<Rightarrow> (s3, Inr res))"
    using store_part_kept [OF s1(3), of ?prev j ?B "cs ! j" c m l now] e B le lim(1) s1(4) b'
    by (simp add: partial_buffer_def [of n cs S u] s2_def)
  finally have st: "store c q j (if Suc j = length cs then n else 0) (Suc j = length cs) (cs ! j) now s
      = (case store_ready q s2 of (s3, res) \<Rightarrow> (s3, Inr res))" by (simp add: m_def l_def)
  have "insert j S \<subseteq> {..< length cs}" "cs \<noteq> []" using S j by auto
  then have "store_ready q s2 = (if insert j S = {..< length cs}
      then (s2\<lparr>fi_incoming := [], fi_incoming_bytes := 0\<rparr>, Some (concat cs)) else (s2, None))"
    using store_ready_partial [of s2 q n cs "insert j S" now] by (simp add: s2_def)
  moreover have "receiving c q n cs t0 (insert j S) s2"
    using s1(2) now by (auto simp: receiving_def s2_def settled_def)
  ultimately show ?thesis using st by auto
qed

fun decode_run :: "fragment_codec \<Rightarrow> (bytes \<times> instant) list \<Rightarrow> fragment_inner
    \<Rightarrow> fragment_inner \<times> (fragment_error + bytes option) list" where
  "decode_run c [] s = (s, [])"
| "decode_run c ((g, t) # ms) s =
     (case decode_at c g t s of (s1, r) \<Rightarrow> (case decode_run c ms s1 of (s2, rs) \<Rightarrow> (s2, r # rs)))"

lemma decode_run_append:
  "decode_run c (ms @ ns) s =
     (case decode_run c ms s of (s1, rs) \<Rightarrow> (case decode_run c ns s1 of (s2, rs') \<Rightarrow> (s2, rs @ rs')))"
  by (induction c ms s rule: decode_run.induct) (auto split: prod.splits)

lemma decode_part_frame:
  assumes "n > 0" "n div 4 * 4 = n" "n < 65536" "j < length (chunks n payload)" "j < 32"
  shows "decode_at c (part_frame q n (length payload) j (chunks n payload ! j)) now s
    = store c q j (if Suc j = length (chunks n payload) then n else 0) (Suc j = length (chunks n payload))
        (chunks n payload ! j) now s"
proof (cases "Suc j = length (chunks n payload)")
  case True
  moreover have "n div 4 < 2 ^ 14" using assms(3) by simp
  ultimately show ?thesis
    using chunks_full [OF assms(1,4)] assms(2,5) by (simp add: part_frame_def decode_last)
next
  case False
  then show ?thesis using chunks_full [OF assms(1,4)] assms(5) by (simp add: part_frame_def decode_partial)
qed

lemma decode_run_partial:
  fixes cs c q n payload and f :: "nat \<Rightarrow> bytes"
  defines "cs \<equiv> chunks n payload" and "f \<equiv> \<lambda>j. part_frame q n (length payload) j (chunks n payload ! j)"
  assumes n: "n > 0" "n div 4 * 4 = n" "n < 65536" and k: "length cs \<le> 32"
    and lim: "length payload \<le> fc_reassembly_max_packet_bytes c" "length payload \<le> fc_reassembly_max_bytes c"
  shows "receiving c q n cs t0 S s \<Longrightarrow> S \<subseteq> {..< length cs} \<Longrightarrow> fst ` set ms \<subseteq> {..< length cs} \<Longrightarrow>
    snd ` set ms \<subseteq> {t0 ..< t0 + fc_reassembly_timeout c} \<Longrightarrow> S \<union> fst ` set ms \<noteq> {..< length cs} \<Longrightarrow>
    \<exists>s'. decode_run c (map (\<lambda>(j, t). (f j, t)) ms) s = (s', replicate (length ms) (Inr None))
      \<and> receiving c q n cs t0 (S \<union> fst ` set ms) s'"
proof (induction ms arbitrary: S s)
  case (Cons e ms)
  obtain j t where e: "e = (j, t)" by fastforce
  have j: "j < length cs" and t: "t0 \<le> t" "t < t0 + fc_reassembly_timeout c" using Cons.prems e by auto
  have c': "concat cs = payload" using n(1) by (simp add: cs_def concat_chunks)
  have d: "decode_at c (f j) t s = store c q j (if Suc j = length cs then n else 0) (Suc j = length cs) (cs ! j) t s"
    unfolding f_def cs_def using n k j by (intro decode_part_frame) (auto simp: cs_def)
  have "insert j S \<noteq> {..< length cs}" using Cons.prems e by auto
  moreover have "Suc j < length cs \<Longrightarrow> length (cs ! j) = n" using chunks_full [OF n(1)] j by (auto simp: cs_def)
  ultimately obtain s1 where s1: "decode_at c (f j) t s = (s1, Inr None)" "receiving c q n cs t0 (insert j S) s1"
    using store_step [OF Cons.prems(1) t _ _ Cons.prems(2) j n(1)] lim d c' by auto
  from Cons.IH [OF s1(2)] Cons.prems e j show ?case by (auto simp: s1(1))
qed simp

lemma fragments_reassemble:
  assumes enc: "fragment_encode payload requested s = (s', Inr frames)"
    and lim: "length payload \<le> 65535" "length payload \<le> fc_reassembly_max_packet_bytes c"
      "length payload \<le> fc_reassembly_max_bytes c"
    and idle: "fi_incoming d = []" "fi_incoming_bytes d = 0"
    and order: "k < length frames" "fst ` set ms = {..< length frames} - {k}"
    and time: "snd ` set (ms @ [(k, now)]) \<subseteq> {t0 ..< t0 + fc_reassembly_timeout c}"
  shows "\<exists>d'. decode_run c (map (\<lambda>(j, t). (frames ! j, t)) (ms @ [(k, now)])) d
      = (d', replicate (length ms) (Inr None) @ [Inr (Some payload)])
    \<and> fi_incoming d' = [] \<and> fi_incoming_bytes d' = 0"
proof -
  define n where "n = requested div 4 * 4"
  have n0: "n \<noteq> 0" using enc by (auto simp: fragment_encode_def Let_def n_def split: if_splits)
  show ?thesis
  proof (cases "length payload \<le> n")
    case True
    then have "frames = [frame payload TYPE_WHOLE 0 0 0]"
      using enc n0 by (simp add: fragment_encode_def Let_def n_def)
    moreover from this order have "k = 0" "fst ` set ms = {}" by auto
    then have "ms = []" "k = 0" by simp_all
    ultimately show ?thesis using idle by (simp add: decode_whole)
  next
    case False
    define q cs where "q = fi_outgoing_sequence s" and "cs = chunks n payload"
    let ?f = "\<lambda>j. part_frame q n (length payload) j (cs ! j)"
    have "encode_chunks q n (length payload) 0 cs = Inr frames"
      using enc n0 False by (auto simp: fragment_encode_def Let_def n_def q_def cs_def)
    from encode_chunks_nth [OF this]
    have len: "length frames = length cs" and k: "length cs \<le> 32" and nth: "\<And>j. j < length cs \<Longrightarrow> frames ! j = ?f j"
      by auto
    have n: "n > 0" "n div 4 * 4 = n" "n < 65536" using n0 False lim(1) by (auto simp: n_def)
    have c': "concat cs = payload" using n(1) by (simp add: cs_def concat_chunks)
    have kc: "k < length cs" using order(1) len by simp
    have rcv: "receiving c q n cs t0 {} d" using idle by (simp add: receiving_def)
    have "map (\<lambda>(j, t). (frames ! j, t)) ms = map (\<lambda>(j, t). (?f j, t)) ms"
    proof (intro map_cong refl)
      fix e assume "e \<in> set ms"
      then have "fst e \<in> fst ` set ms" by simp
      then have "fst e < length cs" using order(2) len by simp
      then show "(case e of (j, t) \<Rightarrow> (frames ! j, t)) = (case e of (j, t) \<Rightarrow> (?f j, t))"
        using nth by (simp add: split_def)
    qed
    then obtain d1 where d1: "decode_run c (map (\<lambda>(j, t). (frames ! j, t)) ms) d = (d1, replicate (length ms) (Inr None))"
      and r1: "receiving c q n cs t0 ({..< length cs} - {k}) d1"
      using decode_run_partial [of n payload c q t0 "{}" d ms] n k lim(2,3) rcv order kc len time
      by (auto simp: cs_def)
    have dk: "decode_at c (frames ! k) now d1
        = store c q k (if Suc k = length cs then n else 0) (Suc k = length cs) (cs ! k) now d1"
      unfolding nth [OF kc] cs_def using n k kc by (intro decode_part_frame) (auto simp: cs_def)
    have "insert k ({..< length cs} - {k}) = {..< length cs}" using kc by auto
    moreover have "Suc k < length cs \<Longrightarrow> length (cs ! k) = n" using chunks_full [OF n(1)] kc by (auto simp: cs_def)
    ultimately obtain d2 where "decode_at c (frames ! k) now d1 = (d2, Inr (Some payload))"
      "fi_incoming d2 = []" "fi_incoming_bytes d2 = 0"
      using store_step [OF r1 _ _ _ _ _ kc n(1), of now] time lim(2,3) dk c' by auto
    with d1 show ?thesis by (simp add: decode_run_append)
  qed
qed

text \<open>
  Property C11. Fragmentation round trip. Whatever fragments a packet of at most 65535 bytes is
  split into, a receiver with no packet under reassembly that gets them in any order, possibly with
  repetitions before the missing one arrives, reports nothing until the last missing fragment and
  then returns exactly the packet, with its reassembly state empty again, provided the packet is
  within the receiver's limits and all fragments arrive within the reassembly timeout.
\<close>

theorem fragment_round_trip:
  assumes enc: "fragment_encode payload requested s = (s', Inr frames)"
    and lim: "length payload \<le> 65535" "length payload \<le> fc_reassembly_max_packet_bytes c"
      "length payload \<le> fc_reassembly_max_bytes c"
    and idle: "fi_incoming d = []" "fi_incoming_bytes d = 0"
    and order: "k < length frames" "fst ` set ms = {..< length frames} - {k}"
    and time: "snd ` set (ms @ [(k, now)]) \<subseteq> {t0 ..< t0 + fc_reassembly_timeout c}"
  shows "\<exists>d'. decode_run c (map (\<lambda>(j, t). (frames ! j, t)) (ms @ [(k, now)])) d
      = (d', replicate (length ms) (Inr None) @ [Inr (Some payload)])
    \<and> fi_incoming d' = [] \<and> fi_incoming_bytes d' = 0"
  using assms by (rule fragments_reassemble)

theorem fragment_round_trip_witness:
  "\<exists>s' frames d'. fragment_encode [1, 2, 3, 4, 5, 6, 7, 8, 9, 10] 6 fragment_inner_default = (s', Inr frames)
    \<and> length frames = 3
    \<and> decode_run fragment_codec_new [(frames ! 2, 0), (frames ! 0, 5), (frames ! 0, 6), (frames ! 1, 7)] fragment_inner_default
        = (d', [Inr None, Inr None, Inr None, Inr (Some [1, 2, 3, 4, 5, 6, 7, 8, 9, 10])])"
proof -
  let ?p = "[1, 2, 3, 4, 5, 6, 7, 8, 9, 10] :: bytes"
  have ch: "chunks 4 ?p = [[1, 2, 3, 4], [5, 6, 7, 8], [9, 10]]" by (simp add: chunks.simps)
  obtain s' frames where enc: "fragment_encode ?p 6 fragment_inner_default = (s', Inr frames)"
    and len: "length frames = 3"
    by (simp add: fragment_encode_def Let_def ch fragment_inner_default_def FRAGMENT_MAX_PARTS_def)
  have "\<exists>d'. decode_run fragment_codec_new (map (\<lambda>(j, t). (frames ! j, t)) ([(2, 0), (0, 5), (0, 6)] @ [(1, 7)])) fragment_inner_default
      = (d', replicate (length [(2 :: nat, 0 :: nat), (0, 5), (0, 6)]) (Inr None) @ [Inr (Some ?p)])
    \<and> fi_incoming d' = [] \<and> fi_incoming_bytes d' = 0"
  proof (rule fragment_round_trip [OF enc, of fragment_codec_new fragment_inner_default 1 "[(2, 0), (0, 5), (0, 6)]" 7 0])
    show "fst ` set [(2 :: nat, 0 :: nat), (0, 5), (0, 6)] = {..< length frames} - {1}" using len by auto
  qed (use len in \<open>auto simp: fragment_codec_new_def fragment_consts fragment_inner_default_def\<close>)
  then show ?thesis using enc len by (auto simp: numeral_eq_Suc)
qed

end
