(* ===== verification/Ovpn_Queue.thy ===== *)
theory Ovpn_Queue
  imports Zay_Prelude "HOL-Library.Multiset"
begin

text \<open>
  The bounded packet queue between the OpenVPN link and the tunnel
  (\<open>protocol/openvpn/queue.rs\<close>). The \<open>Notify\<close> handle is the flag \<open>q_permit\<close>: \<open>notify_one\<close> stores at
  most one permit and \<open>notified().await\<close> takes it, which is its documented behaviour.
\<close>

datatype queue_overflow_policy = DropOldest | DropNewest

record 'a data_packet_queue =
  q_capacity :: nat
  q_items :: "'a list"
  q_permit :: bool

text \<open>\<open>new\<close> panics on a zero capacity.\<close>

definition queue_new :: "nat \<Rightarrow> 'a data_packet_queue option" where
  "queue_new capacity = (if capacity > 0
     then Some \<lparr>q_capacity = capacity, q_items = [], q_permit = False\<rparr> else None)"

fun push_items :: "nat \<Rightarrow> queue_overflow_policy \<Rightarrow> 'a list \<Rightarrow> 'a list \<Rightarrow> 'a list \<Rightarrow> 'a list \<times> 'a list" where
  "push_items capacity policy [] queue dropped = (queue, dropped)"
| "push_items capacity policy (item # items) queue dropped =
     (if length queue = capacity then
        (case policy of
           DropOldest \<Rightarrow> push_items capacity policy items (tl queue @ [item]) (dropped @ [hd queue])
         | DropNewest \<Rightarrow> push_items capacity policy items queue (dropped @ [item]))
      else push_items capacity policy items (queue @ [item]) dropped)"

definition push_batch :: "'a list \<Rightarrow> queue_overflow_policy \<Rightarrow> 'a data_packet_queue \<Rightarrow> 'a data_packet_queue \<times> 'a list" where
  "push_batch items policy q =
     (case push_items (q_capacity q) policy items (q_items q) [] of (queue, dropped) \<Rightarrow>
        (let became_non_empty = (q_items q = [] \<and> queue \<noteq> [])
         in (q\<lparr>q_items := queue, q_permit := q_permit q \<or> became_non_empty\<rparr>, dropped)))"

fun position :: "('a \<Rightarrow> bool) \<Rightarrow> 'a list \<Rightarrow> nat option" where
  "position P [] = None"
| "position P (x # xs) = (if P x then Some 0 else map_option Suc (position P xs))"

definition pop_count :: "nat \<Rightarrow> ('a \<Rightarrow> 'a \<Rightarrow> bool) option \<Rightarrow> 'a list \<Rightarrow> nat" where
  "pop_count maximum same_run queue =
     (let count = (if maximum = 0 then length queue else min (length queue) maximum)
      in case same_run of
           None \<Rightarrow> count
         | Some predicate \<Rightarrow>
             if count > 1
             then (case position (\<lambda>item. \<not> predicate (hd queue) item) (take count queue) of
                     None \<Rightarrow> count | Some i \<Rightarrow> i)
             else count)"

definition pop :: "nat \<Rightarrow> ('a \<Rightarrow> 'a \<Rightarrow> bool) option \<Rightarrow> 'a data_packet_queue \<Rightarrow> 'a data_packet_queue \<times> 'a list" where
  "pop maximum same_run q =
     (let count = pop_count maximum same_run (q_items q); rest = drop count (q_items q)
      in (q\<lparr>q_items := rest, q_permit := q_permit q \<or> rest \<noteq> []\<rparr>, take count (q_items q)))"

definition queue_drain :: "'a data_packet_queue \<Rightarrow> 'a data_packet_queue \<times> 'a list" where
  "queue_drain q = (q\<lparr>q_items := []\<rparr>, q_items q)"

subsection \<open>Overflow policies\<close>

lemma push_items_oldest:
  "0 < cap \<Longrightarrow> length q \<le> cap \<Longrightarrow> push_items cap DropOldest xs q d = (q', d') \<Longrightarrow>
   length q' = min cap (length q + length xs) \<and> d' @ q' = d @ q @ xs"
proof (induction xs arbitrary: q d)
  case (Cons x xs)
  show ?case
  proof (cases "length q = cap")
    case True
    then obtain h t where q: "q = h # t" using Cons.prems by (cases q) auto
    with True Cons.prems Cons.IH [of "t @ [x]" "d @ [h]"] show ?thesis by simp
  next
    case False
    with Cons.prems Cons.IH [of "q @ [x]" d] show ?thesis by simp
  qed
qed simp

lemma push_items_newest:
  "length q \<le> cap \<Longrightarrow> push_items cap DropNewest xs q d = (q', d') \<Longrightarrow>
   length q' = min cap (length q + length xs) \<and> (\<exists>e. d' = d @ e \<and> q' @ e = q @ xs)"
proof (induction xs arbitrary: q d)
  case (Cons x xs)
  show ?case
  proof (cases "length q = cap")
    case True
    with Cons.prems have "push_items cap DropNewest xs q (d @ [x]) = (q', d')" by simp
    from Cons.IH [OF Cons.prems(1) this] True obtain e where
      e: "length q' = cap" "d' = (d @ [x]) @ e" "q' @ e = q @ xs" by auto
    then have "q' = q" "e = xs" using True by (simp_all add: append_eq_append_conv)
    with True e show ?thesis by (intro conjI exI [of _ "x # xs"]) auto
  next
    case False
    with Cons.prems Cons.IH [of "q @ [x]" d] show ?thesis by simp
  qed
qed simp

lemma push_items_all:
  assumes "0 < cap" "length q \<le> cap" "push_items cap p xs q [] = (q', d)"
  shows "length q' = min cap (length q + length xs)
    \<and> (case p of DropOldest \<Rightarrow> d @ q' | DropNewest \<Rightarrow> q' @ d) = q @ xs"
  using assms push_items_oldest [of cap q xs "[]" q' d] push_items_newest [of q cap xs "[]" q' d]
  by (cases p) auto

text \<open>
  Pushing a batch never overflows the queue and never loses a packet silently: with
  \<open>DropOldest\<close> the packets returned as dropped are the oldest ones and the queue holds the newest
  up to capacity, with \<open>DropNewest\<close> the other way round, in order in both cases.
\<close>

theorem push_batch_exact:
  assumes "0 < q_capacity q" "length (q_items q) \<le> q_capacity q"
  shows "case push_batch xs policy q of (q', dropped) \<Rightarrow>
     length (q_items q') = min (q_capacity q) (length (q_items q) + length xs)
     \<and> (case policy of
          DropOldest \<Rightarrow> dropped @ q_items q' = q_items q @ xs
        | DropNewest \<Rightarrow> q_items q' @ dropped = q_items q @ xs)"
proof -
  obtain r e where p: "push_items (q_capacity q) policy xs (q_items q) [] = (r, e)" by fastforce
  from push_items_all [OF assms p] p show ?thesis
    by (cases policy) (simp_all add: push_batch_def Let_def)
qed

theorem push_batch_exact_witness:
  "case push_batch [3, 4, 5 :: nat] DropOldest \<lparr>q_capacity = 2, q_items = [1], q_permit = True\<rparr> of
     (q', dropped) \<Rightarrow> dropped @ q_items q' = [1, 3, 4, 5] \<and> length (q_items q') = 2"
  using push_batch_exact [of "\<lparr>q_capacity = 2, q_items = [1 :: nat], q_permit = True\<rparr>" "[3, 4, 5]" DropOldest]
  by (simp add: split_def)

subsection \<open>No packet is stranded\<close>

text \<open>
  The consumer alternates between waiting for the permit and popping a batch. Producers push at
  any moment; \<open>cs_awake\<close> says the consumer has taken a permit and not yet popped.
\<close>

record 'a consumer_state =
  cs_queue :: "'a data_packet_queue"
  cs_awake :: bool
  cs_output :: "'a list"
  cs_dropped :: "'a list"

datatype 'a queue_event = Push "'a list" queue_overflow_policy | Wait | Pop nat "('a \<Rightarrow> 'a \<Rightarrow> bool) option"

fun queue_step :: "'a queue_event \<Rightarrow> 'a consumer_state \<Rightarrow> 'a consumer_state" where
  "queue_step (Push items policy) s =
     (case push_batch items policy (cs_queue s) of (q, dropped) \<Rightarrow>
        s\<lparr>cs_queue := q, cs_dropped := cs_dropped s @ dropped\<rparr>)"
| "queue_step Wait s =
     (if q_permit (cs_queue s) then s\<lparr>cs_queue := (cs_queue s)\<lparr>q_permit := False\<rparr>, cs_awake := True\<rparr> else s)"
| "queue_step (Pop maximum same_run) s =
     (if cs_awake s then
        (case pop maximum same_run (cs_queue s) of (q, out) \<Rightarrow>
           s\<lparr>cs_queue := q, cs_awake := False, cs_output := cs_output s @ out\<rparr>)
      else s)"

definition queue_wf :: "nat \<Rightarrow> 'a consumer_state \<Rightarrow> bool" where
  "queue_wf cap s \<longleftrightarrow> q_capacity (cs_queue s) = cap \<and> length (q_items (cs_queue s)) \<le> cap
     \<and> (q_items (cs_queue s) = [] \<or> q_permit (cs_queue s) \<or> cs_awake s)"

definition consumer_init :: "nat \<Rightarrow> 'a consumer_state" where
  "consumer_init cap = \<lparr>cs_queue = \<lparr>q_capacity = cap, q_items = [], q_permit = False\<rparr>, cs_awake = False,
     cs_output = [], cs_dropped = []\<rparr>"

fun pushed :: "'a queue_event \<Rightarrow> 'a list" where
  "pushed (Push items _) = items"
| "pushed _ = []"

lemma push_batch_wf:
  assumes "0 < q_capacity q" "length (q_items q) \<le> q_capacity q" "push_batch xs p q = (q', d)"
  shows "q_capacity q' = q_capacity q" "length (q_items q') \<le> q_capacity q"
    "q_permit q \<Longrightarrow> q_permit q'" "q_items q = [] \<Longrightarrow> q_items q' \<noteq> [] \<Longrightarrow> q_permit q'"
    "mset d + mset (q_items q') = mset (q_items q) + mset xs"
proof -
  obtain r e where p: "push_items (q_capacity q) p xs (q_items q) [] = (r, e)" by fastforce
  note P = push_items_all [OF assms(1,2) p]
  have q': "q' = q\<lparr>q_items := r, q_permit := q_permit q \<or> (q_items q = [] \<and> r \<noteq> [])\<rparr>" "d = e"
    using assms(3) p by (auto simp: push_batch_def Let_def)
  show "q_capacity q' = q_capacity q" "length (q_items q') \<le> q_capacity q"
    "q_permit q \<Longrightarrow> q_permit q'" "q_items q = [] \<Longrightarrow> q_items q' \<noteq> [] \<Longrightarrow> q_permit q'"
    using P by (auto simp: q')
  have "mset (q_items q @ xs) = mset e + mset r" using P by (cases p) (metis add.commute mset_append queue_overflow_policy.simps(3,4))+
  then show "mset d + mset (q_items q') = mset (q_items q) + mset xs" by (simp add: q')
qed

interpretation packet_queue: event_system "consumer_init cap" queue_step "\<lambda>s. cap = 0 \<or> queue_wf cap s" for cap
proof
  show "cap = 0 \<or> queue_wf cap (consumer_init cap)" by (simp add: queue_wf_def consumer_init_def)
  fix s :: "'a consumer_state" and e
  assume "cap = 0 \<or> queue_wf cap s"
  then consider "cap = 0" | "0 < cap" "queue_wf cap s" by auto
  then show "cap = 0 \<or> queue_wf cap (queue_step e s)"
  proof cases
    case 2
    show ?thesis
    proof (cases e)
      case (Push xs p)
      obtain q d where b: "push_batch xs p (cs_queue s) = (q, d)" by fastforce
      have "0 < q_capacity (cs_queue s)" "length (q_items (cs_queue s)) \<le> q_capacity (cs_queue s)"
        using 2 by (auto simp: queue_wf_def)
      note B = push_batch_wf [OF this b]
      show ?thesis using Push b B 2 by (auto simp: queue_wf_def)
    qed (use 2 in \<open>auto simp: queue_wf_def pop_def Let_def\<close>)
  qed simp
qed

lemma queue_step_mset:
  assumes "queue_wf cap s" "0 < cap"
  shows "mset (cs_output (queue_step e s)) + mset (cs_dropped (queue_step e s)) + mset (q_items (cs_queue (queue_step e s)))
    = mset (cs_output s) + mset (cs_dropped s) + mset (q_items (cs_queue s)) + mset (pushed e)"
proof (cases e)
  case (Push xs p)
  obtain q d where b: "push_batch xs p (cs_queue s) = (q, d)" by fastforce
  have "mset d + mset (q_items q) = mset (q_items (cs_queue s)) + mset xs"
    using assms push_batch_wf(5) [OF _ _ b] by (simp add: queue_wf_def)
  with Push b show ?thesis by (simp add: ac_simps)
next
  case (Pop n r)
  have "mset (take k xs) + mset (drop k xs) = mset xs" for k and xs :: "'a list"
    by (metis append_take_drop_id mset_append)
  with Pop show ?thesis by (auto simp: pop_def Let_def ac_simps)
qed auto

text \<open>
  Property C24. For a queue of positive capacity, however pushes, wakeups and pops interleave, the
  queue stays within its capacity, every packet pushed is either popped, reported as dropped or
  still queued, and packets never wait without a wakeup: when the queue is nonempty either a permit
  is stored or the consumer is awake and about to pop.
\<close>

theorem queue_conserves_and_wakes:
  assumes "0 < cap"
  shows "let s = fold queue_step es (consumer_init cap)
   in length (q_items (cs_queue s)) \<le> cap
      \<and> mset (concat (map pushed es)) = mset (cs_output s) + mset (cs_dropped s) + mset (q_items (cs_queue s))
      \<and> (q_items (cs_queue s) = [] \<or> q_permit (cs_queue s) \<or> cs_awake s)"
proof -
  have w: "queue_wf cap (fold queue_step es (consumer_init cap))" for es :: "'a queue_event list"
    using packet_queue.invar_reached [of cap es] assms by simp
  have "mset (concat (map pushed es)) = mset (cs_output (fold queue_step es (consumer_init cap)))
      + mset (cs_dropped (fold queue_step es (consumer_init cap)))
      + mset (q_items (cs_queue (fold queue_step es (consumer_init cap))))" for es :: "'a queue_event list"
  proof (induction es rule: rev_induct)
    case Nil
    then show ?case by (simp add: consumer_init_def)
  next
    case (snoc e es)
    with queue_step_mset [OF w [of es] assms, of e] show ?case by simp
  qed
  with w [of es] show ?thesis by (simp add: Let_def queue_wf_def)
qed

theorem queue_conserves_and_wakes_witness:
  "let s = fold queue_step [Push [1, 2, 3 :: nat] DropNewest, Wait, Pop 1 None] (consumer_init 2)
   in q_items (cs_queue s) = [2] \<and> cs_output s = [1] \<and> cs_dropped s = [3] \<and> (q_permit (cs_queue s) \<or> cs_awake s)"
  using queue_conserves_and_wakes [of 2 "[Push [1, 2, 3 :: nat] DropNewest, Wait, Pop 1 None]"]
  by (simp add: Let_def consumer_init_def push_batch_def pop_def pop_count_def)

end
