(* ===== verification/Ovpn_Keys.thy ===== *)
theory Ovpn_Keys
  imports Ovpn_Session "HOL-Library.Multiset"
begin

text \<open>
  Key handover at a TLS soft reset: the ring of receive keys with the active outbound key
  (\<open>protocol/openvpn/data_key_ring.rs\<close>). The shared \<open>Arc<SessionManager>\<close> of an entry is its session
  value, which the ring stores and never changes; the payload \<open>T\<close> is the type \<open>'v\<close>.
\<close>

subsection \<open>The data key ring\<close>

definition OPENVPN_TLS_TRANSITION_WINDOW :: duration where "OPENVPN_TLS_TRANSITION_WINDOW = secs 3600"
definition OPENVPN_TLS_KEY_SCAN_SIZE :: nat where "OPENVPN_TLS_KEY_SCAN_SIZE = 3"

record 'v receive_key_state =
  rk_key_id :: u8
  rk_sequence :: u64
  rk_session :: session
  rk_value :: 'v
  rk_expires_at :: "instant option"

record 'v data_key_ring =
  kr_receive :: "'v receive_key_state list"
  kr_send_key_id :: u8
  kr_send_sequence :: u64
  kr_promoted_sequence :: u64
  kr_transition_window :: duration
  kr_scan_size :: nat

datatype data_key_ring_error = InvalidSoftResetKeyId u8 | MissingStagedKey

definition ring_with_limits :: "u8 \<Rightarrow> session \<Rightarrow> 'v \<Rightarrow> duration \<Rightarrow> nat \<Rightarrow> 'v data_key_ring" where
  "ring_with_limits key_id ses value transition_window scan_size =
     \<lparr>kr_receive = [\<lparr>rk_key_id = key_id, rk_sequence = 0, rk_session = ses, rk_value = value,
                     rk_expires_at = None\<rparr>],
      kr_send_key_id = key_id, kr_send_sequence = 0, kr_promoted_sequence = 0,
      kr_transition_window = transition_window, kr_scan_size = max scan_size 1\<rparr>"

definition ring_new :: "u8 \<Rightarrow> session \<Rightarrow> 'v \<Rightarrow> 'v data_key_ring" where
  "ring_new key_id ses value =
     ring_with_limits key_id ses value OPENVPN_TLS_TRANSITION_WINDOW OPENVPN_TLS_KEY_SCAN_SIZE"

definition next_soft_reset_key_id :: "'v data_key_ring \<Rightarrow> u8" where
  "next_soft_reset_key_id r = next_key_id (kr_send_key_id r)"

definition is_send_entry :: "'v data_key_ring \<Rightarrow> 'v receive_key_state \<Rightarrow> bool" where
  "is_send_entry r e \<longleftrightarrow> rk_key_id e = kr_send_key_id r \<and> rk_sequence e = kr_send_sequence r"

definition current_send :: "'v data_key_ring \<Rightarrow> 'v receive_key_state option" where
  "current_send r = find (is_send_entry r) (kr_receive r)"

definition validate_soft_reset_key_id :: "u8 \<Rightarrow> data_key_ring_error + unit" where
  "validate_soft_reset_key_id key_id =
     (if 1 \<le> key_id \<and> key_id \<le> 7 then Inr () else Inl (InvalidSoftResetKeyId key_id))"

definition sort_and_limit :: "'v data_key_ring \<Rightarrow> 'v data_key_ring" where
  "sort_and_limit r =
     (let receive = sort_key rk_sequence (kr_receive r)
      in r\<lparr>kr_receive := (if length receive > kr_scan_size r
                           then drop (length receive - kr_scan_size r) receive else receive)\<rparr>)"

definition ring_prune :: "instant \<Rightarrow> 'v data_key_ring \<Rightarrow> 'v data_key_ring" where
  "ring_prune now r =
     sort_and_limit (r\<lparr>kr_receive := filter (\<lambda>e. case rk_expires_at e of
        None \<Rightarrow> True | Some expires_at \<Rightarrow> now < expires_at) (kr_receive r)\<rparr>)"

definition stage :: "u8 \<Rightarrow> u64 \<Rightarrow> session \<Rightarrow> 'v \<Rightarrow> instant \<Rightarrow> 'v data_key_ring
    \<Rightarrow> 'v data_key_ring \<times> (data_key_ring_error + unit)" where
  "stage key_id sequence ses value now r =
     (case validate_soft_reset_key_id key_id of
        Inl e \<Rightarrow> (r, Inl e)
      | Inr _ \<Rightarrow>
          (sort_and_limit (r\<lparr>kr_receive := filter (\<lambda>e. rk_key_id e \<noteq> key_id) (kr_receive r)
             @ [\<lparr>rk_key_id = key_id, rk_sequence = sequence, rk_session = ses, rk_value = value,
                 rk_expires_at = Some (now + kr_transition_window r)\<rparr>]\<rparr>), Inr ()))"

fun find_index :: "('a \<Rightarrow> bool) \<Rightarrow> 'a list \<Rightarrow> nat option" where
  "find_index P [] = None"
| "find_index P (x # xs) = (if P x then Some 0 else map_option Suc (find_index P xs))"

definition promote :: "u8 \<Rightarrow> u64 \<Rightarrow> instant \<Rightarrow> 'v data_key_ring
    \<Rightarrow> 'v data_key_ring \<times> (data_key_ring_error + bool)" where
  "promote key_id sequence now r =
     (case validate_soft_reset_key_id key_id of
        Inl e \<Rightarrow> (r, Inl e)
      | Inr _ \<Rightarrow>
          if sequence \<le> kr_promoted_sequence r then (r, Inr False)
          else case find_index (\<lambda>e. rk_key_id e = key_id \<and> rk_sequence e = sequence) (kr_receive r) of
            None \<Rightarrow> (r, Inl MissingStagedKey)
          | Some new_index \<Rightarrow>
              (let receive = map (\<lambda>e. if is_send_entry r e
                     then e\<lparr>rk_expires_at := Some (now + kr_transition_window r)\<rparr> else e) (kr_receive r);
                   receive' = receive[new_index := (receive ! new_index)\<lparr>rk_expires_at := None\<rparr>]
               in (ring_prune now (r\<lparr>kr_receive := receive', kr_send_key_id := key_id,
                     kr_send_sequence := sequence, kr_promoted_sequence := sequence\<rparr>), Inr True)))"

definition discard :: "u8 \<Rightarrow> u64 \<Rightarrow> 'v data_key_ring \<Rightarrow> 'v data_key_ring" where
  "discard key_id sequence r =
     (if key_id = kr_send_key_id r \<and> sequence = kr_send_sequence r then r
      else r\<lparr>kr_receive := filter (\<lambda>e. rk_key_id e \<noteq> key_id \<or> rk_sequence e \<noteq> sequence) (kr_receive r)\<rparr>)"

definition select_receive :: "u8 \<Rightarrow> instant \<Rightarrow> 'v data_key_ring \<Rightarrow> 'v data_key_ring \<times> 'v receive_key_state option" where
  "select_receive key_id now r =
     (let r' = ring_prune now r in (r', find (\<lambda>e. rk_key_id e = key_id) (kr_receive r')))"

definition retained_key_ids :: "instant \<Rightarrow> 'v data_key_ring \<Rightarrow> 'v data_key_ring \<times> u8 list" where
  "retained_key_ids now r = (let r' = ring_prune now r in (r', map rk_key_id (kr_receive r')))"

subsection \<open>Ring invariant\<close>

definition ring_wf :: "'v data_key_ring \<Rightarrow> bool" where
  "ring_wf r \<longleftrightarrow> distinct (map rk_key_id (kr_receive r)) \<and> length (kr_receive r) \<le> kr_scan_size r
     \<and> kr_promoted_sequence r = kr_send_sequence r \<and> 1 \<le> kr_scan_size r"

lemma sort_and_limit_fields [simp]:
  "kr_send_key_id (sort_and_limit r) = kr_send_key_id r"
  "kr_send_sequence (sort_and_limit r) = kr_send_sequence r"
  "kr_promoted_sequence (sort_and_limit r) = kr_promoted_sequence r"
  "kr_scan_size (sort_and_limit r) = kr_scan_size r"
  by (simp_all add: sort_and_limit_def Let_def)

lemma distinct_map_sort_key: "distinct (map f (sort_key g xs)) = distinct (map f xs)"
  by (intro mset_eq_imp_distinct_iff) (metis mset_map mset_sort)

lemma sort_and_limit_wf:
  assumes "distinct (map rk_key_id (kr_receive r))" "kr_promoted_sequence r = kr_send_sequence r" "1 \<le> kr_scan_size r"
  shows "ring_wf (sort_and_limit r)"
proof -
  have "distinct (map rk_key_id (drop n (sort_key rk_sequence (kr_receive r))))" for n
    using assms(1) by (simp only: drop_map [symmetric] distinct_drop distinct_map_sort_key)
  with assms show ?thesis by (auto simp: ring_wf_def sort_and_limit_def Let_def distinct_map_sort_key)
qed

lemma sort_and_limit_short:
  "length (kr_receive r) \<le> kr_scan_size r \<Longrightarrow> set (kr_receive (sort_and_limit r)) = set (kr_receive r)"
  by (simp add: sort_and_limit_def Let_def)

lemma ring_prune_wf [inv_intros]: "ring_wf r \<Longrightarrow> ring_wf (ring_prune now r)"
  unfolding ring_prune_def by (rule sort_and_limit_wf) (auto simp: ring_wf_def distinct_map_filter)

lemma stage_wf [inv_intros]: "ring_wf r \<Longrightarrow> ring_wf (fst (stage k q ses v now r))"
proof (cases "validate_soft_reset_key_id k")
  case (Inr u)
  assume "ring_wf r"
  with Inr show ?thesis
    by (auto simp: stage_def ring_wf_def [of r] distinct_map_filter intro!: sort_and_limit_wf)
qed (simp add: stage_def)

lemma find_index_Some:
  "find_index P xs = Some i \<Longrightarrow> i < length xs \<and> P (xs ! i)"
  by (induction xs arbitrary: i) (auto split: if_splits)

definition promoted_ring :: "u8 \<Rightarrow> u64 \<Rightarrow> instant \<Rightarrow> nat \<Rightarrow> 'v data_key_ring \<Rightarrow> 'v data_key_ring" where
  "promoted_ring k q now i r =
     (let receive = map (\<lambda>e. if is_send_entry r e
            then e\<lparr>rk_expires_at := Some (now + kr_transition_window r)\<rparr> else e) (kr_receive r)
      in r\<lparr>kr_receive := receive[i := (receive ! i)\<lparr>rk_expires_at := None\<rparr>],
           kr_send_key_id := k, kr_send_sequence := q, kr_promoted_sequence := q\<rparr>)"

lemma promoted_ring_ids: "i < length (kr_receive r) \<Longrightarrow> map rk_key_id (kr_receive (promoted_ring k q now i r)) = map rk_key_id (kr_receive r)"
  by (auto simp: promoted_ring_def Let_def intro!: nth_equalityI) (auto simp: nth_list_update)

lemma promote_cases:
  "promote k q now r =
     (if \<not> (1 \<le> k \<and> k \<le> 7) then (r, Inl (InvalidSoftResetKeyId k))
      else if q \<le> kr_promoted_sequence r then (r, Inr False)
      else case find_index (\<lambda>e. rk_key_id e = k \<and> rk_sequence e = q) (kr_receive r) of
             None \<Rightarrow> (r, Inl MissingStagedKey)
           | Some i \<Rightarrow> (ring_prune now (promoted_ring k q now i r), Inr True))"
  by (auto simp: promote_def validate_soft_reset_key_id_def promoted_ring_def Let_def split: option.splits)

lemma promoted_ring_wf: "ring_wf r \<Longrightarrow> i < length (kr_receive r) \<Longrightarrow> ring_wf (promoted_ring k q now i r)"
  using promoted_ring_ids [of i r k q now]
  by (auto simp: ring_wf_def) (simp_all add: promoted_ring_def Let_def)

lemma promote_wf [inv_intros]: "ring_wf r \<Longrightarrow> ring_wf (fst (promote k q now r))"
  by (auto simp: promote_cases split: option.splits intro!: ring_prune_wf promoted_ring_wf dest!: find_index_Some)

lemma discard_wf [inv_intros]: "ring_wf r \<Longrightarrow> ring_wf (discard k q r)"
  by (auto simp: discard_def ring_wf_def distinct_map_filter intro: order.trans [OF length_filter_le])

datatype 'v ring_event =
  RingStage u8 u64 session 'v instant | RingPromote u8 u64 instant | RingDiscard u8 u64 | RingPrune instant

fun ring_step :: "'v ring_event \<Rightarrow> 'v data_key_ring \<Rightarrow> 'v data_key_ring" where
  "ring_step (RingStage k q ses v now) r = fst (stage k q ses v now r)"
| "ring_step (RingPromote k q now) r = fst (promote k q now r)"
| "ring_step (RingDiscard k q) r = discard k q r"
| "ring_step (RingPrune now) r = ring_prune now r"

interpretation key_ring: event_system "ring_with_limits k ses v w n" ring_step ring_wf for k ses v w n
proof
  show "ring_wf (ring_with_limits k ses v w n)" by (simp add: ring_wf_def ring_with_limits_def)
  show "ring_wf (ring_step e r)" if "ring_wf r" for r :: "'v data_key_ring" and e
    using that by (cases e) (simp_all add: stage_wf promote_wf discard_wf ring_prune_wf)
qed

subsection \<open>Promotion\<close>

lemma find_unique:
  assumes "x \<in> set xs" "P x" "\<And>y. y \<in> set xs \<Longrightarrow> P y \<Longrightarrow> y = x"
  shows "find P xs = Some x"
proof (cases "find P xs")
  case None
  with assms(1,2) show ?thesis by (simp add: find_None_iff)
next
  case (Some y)
  then have "y \<in> set xs \<and> P y" by (auto simp: find_Some_iff)
  with assms(3) Some show ?thesis by blast
qed

lemma ring_prune_set:
  "length (kr_receive r) \<le> kr_scan_size r \<Longrightarrow>
   set (kr_receive (ring_prune now r)) =
     {e \<in> set (kr_receive r). case rk_expires_at e of None \<Rightarrow> True | Some t \<Rightarrow> now < t}"
proof -
  assume l: "length (kr_receive r) \<le> kr_scan_size r"
  have "length (filter P (kr_receive r)) \<le> kr_scan_size r" for P
    using l length_filter_le le_trans by blast
  then show ?thesis unfolding ring_prune_def by (subst sort_and_limit_short) simp_all
qed

lemma current_send_unique:
  assumes "ring_wf r" "e \<in> set (kr_receive r)" "is_send_entry r e"
  shows "current_send r = Some e"
  unfolding current_send_def
proof (rule find_unique [of e "kr_receive r" "is_send_entry r", OF assms(2,3)])
  fix f assume "f \<in> set (kr_receive r)" "is_send_entry r f"
  with assms show "f = e" by (auto simp: ring_wf_def is_send_entry_def distinct_map inj_on_def)
qed

lemma promoted_ring_entries:
  assumes wf: "ring_wf r" and i: "i < length (kr_receive r)" and e: "kr_receive r ! i = e"
    "rk_key_id e = k" "rk_sequence e = q" and q: "kr_promoted_sequence r < q"
  shows "e\<lparr>rk_expires_at := None\<rparr> \<in> set (kr_receive (promoted_ring k q now i r))"
    and "current_send r = Some f \<Longrightarrow>
      f\<lparr>rk_expires_at := Some (now + kr_transition_window r)\<rparr> \<in> set (kr_receive (promoted_ring k q now i r))"
proof -
  let ?g = "\<lambda>e. if is_send_entry r e then e\<lparr>rk_expires_at := Some (now + kr_transition_window r)\<rparr> else e"
  have rec: "kr_receive (promoted_ring k q now i r) = (map ?g (kr_receive r))[i := (?g e)\<lparr>rk_expires_at := None\<rparr>]"
    using i e(1) by (simp add: promoted_ring_def Let_def)
  have ns: "\<not> is_send_entry r e" using wf e(3) q by (auto simp: is_send_entry_def ring_wf_def)
  show "e\<lparr>rk_expires_at := None\<rparr> \<in> set (kr_receive (promoted_ring k q now i r))"
    unfolding rec using ns i by (simp add: set_update_memI)
  assume f: "current_send r = Some f"
  then obtain j where j: "j < length (kr_receive r)" "kr_receive r ! j = f" "is_send_entry r f"
    by (auto simp: current_send_def find_Some_iff)
  then have "j \<noteq> i" using ns e(1) by blast
  then have "(map ?g (kr_receive r))[i := x] ! j = f\<lparr>rk_expires_at := Some (now + kr_transition_window r)\<rparr>" for x
    using j by simp
  moreover have "(map ?g (kr_receive r))[i := x] ! j \<in> set ((map ?g (kr_receive r))[i := x])" for x
    by (rule nth_mem) (simp add: j(1))
  ultimately show "f\<lparr>rk_expires_at := Some (now + kr_transition_window r)\<rparr> \<in> set (kr_receive (promoted_ring k q now i r))"
    unfolding rec by simp
qed

lemma promote_installs:
  assumes wf: "ring_wf r" and p: "promote k q now r = (r', Inr True)"
  shows "kr_promoted_sequence r < kr_promoted_sequence r'"
    and "\<exists>e. current_send r' = Some e \<and> rk_key_id e = k \<and> rk_sequence e = q \<and> rk_expires_at e = None"
    and "current_send r = Some f \<Longrightarrow> 0 < kr_transition_window r \<Longrightarrow>
      f\<lparr>rk_expires_at := Some (now + kr_transition_window r)\<rparr> \<in> set (kr_receive r')"
proof -
  obtain i where i: "find_index (\<lambda>e. rk_key_id e = k \<and> rk_sequence e = q) (kr_receive r) = Some i"
    and q: "kr_promoted_sequence r < q" and r': "r' = ring_prune now (promoted_ring k q now i r)"
    using p by (auto simp: promote_cases split: if_splits option.splits)
  define e where "e = kr_receive r ! i"
  from find_index_Some [OF i] have il: "i < length (kr_receive r)" and e: "rk_key_id e = k" "rk_sequence e = q"
    by (auto simp: e_def)
  have wf1: "ring_wf (promoted_ring k q now i r)" by (rule promoted_ring_wf [OF wf il])
  note E = promoted_ring_entries [OF wf il e_def [symmetric] e q, where now = now]
  have sel: "kr_send_key_id r' = k" "kr_send_sequence r' = q" "kr_promoted_sequence r' = q"
    by (simp_all add: r' ring_prune_def promoted_ring_def Let_def)
  note set' = ring_prune_set [of "promoted_ring k q now i r" now, folded r']
  have l: "length (kr_receive (promoted_ring k q now i r)) \<le> kr_scan_size (promoted_ring k q now i r)"
    using wf1 by (simp add: ring_wf_def)
  show "kr_promoted_sequence r < kr_promoted_sequence r'" using q sel by simp
  have "e\<lparr>rk_expires_at := None\<rparr> \<in> set (kr_receive r')" using E(1) set' [OF l] by simp
  moreover have "ring_wf r'" using wf1 r' ring_prune_wf by blast
  moreover have "is_send_entry r' (e\<lparr>rk_expires_at := None\<rparr>)" using e sel by (simp add: is_send_entry_def)
  ultimately have "current_send r' = Some (e\<lparr>rk_expires_at := None\<rparr>)" using current_send_unique by blast
  with e show "\<exists>e. current_send r' = Some e \<and> rk_key_id e = k \<and> rk_sequence e = q \<and> rk_expires_at e = None"
    by simp
  show "f\<lparr>rk_expires_at := Some (now + kr_transition_window r)\<rparr> \<in> set (kr_receive r')"
    if "current_send r = Some f" "0 < kr_transition_window r" using E(2) [OF that(1)] that(2) set' [OF l] by simp
qed

text \<open>
  Property C26. In every state the key ring can reach, promoting a staged key makes exactly that key
  the outbound key, with no expiry and a strictly higher promotion sequence, and keeps the previous
  outbound key for receiving until the transition window has passed; a promotion that lost the race
  against a newer one, or that names an unknown key, changes nothing.
\<close>

theorem promotion_exact:
  "let r = fold ring_step es (ring_with_limits k0 ses v w n)
   in case promote k q now r of
        (r', Inl _) \<Rightarrow> r' = r
      | (r', Inr False) \<Rightarrow> r' = r \<and> q \<le> kr_promoted_sequence r
      | (r', Inr True) \<Rightarrow> kr_promoted_sequence r < kr_promoted_sequence r'
          \<and> (\<exists>e. current_send r' = Some e \<and> rk_key_id e = k \<and> rk_sequence e = q \<and> rk_expires_at e = None)
          \<and> (case current_send r of
               None \<Rightarrow> True
             | Some f \<Rightarrow> kr_transition_window r = 0
                 \<or> f\<lparr>rk_expires_at := Some (now + kr_transition_window r)\<rparr> \<in> set (kr_receive r'))"
proof -
  define r where "r = fold ring_step es (ring_with_limits k0 ses v w n)"
  have wf: "ring_wf r" unfolding r_def by (rule key_ring.invar_reached)
  obtain r' res where p: "promote k q now r = (r', res)" by fastforce
  show ?thesis
  proof (cases "res = Inr True")
    case True
    from promote_installs [OF wf p [unfolded True]] show ?thesis
      unfolding Let_def r_def [symmetric] p True by (auto split: option.splits)
  next
    case False
    then have "(\<exists>e. res = Inl e) \<and> r' = r \<or> res = Inr False \<and> r' = r \<and> q \<le> kr_promoted_sequence r"
      using p by (auto simp: promote_cases split: option.splits if_splits)
    then show ?thesis unfolding Let_def r_def [symmetric] p by auto
  qed
qed

lemma promoted_sequence_mono: "kr_promoted_sequence r \<le> kr_promoted_sequence (ring_step e r)"
proof (cases e)
  case (RingPromote k q now)
  then show ?thesis
    by (auto simp: promote_cases ring_prune_def promoted_ring_def Let_def split: option.split)
next
  case (RingStage k q ses v now)
  then show ?thesis by (simp add: stage_def split: sum.split)
qed (simp_all add: discard_def ring_prune_def)

text \<open>
  Property C38. Outbound traffic never rolls back to an older key: along every run of the ring the
  sequence number of the outbound key only grows.
\<close>

theorem send_sequence_monotone:
  "kr_send_sequence (fold ring_step es (ring_with_limits k ses v w n))
     \<le> kr_send_sequence (fold ring_step (es @ fs) (ring_with_limits k ses v w n))"
proof -
  have wf: "ring_wf (fold ring_step es (ring_with_limits k ses v w n))" for es :: "'a ring_event list"
    by (rule key_ring.invar_reached)
  have "kr_promoted_sequence r \<le> kr_promoted_sequence (fold ring_step fs r)" for r :: "'a data_key_ring"
  proof (induction fs arbitrary: r)
    case (Cons e fs)
    from promoted_sequence_mono [of r e] Cons [of "ring_step e r"] show ?case by simp
  qed simp
  then have "kr_promoted_sequence (fold ring_step es (ring_with_limits k ses v w n))
      \<le> kr_promoted_sequence (fold ring_step (es @ fs) (ring_with_limits k ses v w n))" by simp
  moreover have "kr_promoted_sequence (fold ring_step xs (ring_with_limits k ses v w n))
      = kr_send_sequence (fold ring_step xs (ring_with_limits k ses v w n))" for xs :: "'a ring_event list"
    using wf [of xs] by (simp only: ring_wf_def)
  ultimately show ?thesis by (simp only:)
qed

text \<open>
  Staging three keys that are not promoted evicts the outbound key of a default ring:
  \<open>current_send\<close> then returns nothing, although the ring still names key 0 as the outbound key.
\<close>

theorem staging_evicts_send_key:
  "let r = fold ring_step [RingStage 1 1 ses v1 t1, RingStage 2 2 ses v2 t2, RingStage 3 3 ses v3 t3]
             (ring_new 0 ses v)
   in current_send r = None \<and> kr_send_key_id r = 0"
proof -
  let ?e = "\<lambda>k q v t. \<lparr>rk_key_id = k, rk_sequence = q, rk_session = ses, rk_value = v,
      rk_expires_at = Some (t + OPENVPN_TLS_TRANSITION_WINDOW)\<rparr>"
  define r0 where "r0 = ring_new 0 ses v"
  have r0: "kr_receive r0 = [\<lparr>rk_key_id = 0, rk_sequence = 0, rk_session = ses, rk_value = v, rk_expires_at = None\<rparr>]"
    "kr_scan_size r0 = 3" "kr_transition_window r0 = OPENVPN_TLS_TRANSITION_WINDOW" "kr_send_key_id r0 = 0" "kr_send_sequence r0 = 0"
    by (simp_all add: r0_def ring_new_def ring_with_limits_def OPENVPN_TLS_KEY_SCAN_SIZE_def)
  have st: "ring_step (RingStage k q ses x t) r = sort_and_limit (r\<lparr>kr_receive :=
      filter (\<lambda>e. rk_key_id e \<noteq> k) (kr_receive r) @ [?e k q x t]\<rparr>)"
    if "kr_transition_window r = OPENVPN_TLS_TRANSITION_WINDOW" "1 \<le> k" "k \<le> 7" for k q x t r
    using that by (simp add: stage_def validate_soft_reset_key_id_def)
  define r1 where "r1 = r0\<lparr>kr_receive := kr_receive r0 @ [?e 1 1 v1 t1]\<rparr>"
  define r2 where "r2 = r0\<lparr>kr_receive := kr_receive r0 @ [?e 1 1 v1 t1, ?e 2 2 v2 t2]\<rparr>"
  define r3 where "r3 = r0\<lparr>kr_receive := [?e 1 1 v1 t1, ?e 2 2 v2 t2, ?e 3 3 v3 t3]\<rparr>"
  have "ring_step (RingStage 1 1 ses v1 t1) r0 = r1"
    by (subst st) (simp_all add: r1_def r0 sort_and_limit_def)
  moreover have "ring_step (RingStage 2 2 ses v2 t2) r1 = r2"
    by (subst st) (simp_all add: r1_def r2_def r0 sort_and_limit_def)
  moreover have "ring_step (RingStage 3 3 ses v3 t3) r2 = r3"
    by (subst st) (simp_all add: r2_def r3_def r0 sort_and_limit_def)
  moreover have "current_send r3 = None" "kr_send_key_id r3 = 0"
    by (simp_all add: r3_def r0 current_send_def is_send_entry_def)
  ultimately show ?thesis by (simp add: Let_def r0_def [symmetric] del: ring_step.simps)
qed

end
