(* ===== verification/Ovpn_Soft_Reset.thy ===== *)
theory Ovpn_Soft_Reset
  imports Ovpn_Keys "HOL-Library.AList" "HOL-Library.Product_Lexorder"
begin

text \<open>
  The bookkeeping of TLS soft resets shared by client and server
  (\<open>protocol/openvpn/soft_reset.rs\<close>). The map of states is iterated, so it is an association list
  in hash order; every property below holds for each such order.
\<close>

datatype soft_reset_status = Negotiating | AwaitingData | Active | LameDuck | Failed

record soft_reset_state =
  sr_key_id :: u8
  sr_sequence :: u64
  sr_initiator :: bool
  sr_must_negotiate_by :: instant
  sr_status :: soft_reset_status
  sr_expires_at :: "instant option"
  sr_peer_data_confirmed :: bool

record begin_soft_reset =
  bs_key_id :: u8
  bs_sequence :: u64
  bs_created :: bool

record coordinator =
  sc_states :: "(u8 \<times> soft_reset_state) list"
  sc_active_key_id :: u8
  sc_sequence :: u64
  sc_promoted_sequence :: u64
  sc_handshake_window :: duration
  sc_transition_window :: duration
  sc_key_scan_size :: nat
  sc_closed :: bool

datatype soft_reset_error = Closed | InvalidKeyId u8 | StaleState

definition coordinator_with_limits :: "u8 \<Rightarrow> duration \<Rightarrow> duration \<Rightarrow> nat \<Rightarrow> coordinator" where
  "coordinator_with_limits active_key_id handshake_window transition_window key_scan_size =
     \<lparr>sc_states = [], sc_active_key_id = active_key_id, sc_sequence = 0, sc_promoted_sequence = 0,
      sc_handshake_window = handshake_window, sc_transition_window = transition_window,
      sc_key_scan_size = max key_scan_size 1, sc_closed = False\<rparr>"

definition coordinator_new :: "u8 \<Rightarrow> duration \<Rightarrow> coordinator" where
  "coordinator_new active_key_id handshake_window =
     coordinator_with_limits active_key_id handshake_window OPENVPN_TLS_TRANSITION_WINDOW OPENVPN_TLS_KEY_SCAN_SIZE"

definition is_pending :: "soft_reset_state \<Rightarrow> bool" where
  "is_pending st \<longleftrightarrow> sr_status st \<in> {Negotiating, AwaitingData}"

definition begin_reset :: "u8 \<Rightarrow> bool \<Rightarrow> instant \<Rightarrow> coordinator \<Rightarrow> coordinator \<times> (soft_reset_error + begin_soft_reset)" where
  "begin_reset key_id initiator now c =
     (if sc_closed c then (c, Inl Closed)
      else if key_id = 0 \<or> key_id > KEY_ID_MAX_VALUE then (c, Inl (InvalidKeyId key_id))
      else let existing = map_of (sc_states c) key_id in
        if (case existing of None \<Rightarrow> False | Some st \<Rightarrow> is_pending st \<or> sc_active_key_id c = key_id)
        then (c, Inr \<lparr>bs_key_id = key_id, bs_sequence = sr_sequence (the existing), bs_created = False\<rparr>)
        else let sequence = sc_sequence c + 1 in
          (c\<lparr>sc_sequence := sequence,
             sc_states := (key_id, \<lparr>sr_key_id = key_id, sr_sequence = sequence, sr_initiator = initiator,
               sr_must_negotiate_by = now + sc_handshake_window c, sr_status = Negotiating,
               sr_expires_at = None, sr_peer_data_confirmed = False\<rparr>) # AList.delete key_id (sc_states c)\<rparr>,
           Inr \<lparr>bs_key_id = key_id, bs_sequence = sequence, bs_created = True\<rparr>))"

text \<open>\<open>max_by_key\<close> returns the last of the maximal elements in iteration order.\<close>

fun max_by_sequence :: "soft_reset_state list \<Rightarrow> soft_reset_state option" where
  "max_by_sequence [] = None"
| "max_by_sequence (s # ss) =
     (case max_by_sequence ss of
        None \<Rightarrow> Some s
      | Some t \<Rightarrow> if sr_sequence s > sr_sequence t then Some s else Some t)"

definition begin_local :: "instant \<Rightarrow> coordinator \<Rightarrow> coordinator \<times> (soft_reset_error + begin_soft_reset)" where
  "begin_local now c =
     (case max_by_sequence (filter is_pending (map snd (sc_states c))) of
        Some st \<Rightarrow> (c, Inr \<lparr>bs_key_id = sr_key_id st, bs_sequence = sr_sequence st, bs_created = False\<rparr>)
      | None \<Rightarrow> begin_reset (next_key_id (sc_active_key_id c)) True now c)"

definition begin_remote :: "u8 \<Rightarrow> instant \<Rightarrow> coordinator \<Rightarrow> coordinator \<times> (soft_reset_error + begin_soft_reset)" where
  "begin_remote key_id now c = begin_reset key_id False now c"

definition matching_state :: "u8 \<Rightarrow> u64 \<Rightarrow> coordinator \<Rightarrow> soft_reset_error + soft_reset_state" where
  "matching_state key_id sequence c =
     (case map_of (sc_states c) key_id of
        Some st \<Rightarrow> if sr_sequence st = sequence then Inr st else Inl StaleState
      | None \<Rightarrow> Inl StaleState)"

definition set_awaiting_data :: "u8 \<Rightarrow> u64 \<Rightarrow> instant \<Rightarrow> coordinator \<Rightarrow> coordinator \<times> (soft_reset_error + unit)" where
  "set_awaiting_data key_id sequence now c =
     (case matching_state key_id sequence c of
        Inl e \<Rightarrow> (c, Inl e)
      | Inr _ \<Rightarrow>
          (c\<lparr>sc_states := AList.map_entry key_id (\<lambda>st. st\<lparr>sr_status := AwaitingData,
             sr_expires_at := Some (now + sc_transition_window c)\<rparr>) (sc_states c)\<rparr>, Inr ()))"

definition confirm_peer_data :: "u8 \<Rightarrow> coordinator \<Rightarrow> coordinator \<times> bool" where
  "confirm_peer_data key_id c =
     (case map_of (sc_states c) key_id of
        None \<Rightarrow> (c, False)
      | Some st \<Rightarrow>
          (c\<lparr>sc_states := AList.map_entry key_id (\<lambda>st. st\<lparr>sr_peer_data_confirmed := True\<rparr>) (sc_states c)\<rparr>,
           sr_status st = AwaitingData))"

definition soft_prune :: "instant \<Rightarrow> coordinator \<Rightarrow> coordinator" where
  "soft_prune now c =
     (let states = filter (\<lambda>(_, st). sr_status st \<notin> {LameDuck, AwaitingData}
            \<or> (case sr_expires_at st of None \<Rightarrow> False | Some t \<Rightarrow> now < t)) (sc_states c);
          completed = sort (map (\<lambda>(_, st). (sr_sequence st, sr_key_id st))
            (filter (\<lambda>(_, st). sr_status st \<in> {Active, LameDuck, AwaitingData}) states));
          remove_count = length completed - sc_key_scan_size c
      in c\<lparr>sc_states := fold (\<lambda>(_, key_id). AList.delete key_id) (take remove_count completed) states\<rparr>)"

definition finish_success :: "u8 \<Rightarrow> u64 \<Rightarrow> instant \<Rightarrow> coordinator \<Rightarrow> coordinator \<times> (soft_reset_error + bool)" where
  "finish_success key_id sequence now c =
     (case matching_state key_id sequence c of
        Inl e \<Rightarrow> (c, Inl e)
      | Inr _ \<Rightarrow>
          let expiry = now + sc_transition_window c in
          if sequence \<le> sc_promoted_sequence c then
            (soft_prune now (c\<lparr>sc_states := AList.map_entry key_id (\<lambda>st. st\<lparr>sr_status := LameDuck,
               sr_expires_at := Some expiry\<rparr>) (sc_states c)\<rparr>), Inr False)
          else
            (let demoted = map (\<lambda>(k, st). (k, if sr_status st = Active
                   then st\<lparr>sr_status := LameDuck, sr_expires_at := Some expiry\<rparr> else st)) (sc_states c)
             in (soft_prune now (c\<lparr>sc_states := AList.map_entry key_id (\<lambda>st. st\<lparr>sr_status := Active,
                   sr_expires_at := None\<rparr>) demoted, sc_active_key_id := key_id,
                   sc_promoted_sequence := sequence\<rparr>), Inr True)))"

definition finish_failed :: "u8 \<Rightarrow> u64 \<Rightarrow> coordinator \<Rightarrow> coordinator \<times> (soft_reset_error + unit)" where
  "finish_failed key_id sequence c =
     (case matching_state key_id sequence c of
        Inl e \<Rightarrow> (c, Inl e)
      | Inr _ \<Rightarrow> (c\<lparr>sc_states := AList.delete key_id (AList.map_entry key_id
           (\<lambda>st. st\<lparr>sr_status := Failed\<rparr>) (sc_states c))\<rparr>, Inr ()))"

definition soft_close :: "coordinator \<Rightarrow> coordinator" where
  "soft_close c = c\<lparr>sc_closed := True, sc_states := []\<rparr>"

subsection \<open>At most one active key\<close>

definition entry_ok :: "coordinator \<Rightarrow> u8 \<times> soft_reset_state \<Rightarrow> bool" where
  "entry_ok c e \<longleftrightarrow> sr_key_id (snd e) = fst e \<and> 1 \<le> fst e \<and> fst e \<le> 7
     \<and> (sr_status (snd e) = Active \<longrightarrow> fst e = sc_active_key_id c \<and> sr_sequence (snd e) = sc_promoted_sequence c)"

definition soft_wf :: "coordinator \<Rightarrow> bool" where
  "soft_wf c \<longleftrightarrow> distinct (map fst (sc_states c)) \<and> (\<forall>e \<in> set (sc_states c). entry_ok c e)"

lemma entry_ok_states [simp]: "entry_ok (c\<lparr>sc_states := m\<rparr>) = entry_ok c"
  by (simp add: fun_eq_iff entry_ok_def)

lemma soft_wf_subset:
  assumes "soft_wf c" "distinct (map fst m)" "set m \<subseteq> set (sc_states c)"
  shows "soft_wf (c\<lparr>sc_states := m\<rparr>)"
  using assms by (auto simp: soft_wf_def)

lemma delete_subset: "set (AList.delete k m) \<subseteq> set m" "distinct (map fst m) \<Longrightarrow> distinct (map fst (AList.delete k m))"
  by (auto simp: AList.delete_eq distinct_map_filter)

lemma fold_delete:
  "set (fold (\<lambda>(_, k). AList.delete k) ks m) \<subseteq> set m
   \<and> (distinct (map fst m) \<longrightarrow> distinct (map fst (fold (\<lambda>(_, k). AList.delete k) ks m)))"
proof (induction ks arbitrary: m)
  case (Cons x ks)
  obtain a k where "x = (a, k)" by fastforce
  with Cons [of "AList.delete k m"] delete_subset [where k = k and m = m] show ?case by auto
qed simp

lemma soft_wf_prune [inv_intros]:
  assumes "soft_wf c"
  shows "soft_wf (soft_prune now c)"
  unfolding soft_prune_def Let_def
proof (rule soft_wf_subset [OF assms])
  let ?P = "\<lambda>(_, st). sr_status st \<notin> {LameDuck, AwaitingData}
     \<or> (case sr_expires_at st of None \<Rightarrow> False | Some t \<Rightarrow> now < t)"
  have d: "distinct (map fst (filter ?P (sc_states c)))" using assms by (simp add: soft_wf_def distinct_map_filter)
  show "distinct (map fst (fold (\<lambda>(_, k). AList.delete k) ks (filter ?P (sc_states c))))" for ks
    using fold_delete d by blast
  show "set (fold (\<lambda>(_, k). AList.delete k) ks (filter ?P (sc_states c))) \<subseteq> set (sc_states c)" for ks
    using fold_delete [of ks "filter ?P (sc_states c)"] by auto
qed

lemma set_map_entry:
  "distinct (map fst m) \<Longrightarrow> e \<in> set (AList.map_entry k f m) \<Longrightarrow>
   (e \<in> set m \<and> fst e \<noteq> k) \<or> (\<exists>st. (k, st) \<in> set m \<and> e = (k, f st))"
  by (induction m) (auto split: if_splits)

lemma soft_wf_map_entry:
  assumes "soft_wf c" "\<And>st. (k, st) \<in> set (sc_states c) \<Longrightarrow> entry_ok c (k, f st)"
  shows "soft_wf (c\<lparr>sc_states := AList.map_entry k f (sc_states c)\<rparr>)"
proof -
  have d: "distinct (map fst (sc_states c))" using assms(1) by (simp add: soft_wf_def)
  have "entry_ok c e" if "e \<in> set (AList.map_entry k f (sc_states c))" for e
    using set_map_entry [OF d that] assms by (auto simp: soft_wf_def)
  with d show ?thesis by (simp add: soft_wf_def distinct_map_entry)
qed

lemma soft_wf_begin [inv_intros]:
  assumes "soft_wf c"
  shows "soft_wf (fst (begin_reset k i now c))"
proof -
  let ?st = "\<lparr>sr_key_id = k, sr_sequence = sc_sequence c + 1, sr_initiator = i,
     sr_must_negotiate_by = now + sc_handshake_window c, sr_status = Negotiating,
     sr_expires_at = None, sr_peer_data_confirmed = False\<rparr>"
  have "entry_ok c (k, ?st)" if "k \<noteq> 0" "\<not> k > KEY_ID_MAX_VALUE"
    using that by (auto simp: entry_ok_def KEY_ID_MAX_VALUE_def not_less word_less_nat_alt word_le_nat_alt
        Suc_le_eq unat_gt_0)
  then have "soft_wf (c\<lparr>sc_sequence := sc_sequence c + 1, sc_states := (k, ?st) # AList.delete k (sc_states c)\<rparr>)"
    if "k \<noteq> 0" "\<not> k > KEY_ID_MAX_VALUE"
    using assms that delete_subset [where k = k and m = "sc_states c"]
    by (auto simp: soft_wf_def entry_ok_def AList.delete_eq)
  with assms show ?thesis by (simp add: begin_reset_def Let_def)
qed

lemma soft_wf_begin_local [inv_intros]: "soft_wf c \<Longrightarrow> soft_wf (fst (begin_local now c))"
  by (simp add: begin_local_def soft_wf_begin split: option.split)

lemma soft_wf_awaiting [inv_intros]: "soft_wf c \<Longrightarrow> soft_wf (fst (set_awaiting_data k q now c))"
  by (auto simp: set_awaiting_data_def split: sum.split intro!: soft_wf_map_entry)
    (auto simp: soft_wf_def entry_ok_def)

lemma soft_wf_confirm [inv_intros]: "soft_wf c \<Longrightarrow> soft_wf (fst (confirm_peer_data k c))"
  by (auto simp: confirm_peer_data_def split: option.split intro!: soft_wf_map_entry)
    (auto simp: soft_wf_def entry_ok_def)

lemma soft_wf_failed [inv_intros]:
  assumes "soft_wf c"
  shows "soft_wf (fst (finish_failed k q c))"
proof -
  have "AList.delete k (AList.map_entry k f m) = AList.delete k m" for f and m :: "(u8 \<times> soft_reset_state) list"
    by (induction m) auto
  moreover have "soft_wf (c\<lparr>sc_states := AList.delete k (sc_states c)\<rparr>)"
    using assms delete_subset by (intro soft_wf_subset) (auto simp: soft_wf_def AList.delete_eq)
  ultimately show ?thesis using assms by (simp add: finish_failed_def split: sum.split)
qed

lemma soft_wf_success [inv_intros]:
  assumes "soft_wf c"
  shows "soft_wf (fst (finish_success k q now c))"
proof -
  let ?x = "Some (now + sc_transition_window c)"
  let ?dem = "map (\<lambda>(k, st). (k, if sr_status st = Active then st\<lparr>sr_status := LameDuck, sr_expires_at := ?x\<rparr> else st)) (sc_states c)"
  have late: "soft_wf (c\<lparr>sc_states := AList.map_entry k (\<lambda>st. st\<lparr>sr_status := LameDuck, sr_expires_at := ?x\<rparr>) (sc_states c)\<rparr>)"
    by (rule soft_wf_map_entry [OF assms]) (use assms in \<open>auto simp: soft_wf_def entry_ok_def\<close>)
  have d: "distinct (map fst ?dem)" using assms by (simp add: soft_wf_def split_def comp_def)
  have "soft_wf (c\<lparr>sc_states := ?dem, sc_active_key_id := k, sc_promoted_sequence := q\<rparr>)"
    using assms d by (auto simp: soft_wf_def entry_ok_def split: if_splits)
  moreover have "sr_sequence st = q" if "(k, st) \<in> set ?dem" "matching_state k q c = Inr u" for st u
  proof -
    from that(1) obtain st0 where s0: "(k, st0) \<in> set (sc_states c)" "sr_sequence st = sr_sequence st0"
      by (auto split: if_splits)
    with assms have "map_of (sc_states c) k = Some st0" by (simp add: soft_wf_def)
    with that(2) s0 show ?thesis by (simp add: matching_state_def split: if_splits)
  qed
  ultimately have "soft_wf (c\<lparr>sc_states := AList.map_entry k (\<lambda>st. st\<lparr>sr_status := Active, sr_expires_at := None\<rparr>) ?dem,
      sc_active_key_id := k, sc_promoted_sequence := q\<rparr>)" if "matching_state k q c = Inr u" for u
    using soft_wf_map_entry [of "c\<lparr>sc_states := ?dem, sc_active_key_id := k, sc_promoted_sequence := q\<rparr>" k
        "\<lambda>st. st\<lparr>sr_status := Active, sr_expires_at := None\<rparr>"] that
    by (fastforce simp: soft_wf_def entry_ok_def)
  with late show ?thesis
    by (auto simp: finish_success_def Let_def intro!: soft_wf_prune split: sum.split simp: assms)
qed

datatype soft_event =
  SoftBeginLocal instant | SoftBeginRemote u8 instant | SoftAwaiting u8 u64 instant | SoftConfirm u8
| SoftSuccess u8 u64 instant | SoftFailed u8 u64 | SoftPrune instant | SoftClose

fun soft_step :: "soft_event \<Rightarrow> coordinator \<Rightarrow> coordinator" where
  "soft_step (SoftBeginLocal now) c = fst (begin_local now c)"
| "soft_step (SoftBeginRemote k now) c = fst (begin_remote k now c)"
| "soft_step (SoftAwaiting k q now) c = fst (set_awaiting_data k q now c)"
| "soft_step (SoftConfirm k) c = fst (confirm_peer_data k c)"
| "soft_step (SoftSuccess k q now) c = fst (finish_success k q now c)"
| "soft_step (SoftFailed k q) c = fst (finish_failed k q c)"
| "soft_step (SoftPrune now) c = soft_prune now c"
| "soft_step SoftClose c = soft_close c"

interpretation soft_resets: event_system "coordinator_with_limits k h w n" soft_step soft_wf for k h w n
proof
  show "soft_wf (coordinator_with_limits k h w n)" by (simp add: soft_wf_def coordinator_with_limits_def)
  show "soft_wf (soft_step e c)" if "soft_wf c" for c e
    using that by (cases e) (auto simp: begin_remote_def soft_close_def soft_wf_begin_local soft_wf_begin
        soft_wf_awaiting soft_wf_confirm soft_wf_success soft_wf_failed soft_wf_prune, simp add: soft_wf_def)
qed

text \<open>
  Property C25. Whatever interleaving of local and remote resets, completions, failures and pruning
  occurs, key ids are in 1..7 and each has at most one state, and at most one state is active: the
  one of the key the coordinator names as active.
\<close>

theorem soft_reset_single_active:
  "let c = fold soft_step es (coordinator_with_limits k h w n);
       active = filter (\<lambda>(_, st). sr_status st = Active) (sc_states c)
   in length active \<le> 1 \<and> fst ` set active \<subseteq> {sc_active_key_id c}
      \<and> distinct (map fst (sc_states c)) \<and> fst ` set (sc_states c) \<subseteq> {1..7}"
proof -
  define c where "c = fold soft_step es (coordinator_with_limits k h w n)"
  define active where "active = filter (\<lambda>(_, st). sr_status st = Active) (sc_states c)"
  have wf: "soft_wf c" unfolding c_def by (rule soft_resets.invar_reached)
  then have sub: "fst ` set active \<subseteq> {sc_active_key_id c}"
    by (auto simp: active_def soft_wf_def entry_ok_def)
  have "distinct (map fst active)" using wf by (simp add: active_def soft_wf_def distinct_map_filter)
  from distinct_card [OF this] sub have "length active \<le> 1"
    using card_mono [of "{sc_active_key_id c}" "fst ` set active"] by simp
  with sub wf show ?thesis
    unfolding Let_def c_def [symmetric] active_def [symmetric] by (auto simp: soft_wf_def entry_ok_def)
qed

lemma max_by_sequence_mem: "max_by_sequence ss = Some st \<Longrightarrow> st \<in> set ss"
  by (induction ss arbitrary: st) (auto split: option.splits if_splits)

lemma max_by_sequence_None: "max_by_sequence ss = None \<longleftrightarrow> ss = []"
  by (induction ss) (auto split: option.splits)

lemma next_key_id_differs: "next_key_id k \<noteq> k"
  using next_key_id_unat [of k] by (auto split: if_splits)

text \<open>
  A local reset never starts a second negotiation next to a pending one: while any
  state is negotiating or awaiting data, \<open>begin_local\<close> returns that negotiation and changes nothing;
  otherwise, unless the coordinator is closed, it creates exactly one new negotiation under the next
  key id, with a new sequence number and the handshake deadline.
\<close>

theorem begin_local_exact:
  "let c = fold soft_step es (coordinator_with_limits k h w n);
       pending = filter is_pending (map snd (sc_states c))
   in case begin_local now c of
        (c', Inl e) \<Rightarrow> c' = c \<and> e = Closed \<and> sc_closed c \<and> pending = []
      | (c', Inr b) \<Rightarrow>
          if bs_created b
          then pending = [] \<and> bs_key_id b = next_key_id (sc_active_key_id c)
            \<and> bs_sequence b = sc_sequence c + 1 \<and> sc_sequence c' = bs_sequence b
            \<and> (\<exists>st. map_of (sc_states c') (bs_key_id b) = Some st \<and> sr_status st = Negotiating
                 \<and> sr_sequence st = bs_sequence b \<and> sr_must_negotiate_by st = now + sc_handshake_window c)
          else c' = c \<and> (\<exists>st \<in> set pending. sr_key_id st = bs_key_id b \<and> sr_sequence st = bs_sequence b)"
proof -
  define c where "c = fold soft_step es (coordinator_with_limits k h w n)"
  define pending where "pending = filter is_pending (map snd (sc_states c))"
  let ?k = "next_key_id (sc_active_key_id c)"
  show ?thesis
  proof (cases "max_by_sequence pending")
    case (Some st)
    then show ?thesis unfolding Let_def c_def [symmetric] pending_def [symmetric]
      by (auto simp: begin_local_def pending_def [symmetric] dest: max_by_sequence_mem)
  next
    case None
    then have p: "pending = []" by (simp add: max_by_sequence_None)
    have k: "?k \<noteq> 0" "\<not> ?k > KEY_ID_MAX_VALUE"
      using next_key_id_range [of "sc_active_key_id c"] by (auto simp: KEY_ID_MAX_VALUE_def not_less)
    have "\<not> is_pending st" if "map_of (sc_states c) ?k = Some st" for st
      using p map_of_in_set [OF that] by (force simp: pending_def filter_empty_conv)
    then have "\<not> (case map_of (sc_states c) ?k of None \<Rightarrow> False | Some st \<Rightarrow> is_pending st \<or> sc_active_key_id c = ?k)"
      using next_key_id_differs [of "sc_active_key_id c"] by (auto split: option.split)
    then show ?thesis using k p None
      unfolding Let_def c_def [symmetric] pending_def [symmetric]
      by (simp add: begin_local_def pending_def [symmetric] begin_reset_def Let_def)
  qed
qed

lemma prune_fields [simp]:
  "sc_active_key_id (soft_prune now c) = sc_active_key_id c"
  "sc_promoted_sequence (soft_prune now c) = sc_promoted_sequence c"
  by (simp_all add: soft_prune_def Let_def)

text \<open>
  Completing a negotiation makes its key the active one exactly when its sequence number
  is above the last promoted one; a late success or an unknown negotiation leaves the active key as
  it is, so the active key never goes back to an earlier negotiation.
\<close>

theorem finish_success_exact:
  "case finish_success key_id sequence now c of
     (c', Inl e) \<Rightarrow> c' = c \<and> e = StaleState \<and> matching_state key_id sequence c = Inl StaleState
   | (c', Inr promoted) \<Rightarrow>
       (\<exists>st. matching_state key_id sequence c = Inr st)
       \<and> (promoted \<longleftrightarrow> sc_promoted_sequence c < sequence)
       \<and> sc_promoted_sequence c' = max (sc_promoted_sequence c) sequence
       \<and> sc_active_key_id c' = (if promoted then key_id else sc_active_key_id c)"
proof (cases "matching_state key_id sequence c")
  case (Inl e)
  then have "e = StaleState" by (auto simp: matching_state_def split: option.splits if_splits)
  with Inl show ?thesis by (simp add: finish_success_def)
next
  case (Inr st)
  then show ?thesis by (simp add: finish_success_def Let_def max_def) auto
qed

end
