(* ===== verification/Ovpn_Renegotiation.thy ===== *)
theory Ovpn_Renegotiation
  imports Zay_Prelude
begin

definition SWEET32_RENEGOTIATION_BYTES_CLAMP :: u64 where
  "SWEET32_RENEGOTIATION_BYTES_CLAMP = 64 * 1024 * 1024"
definition AES_GCM_USAGE_LIMIT :: u64 where "AES_GCM_USAGE_LIMIT = ((2 ^ 36 - 1) div 8) * 7"


record direction_usage =
  du_highest_packet_id :: u32
  du_plaintext_blocks :: u64

definition direction_usage_default :: direction_usage where
  "direction_usage_default = \<lparr>du_highest_packet_id = 0, du_plaintext_blocks = 0\<rparr>"

record renegotiation_budget =
  rb_bytes_limit :: u64
  rb_packets_limit :: u64
  rb_aead_usage_limit :: u64
  rb_active_key_id :: u8
  rb_bytes_transferred :: u64
  rb_packets_transferred :: u64
  rb_send_usage :: direction_usage
  rb_receive_usage :: direction_usage

definition is_sweet32_vulnerable_cipher :: "string \<Rightarrow> bool" where
  "is_sweet32_vulnerable_cipher cipher_name \<longleftrightarrow>
     to_ascii_uppercase (trim cipher_name) \<in>
       {''BF-CBC'', ''BF-CFB'', ''BF-OFB'', ''CAST5-CBC'', ''CAST5-CFB'', ''CAST5-OFB'', ''DES-CBC'',
        ''DES-CFB'', ''DES-OFB'', ''DES-EDE-CBC'', ''DES-EDE-CFB'', ''DES-EDE-OFB'', ''DES-EDE3-CBC'',
        ''DES-EDE3-CFB'', ''DES-EDE3-OFB'', ''RC2-CBC'', ''RC2-40-CBC'', ''RC2-64-CBC''}"

definition budget_new :: "string \<Rightarrow> u64 \<Rightarrow> u64 \<Rightarrow> u8 \<Rightarrow> renegotiation_budget" where
  "budget_new cipher configured_bytes configured_packets active_key_id =
     (let cipher_name = to_ascii_uppercase (trim cipher)
      in \<lparr>rb_bytes_limit = (if configured_bytes = 0 \<and> is_sweet32_vulnerable_cipher cipher_name
                            then SWEET32_RENEGOTIATION_BYTES_CLAMP else configured_bytes),
          rb_packets_limit = configured_packets,
          rb_aead_usage_limit = (if cipher_name \<in> {''AES-128-GCM'', ''AES-192-GCM'', ''AES-256-GCM''}
                                 then AES_GCM_USAGE_LIMIT else 0),
          rb_active_key_id = active_key_id, rb_bytes_transferred = 0, rb_packets_transferred = 0,
          rb_send_usage = direction_usage_default, rb_receive_usage = direction_usage_default\<rparr>)"

definition consume_transfer :: "u8 \<Rightarrow> nat \<Rightarrow> renegotiation_budget \<Rightarrow> renegotiation_budget \<times> bool" where
  "consume_transfer key_id accounted_bytes b =
     (if key_id \<noteq> rb_active_key_id b then (b, False)
      else let bytes = rb_bytes_transferred b + of_nat accounted_bytes;
               packets = rb_packets_transferred b + 1
           in (b\<lparr>rb_bytes_transferred := bytes, rb_packets_transferred := packets\<rparr>,
               rb_bytes_limit b > 0 \<and> bytes \<ge> rb_bytes_limit b
               \<or> rb_packets_limit b > 0 \<and> packets \<ge> rb_packets_limit b))"



definition budget_reset :: "u8 \<Rightarrow> renegotiation_budget \<Rightarrow> renegotiation_budget" where
  "budget_reset active_key_id b = b\<lparr>rb_active_key_id := active_key_id, rb_bytes_transferred := 0,
     rb_packets_transferred := 0, rb_send_usage := direction_usage_default,
     rb_receive_usage := direction_usage_default\<rparr>"

subsection \<open>Transfer limits\<close>

fun transfer_run :: "u8 \<Rightarrow> nat list \<Rightarrow> renegotiation_budget \<Rightarrow> renegotiation_budget \<times> bool list" where
  "transfer_run k [] b = (b, [])"
| "transfer_run k (n # ns) b =
     (case consume_transfer k n b of (b', f) \<Rightarrow> (case transfer_run k ns b' of (b'', fs) \<Rightarrow> (b'', f # fs)))"

definition over_limit :: "u64 \<Rightarrow> nat \<Rightarrow> bool" where
  "over_limit limit amount \<longleftrightarrow> limit > 0 \<and> amount \<ge> unat limit"

lemma transfer_run_flags:
  assumes "unat (rb_bytes_transferred b) + sum_list ns < 2 ^ 64"
    "unat (rb_packets_transferred b) + length ns < 2 ^ 64"
  shows "snd (transfer_run (rb_active_key_id b) ns b) =
    map (\<lambda>i. over_limit (rb_bytes_limit b) (unat (rb_bytes_transferred b) + sum_list (take (Suc i) ns))
           \<or> over_limit (rb_packets_limit b) (unat (rb_packets_transferred b) + Suc i)) [0 ..< length ns]"
  using assms
proof (induction ns arbitrary: b)
  case (Cons n ns)
  let ?b = "b\<lparr>rb_bytes_transferred := rb_bytes_transferred b + of_nat n,
      rb_packets_transferred := rb_packets_transferred b + 1\<rparr>"
  have u: "unat (rb_bytes_transferred b + of_nat n) = unat (rb_bytes_transferred b) + n"
    "unat (rb_packets_transferred b + 1) = Suc (unat (rb_packets_transferred b))"
    using Cons.prems by (simp_all add: unat_word_ariths unat_of_nat)
  have "snd (transfer_run (rb_active_key_id ?b) ns ?b) =
    map (\<lambda>i. over_limit (rb_bytes_limit ?b) (unat (rb_bytes_transferred ?b) + sum_list (take (Suc i) ns))
           \<or> over_limit (rb_packets_limit ?b) (unat (rb_packets_transferred ?b) + Suc i)) [0 ..< length ns]"
    using Cons.prems u by (intro Cons.IH) simp_all
  moreover have "map f [0 ..< length (n # ns)] = f 0 # map (\<lambda>i. f (Suc i)) [0 ..< length ns]" for f :: "nat \<Rightarrow> bool"
    by (simp only: length_Cons map_upt_Suc)
  ultimately show ?case
    by (simp add: consume_transfer_def Let_def split_def over_limit_def word_le_nat_alt u add.assoc del: upt_Suc)
qed simp

text \<open>
  As long as less than \<open>2 ^ 64\<close> bytes and packets are accounted under a key, the budget
  asks for a renegotiation at exactly those packets at which the accumulated bytes or packets have
  reached a configured limit, for a cipher vulnerable to SWEET32 without configured limit at 64 MiB;
  traffic on other keys is not counted.
\<close>

theorem transfer_budget_exact:
  assumes "sum_list ns < 2 ^ 64" "length ns < 2 ^ 64"
  shows "let b = budget_new cipher bytes packets key;
             limit = (if bytes = 0 \<and> is_sweet32_vulnerable_cipher cipher then 67108864 else bytes)
         in snd (transfer_run key ns b)
              = map (\<lambda>i. over_limit limit (sum_list (take (Suc i) ns)) \<or> over_limit packets (Suc i)) [0 ..< length ns]
            \<and> (other \<noteq> key \<longrightarrow> consume_transfer other n b = (b, False))"
proof -
  let ?b = "budget_new cipher bytes packets key"
  have "is_sweet32_vulnerable_cipher (to_ascii_uppercase (trim cipher)) = is_sweet32_vulnerable_cipher cipher"
    by (simp add: is_sweet32_vulnerable_cipher_def trim_uppercase)
  then have b: "rb_bytes_limit ?b = (if bytes = 0 \<and> is_sweet32_vulnerable_cipher cipher then 67108864 else bytes)"
    "rb_packets_limit ?b = packets" "rb_active_key_id ?b = key" "rb_bytes_transferred ?b = 0"
    "rb_packets_transferred ?b = 0"
    by (simp_all add: budget_new_def Let_def SWEET32_RENEGOTIATION_BYTES_CLAMP_def)
  then show ?thesis using transfer_run_flags [of ?b ns] assms
    by (simp add: Let_def consume_transfer_def)
qed

theorem transfer_budget_exact_witness:
  "snd (transfer_run 2 [40000000, 40000000] (budget_new '' bf-cbc'' 0 0 2)) = [False, True]"
proof -
  have v: "is_sweet32_vulnerable_cipher '' bf-cbc''" by code_simp
  have "map f [0 ..< length [40000000, 40000000 :: nat]] = [f 0, f 1]" for f :: "nat \<Rightarrow> bool"
    by (simp add: numeral_2_eq_2)
  with transfer_budget_exact [of "[40000000, 40000000]" "'' bf-cbc''" 0 0 2 3 1] v show ?thesis
    by (simp add: Let_def over_limit_def)
qed

subsection \<open>Nonce and AEAD usage limits\<close>










end
