(* ===== verification/Ovpn_Ip_Pool.thy ===== *)
theory Ovpn_Ip_Pool
  imports Zay_Prelude
begin

text \<open>
  The address pool of the OpenVPN server (\<open>protocol/openvpn/ip_pool.rs\<close>, with the prefix type of
  \<open>protocol/openvpn/route.rs\<close>). The used set, the two identity maps and the release times exist once
  per address family in the code; here they are one record \<open>lease_table\<close> instantiated for both
  families. A visitor that stops a traversal is a recursion over the list of candidates that the
  traversal produces. \<open>Instant::now()\<close> of \<open>release\<close> is an argument.
\<close>

subsection \<open>Prefixes and address arithmetic\<close>

record ip_prefix =
  ipp_address :: ip_addr
  ipp_prefix_len :: u8

definition mask4 :: "u8 \<Rightarrow> u32" where
  "mask4 len = (if len = 0 then 0 else push_bit (32 - unat len) (- 1))"

definition mask6 :: "u8 \<Rightarrow> u128" where
  "mask6 len = (if len = 0 then 0 else push_bit (128 - unat len) (- 1))"

definition masked :: "ip_prefix \<Rightarrow> ip_prefix" where
  "masked p = p\<lparr>ipp_address := (case ipp_address p of
      V4 a \<Rightarrow> V4 (a AND mask4 (ipp_prefix_len p))
    | V6 a \<Rightarrow> V6 (a AND mask6 (ipp_prefix_len p)))\<rparr>"

definition prefix_contains :: "ip_prefix \<Rightarrow> ip_addr \<Rightarrow> bool" where
  "prefix_contains p address =
     (case (ipp_address (masked p), address) of
        (V4 network, V4 a) \<Rightarrow> a AND mask4 (ipp_prefix_len p) = network
      | (V6 network, V6 a) \<Rightarrow> a AND mask6 (ipp_prefix_len p) = network
      | _ \<Rightarrow> False)"

definition last_ipv4_in_prefix :: "ip_prefix \<Rightarrow> u32 option" where
  "last_ipv4_in_prefix p =
     (case ipp_address (masked p) of
        V6 _ \<Rightarrow> None
      | V4 network \<Rightarrow>
          (let host_bits = 32 - unat (ipp_prefix_len p)
           in Some (network OR (if host_bits = 32 then - 1 else push_bit host_bits 1 - 1))))"

definition add_ipv4 :: "u32 \<Rightarrow> int \<Rightarrow> u32 option" where
  "add_ipv4 address offset =
     (let value = uint address + offset
      in if 0 \<le> value \<and> value < 2 ^ 32 then Some (word_of_int value) else None)"

definition next_ipv6 :: "u128 \<Rightarrow> u128 option" where
  "next_ipv6 address = (if address = - 1 then None else Some (address + 1))"

subsection \<open>Lease tables\<close>

record 'a lease_table =
  lt_used :: "'a set"
  lt_identity :: "'a \<rightharpoonup> string"
  lt_address :: "string \<rightharpoonup> 'a"
  lt_released :: "'a \<rightharpoonup> instant"

definition lease_table_default :: "'a lease_table" where
  "lease_table_default = \<lparr>lt_used = {}, lt_identity = Map.empty, lt_address = Map.empty, lt_released = Map.empty\<rparr>"

definition commit_table :: "'a \<Rightarrow> string \<Rightarrow> 'a lease_table \<Rightarrow> 'a lease_table" where
  "commit_table client identity t =
     (let t1 = t\<lparr>lt_used := insert client (lt_used t), lt_released := (lt_released t)(client := None)\<rparr>;
          t2 = (case lt_identity t1 client of
                  None \<Rightarrow> t1
                | Some previous_identity \<Rightarrow>
                    if previous_identity \<noteq> identity \<and> lt_address t1 previous_identity = Some client
                    then t1\<lparr>lt_address := (lt_address t1)(previous_identity := None)\<rparr> else t1)
      in if identity = [] then t2\<lparr>lt_identity := (lt_identity t2)(client := None)\<rparr>
         else let t3 = (case lt_address t2 identity of
                          None \<Rightarrow> t2
                        | Some previous \<Rightarrow>
                            if previous \<noteq> client
                            then t2\<lparr>lt_identity := (lt_identity t2)(previous := None),
                                    lt_released := (lt_released t2)(previous := None)\<rparr>
                            else t2)
              in t3\<lparr>lt_identity := (lt_identity t3)(client \<mapsto> identity),
                    lt_address := (lt_address t3)(identity \<mapsto> client)\<rparr>)"

definition release_table :: "'a \<Rightarrow> instant \<Rightarrow> 'a lease_table \<Rightarrow> 'a lease_table" where
  "release_table address now t =
     t\<lparr>lt_used := lt_used t - {address},
       lt_released := (lt_released t)(address :=
         (case lt_identity t address of
            None \<Rightarrow> None | Some identity \<Rightarrow> if identity \<noteq> [] then Some now else None))\<rparr>"

definition release_is_before :: "instant option \<Rightarrow> instant option \<Rightarrow> bool" where
  "release_is_before l r =
     (case (l, r) of (None, Some _) \<Rightarrow> True | (Some a, Some b) \<Rightarrow> a < b | _ \<Rightarrow> False)"

subsection \<open>The pool\<close>

definition IPV4_TOPOLOGY_SUBNET :: string where "IPV4_TOPOLOGY_SUBNET = ''subnet''"
definition IPV4_TOPOLOGY_P2P :: string where "IPV4_TOPOLOGY_P2P = ''p2p''"
definition IPV4_TOPOLOGY_NET30 :: string where "IPV4_TOPOLOGY_NET30 = ''net30''"
definition IP_POOL_MAXIMUM_SIZE :: nat where "IP_POOL_MAXIMUM_SIZE = 65536"

lemmas topology_defs = IPV4_TOPOLOGY_SUBNET_def IPV4_TOPOLOGY_P2P_def IPV4_TOPOLOGY_NET30_def

record ipv4_pool_lease =
  pl_client :: u32
  pl_peer :: "u32 option"

record ip_pool_state =
  ps_ipv4 :: "u32 lease_table"
  ps_ipv6_server :: "u128 option"
  ps_ipv6 :: "u128 lease_table"

record ip_pool =
  ip_ipv4_prefix :: "ip_prefix option"
  ip_ipv4_topology :: string
  ip_ipv4_server :: "u32 option"
  ip_ipv4_start :: "u32 option"
  ip_ipv4_end :: "u32 option"
  ip_ipv6_prefix :: "ip_prefix option"
  ip_state :: ip_pool_state

datatype ip_pool_error =
  UnsupportedTopology string | InvalidIpv4Prefix u8 | NoAllocatableIpv4 | Ipv4NotConfigured
| Ipv6NotConfigured | Exhausted | Ipv4ServerOutsidePool u32 | Ipv4ServerNotUsable u32
| Ipv4ServerAfterAllocation | Ipv6ServerOutsidePool u128

definition resolve_ipv4_pool_topology :: "string \<Rightarrow> ip_pool_error + string" where
  "resolve_ipv4_pool_topology topology =
     (if topology = [] then Inr IPV4_TOPOLOGY_NET30
      else if topology \<in> {IPV4_TOPOLOGY_SUBNET, IPV4_TOPOLOGY_P2P, IPV4_TOPOLOGY_NET30} then Inr topology
      else Inl (UnsupportedTopology topology))"

definition configure_ipv4 :: "ip_prefix \<Rightarrow> ip_pool \<Rightarrow> ip_pool_error + ip_pool" where
  "configure_ipv4 prefix pool =
     (if ipp_prefix_len prefix < 16 \<or> ipp_prefix_len prefix > 29
      then Inl (InvalidIpv4Prefix (ipp_prefix_len prefix))
      else case ipp_address prefix of
        V6 _ \<Rightarrow> Inr pool
      | V4 network \<Rightarrow>
          (let broadcast = the (last_ipv4_in_prefix prefix);
               subnet = (ip_ipv4_topology pool = IPV4_TOPOLOGY_SUBNET);
               start = add_ipv4 network (if subnet then 2 else 4);
               ende = add_ipv4 broadcast
                 (if subnet then - 1 else if ipp_prefix_len prefix = 29 then 0 else - 4)
           in if start = None \<or> ende = None \<or> the start > the ende then Inl NoAllocatableIpv4
              else Inr (pool\<lparr>ip_ipv4_prefix := Some prefix, ip_ipv4_server := add_ipv4 network 1,
                     ip_ipv4_start := start, ip_ipv4_end := ende\<rparr>)))"

definition pool_new :: "ip_prefix list \<Rightarrow> string \<Rightarrow> ip_pool_error + ip_pool" where
  "pool_new address_pools topology =
     (case resolve_ipv4_pool_topology topology of
        Inl e \<Rightarrow> Inl e
      | Inr topology \<Rightarrow>
          (let pool = \<lparr>ip_ipv4_prefix = None, ip_ipv4_topology = topology, ip_ipv4_server = None,
                       ip_ipv4_start = None, ip_ipv4_end = None, ip_ipv6_prefix = None,
                       ip_state = \<lparr>ps_ipv4 = lease_table_default, ps_ipv6_server = None,
                                   ps_ipv6 = lease_table_default\<rparr>\<rparr>;
               configured = (case find (\<lambda>p. is_ipv4 (ipp_address p) \<and> ipp_prefix_len p \<le> 32) address_pools of
                  None \<Rightarrow> Inr pool | Some prefix \<Rightarrow> configure_ipv4 (masked prefix) pool)
           in case configured of
                Inl e \<Rightarrow> Inl e
              | Inr pool \<Rightarrow>
                  (case find (\<lambda>p. \<not> is_ipv4 (ipp_address p) \<and> ipp_prefix_len p \<le> 128) address_pools of
                     None \<Rightarrow> Inr pool
                   | Some prefix \<Rightarrow>
                       (let prefix = masked prefix;
                            server = (case ipp_address prefix of V6 a \<Rightarrow> next_ipv6 a | V4 _ \<Rightarrow> None);
                            st = ip_state pool
                        in Inr (pool\<lparr>ip_ipv6_prefix := Some prefix,
                             ip_state := st\<lparr>ps_ipv6_server := server,
                               ps_ipv6 := (ps_ipv6 st)\<lparr>lt_used := lt_used (ps_ipv6 st) \<union> set_option server\<rparr>\<rparr>\<rparr>)))))"

definition set_server_ipv4 :: "u32 option \<Rightarrow> ip_pool \<Rightarrow> ip_pool_error + ip_pool" where
  "set_server_ipv4 address pool =
     (case address of
        None \<Rightarrow> Inr pool
      | Some a \<Rightarrow>
          (case ip_ipv4_prefix pool of
             None \<Rightarrow> Inl (Ipv4ServerOutsidePool a)
           | Some prefix \<Rightarrow>
               if \<not> prefix_contains prefix (V4 a) then Inl (Ipv4ServerOutsidePool a)
               else if ipp_address prefix = V4 a \<or> Some a = last_ipv4_in_prefix prefix
               then Inl (Ipv4ServerNotUsable a)
               else if lt_used (ps_ipv4 (ip_state pool)) \<noteq> {} then Inl Ipv4ServerAfterAllocation
               else Inr (pool\<lparr>ip_ipv4_server := Some a\<rparr>)))"

definition set_server_ipv6 :: "u128 option \<Rightarrow> ip_pool \<Rightarrow> ip_pool_error + ip_pool" where
  "set_server_ipv6 address pool =
     (case address of
        None \<Rightarrow> Inr pool
      | Some a \<Rightarrow>
          (case ip_ipv6_prefix pool of
             None \<Rightarrow> Inl (Ipv6ServerOutsidePool a)
           | Some prefix \<Rightarrow>
               if \<not> prefix_contains prefix (V6 a) then Inl (Ipv6ServerOutsidePool a)
               else let st = ip_state pool;
                        used = lt_used (ps_ipv6 st) - set_option (ps_ipv6_server st)
                    in Inr (pool\<lparr>ip_state := st\<lparr>ps_ipv6_server := Some a,
                         ps_ipv6 := (ps_ipv6 st)\<lparr>lt_used := insert a used\<rparr>\<rparr>\<rparr>)))"

definition ipv4_lease :: "ip_pool \<Rightarrow> u32 \<Rightarrow> ipv4_pool_lease" where
  "ipv4_lease pool address =
     \<lparr>pl_client = address,
      pl_peer = (if ip_ipv4_topology pool = IPV4_TOPOLOGY_P2P then ip_ipv4_server pool
                 else if ip_ipv4_topology pool = IPV4_TOPOLOGY_NET30 then add_ipv4 address (- 1)
                 else None)\<rparr>"

lemma add_ipv4_unat: "add_ipv4 a (int k) = Some b \<Longrightarrow> unat b = unat a + k"
proof -
  assume "add_ipv4 a (int k) = Some b"
  then have v: "uint a + int k < 2 ^ 32" "b = word_of_int (uint a + int k)"
    by (auto simp: add_ipv4_def Let_def split: if_splits)
  from v(1) have "int (unat a + k) < int (2 ^ 32)" by simp
  then have "unat a + k < 2 ^ 32" by (simp only: of_nat_less_iff)
  with v(2) show ?thesis by (simp add: unat_word_ariths unat_of_nat)
qed

lemma add_ipv4_measure:
  assumes "a \<le> ende" "0 < k"
  shows "(case add_ipv4 a (int k) of None \<Rightarrow> 0 | Some c \<Rightarrow> Suc (Suc (unat ende) - unat c)) < Suc (Suc (unat ende) - unat a)"
proof (cases "add_ipv4 a (int k)")
  case (Some c)
  have "unat a \<le> unat ende" using assms(1) by (simp add: word_le_nat_alt)
  with Some add_ipv4_unat [OF Some] assms(2) show ?thesis by simp
qed simp

function visit_hosts :: "ip_pool \<Rightarrow> u32 \<Rightarrow> u32 option \<Rightarrow> ipv4_pool_lease list" where
  "visit_hosts pool ende None = []"
| "visit_hosts pool ende (Some client) =
     (if client \<le> ende
      then (if Some client = ip_ipv4_server pool then [] else [ipv4_lease pool client])
           @ visit_hosts pool ende (add_ipv4 client 1)
      else [])"
  by pat_completeness auto
termination
proof (relation "measure (\<lambda>(_, ende, cur). case cur of None \<Rightarrow> 0 | Some c \<Rightarrow> Suc (Suc (unat ende) - unat c))", goal_cases)
  case (2 pool ende client)
  then show ?case using add_ipv4_measure [of client ende 1] by simp
qed simp

function visit_blocks :: "ip_pool \<Rightarrow> u32 \<Rightarrow> u32 option \<Rightarrow> ipv4_pool_lease list" where
  "visit_blocks pool ende None = []"
| "visit_blocks pool ende (Some block) =
     (if block \<le> ende
      then (case (add_ipv4 block 1, add_ipv4 block 2) of
              (Some peer, Some client) \<Rightarrow>
                if client > ende then []
                else (if Some peer = ip_ipv4_server pool \<or> Some client = ip_ipv4_server pool then []
                      else [\<lparr>pl_client = client, pl_peer = Some peer\<rparr>])
                     @ visit_blocks pool ende (add_ipv4 block 4)
            | _ \<Rightarrow> [])
      else [])"
  by pat_completeness auto
termination
proof (relation "measure (\<lambda>(_, ende, cur). case cur of None \<Rightarrow> 0 | Some c \<Rightarrow> Suc (Suc (unat ende) - unat c))", goal_cases)
  case (2 pool ende block)
  then show ?case using add_ipv4_measure [of block ende 4] by simp
qed simp

definition visit_ipv4_leases :: "ip_pool \<Rightarrow> ipv4_pool_lease list" where
  "visit_ipv4_leases pool =
     (case (ip_ipv4_start pool, ip_ipv4_end pool) of
        (Some start, Some ende) \<Rightarrow>
          if ip_ipv4_topology pool \<in> {IPV4_TOPOLOGY_SUBNET, IPV4_TOPOLOGY_P2P}
          then visit_hosts pool ende (Some start)
          else visit_blocks pool ende (Some start)
      | _ \<Rightarrow> [])"

fun select_ipv4 :: "u32 lease_table \<Rightarrow> string \<Rightarrow> ipv4_pool_lease list \<Rightarrow> (ipv4_pool_lease \<times> instant option) option
    \<Rightarrow> (ipv4_pool_lease \<times> instant option) option" where
  "select_ipv4 t identity [] selected = selected"
| "select_ipv4 t identity (candidate # rest) selected =
     (if pl_client candidate \<in> lt_used t then select_ipv4 t identity rest selected
      else if identity = [] then Some (candidate, None)
      else let released = lt_released t (pl_client candidate);
               selected' = (if (case selected of None \<Rightarrow> True | Some (_, current) \<Rightarrow> release_is_before released current)
                            then Some (candidate, released) else selected)
           in if released \<noteq> None then select_ipv4 t identity rest selected' else selected')"

definition find_available_ipv4_lease :: "ip_pool \<Rightarrow> string \<Rightarrow> ipv4_pool_lease option" where
  "find_available_ipv4_lease pool identity =
     map_option fst (select_ipv4 (ps_ipv4 (ip_state pool)) identity (visit_ipv4_leases pool) None)"

definition commit_ipv4_lease :: "ipv4_pool_lease \<Rightarrow> string \<Rightarrow> ip_pool \<Rightarrow> ip_pool" where
  "commit_ipv4_lease lease identity pool =
     pool\<lparr>ip_state := (ip_state pool)\<lparr>ps_ipv4 :=
       commit_table (pl_client lease) identity (ps_ipv4 (ip_state pool))\<rparr>\<rparr>"

definition allocate_ipv4_for_identity :: "string \<Rightarrow> ip_pool \<Rightarrow> ip_pool \<times> (ip_pool_error + ipv4_pool_lease)" where
  "allocate_ipv4_for_identity identity pool =
     (if ip_ipv4_prefix pool = None then (pool, Inl Ipv4NotConfigured)
      else let t = ps_ipv4 (ip_state pool);
               sticky = (if identity = [] then None
                 else case lt_address t identity of
                        None \<Rightarrow> None | Some previous \<Rightarrow> if previous \<in> lt_used t then None else Some previous)
           in case sticky of
                Some previous \<Rightarrow>
                  (let lease = ipv4_lease pool previous in (commit_ipv4_lease lease identity pool, Inr lease))
              | None \<Rightarrow>
                  (case find_available_ipv4_lease pool identity of
                     None \<Rightarrow> (pool, Inl Exhausted)
                   | Some lease \<Rightarrow> (commit_ipv4_lease lease identity pool, Inr lease)))"

definition ipv6_contains :: "ip_pool \<Rightarrow> u128 \<Rightarrow> bool" where
  "ipv6_contains pool address =
     (case ip_ipv6_prefix pool of None \<Rightarrow> False | Some prefix \<Rightarrow> prefix_contains prefix (V6 address))"

function find_ipv6 :: "ip_pool \<Rightarrow> string \<Rightarrow> u128 option \<Rightarrow> nat \<Rightarrow> (u128 \<times> instant option) option
    \<Rightarrow> (u128 \<times> instant option) option" where
  "find_ipv6 pool identity None visited selected = selected"
| "find_ipv6 pool identity (Some address) visited selected =
     (let st = ip_state pool; t = ps_ipv6 st in
      if \<not> (ipv6_contains pool address \<and> visited < IP_POOL_MAXIMUM_SIZE) then selected
      else if ps_ipv6_server st = Some address
           then find_ipv6 pool identity (next_ipv6 address) visited selected
      else if address \<in> lt_used t
           then find_ipv6 pool identity (next_ipv6 address) (visited + 1) selected
      else if identity = [] then Some (address, None)
      else if lt_identity t address = None \<and> card (dom (lt_address t)) \<ge> IP_POOL_MAXIMUM_SIZE
           then find_ipv6 pool identity (next_ipv6 address) (visited + 1) selected
      else let released = lt_released t address;
               selected' = (if (case selected of None \<Rightarrow> True | Some (_, current) \<Rightarrow> release_is_before released current)
                            then Some (address, released) else selected)
           in if released = None then selected'
              else find_ipv6 pool identity (next_ipv6 address) (visited + 1) selected')"
  by pat_completeness auto

lemma next_ipv6_unat: "next_ipv6 a = Some b \<Longrightarrow> unat b = Suc (unat a)"
  by (auto simp: next_ipv6_def unat_succ split: if_splits)

lemma next_ipv6_measure:
  "(case next_ipv6 a of None \<Rightarrow> 0 | Some c \<Rightarrow> Suc (2 ^ 128 - unat c)) < Suc (2 ^ 128 - unat a)"
  using next_ipv6_unat [of a] unsigned_less [of a, where ?'a = nat] by (auto split: option.split)

termination find_ipv6
  by (relation "measure (\<lambda>(_, _, cur, _, _). case cur of None \<Rightarrow> 0 | Some c \<Rightarrow> Suc (2 ^ 128 - unat c))")
    (use next_ipv6_measure in simp_all)

declare visit_hosts.simps(2) [simp del] visit_blocks.simps(2) [simp del] find_ipv6.simps(2) [simp del]

definition find_available_ipv6_address :: "ip_pool \<Rightarrow> string \<Rightarrow> u128 option" where
  "find_available_ipv6_address pool identity =
     (case ip_ipv6_prefix pool of
        None \<Rightarrow> None
      | Some prefix \<Rightarrow>
          (case ipp_address prefix of
             V4 _ \<Rightarrow> None
           | V6 network \<Rightarrow> map_option fst (find_ipv6 pool identity (next_ipv6 network) 0 None)))"

definition commit_ipv6_address :: "u128 \<Rightarrow> string \<Rightarrow> ip_pool \<Rightarrow> ip_pool" where
  "commit_ipv6_address address identity pool =
     pool\<lparr>ip_state := (ip_state pool)\<lparr>ps_ipv6 := commit_table address identity (ps_ipv6 (ip_state pool))\<rparr>\<rparr>"

definition allocate_ipv6_for_identity :: "string \<Rightarrow> ip_pool \<Rightarrow> ip_pool \<times> (ip_pool_error + u128)" where
  "allocate_ipv6_for_identity identity pool =
     (if ip_ipv6_prefix pool = None then (pool, Inl Ipv6NotConfigured)
      else let st = ip_state pool; t = ps_ipv6 st;
               sticky = (if identity = [] then None
                 else case lt_address t identity of
                        None \<Rightarrow> None
                      | Some previous \<Rightarrow>
                          if ipv6_contains pool previous \<and> Some previous \<noteq> ps_ipv6_server st \<and> previous \<notin> lt_used t
                          then Some previous else None)
           in case sticky of
                Some previous \<Rightarrow> (commit_ipv6_address previous identity pool, Inr previous)
              | None \<Rightarrow>
                  (case find_available_ipv6_address pool identity of
                     None \<Rightarrow> (pool, Inl Exhausted)
                   | Some address \<Rightarrow> (commit_ipv6_address address identity pool, Inr address)))"

definition release :: "ip_addr \<Rightarrow> instant \<Rightarrow> ip_pool \<Rightarrow> ip_pool" where
  "release address now pool =
     (case address of
        V4 a \<Rightarrow> pool\<lparr>ip_state := (ip_state pool)\<lparr>ps_ipv4 := release_table a now (ps_ipv4 (ip_state pool))\<rparr>\<rparr>
      | V6 a \<Rightarrow> pool\<lparr>ip_state := (ip_state pool)\<lparr>ps_ipv6 := release_table a now (ps_ipv6 (ip_state pool))\<rparr>\<rparr>)"

subsection \<open>Identities and addresses correspond one to one\<close>

definition table_wf :: "'a lease_table \<Rightarrow> bool" where
  "table_wf t \<longleftrightarrow> (\<forall>i a. lt_address t i = Some a \<longleftrightarrow> lt_identity t a = Some i)
     \<and> lt_address t [] = None \<and> dom (lt_released t) \<inter> lt_used t = {}"

lemma commit_table_used [simp]: "lt_used (commit_table a i t) = insert a (lt_used t)"
  by (auto simp: commit_table_def Let_def split: option.splits)

lemma table_wfD:
  assumes "table_wf t"
  shows "lt_address t j = Some b \<longleftrightarrow> lt_identity t b = Some j"
    and "lt_address t [] = None" and "lt_identity t b \<noteq> Some []"
    and "lt_identity t b = Some j \<Longrightarrow> lt_identity t c = Some j \<Longrightarrow> b = c"
    and "lt_address t j = None \<Longrightarrow> lt_identity t b \<noteq> Some j"
proof -
  have w: "lt_address t j = Some b \<longleftrightarrow> lt_identity t b = Some j" and e: "lt_address t [] = None" for j b
    using assms by (auto simp: table_wf_def)
  show "lt_address t j = Some b \<longleftrightarrow> lt_identity t b = Some j" "lt_address t [] = None"
    by (fact w, fact e)
  show "lt_identity t b \<noteq> Some []" using w [of "[]" b] e by simp
  show "lt_identity t b = Some j \<Longrightarrow> lt_identity t c = Some j \<Longrightarrow> b = c" by (metis w option.inject)
  show "lt_address t j = None \<Longrightarrow> lt_identity t b \<noteq> Some j" using w [of j b] by simp
qed

lemma commit_table_identity:
  assumes "table_wf t"
  shows "lt_address (commit_table a i t) = (\<lambda>j.
       if i \<noteq> [] \<and> j = i then Some a else if lt_address t j = Some a then None else lt_address t j)"
    and "lt_identity (commit_table a i t) = (\<lambda>b.
       if b = a then (if i = [] then None else Some i) else if lt_identity t b = Some i then None else lt_identity t b)"
proof -
  note w = table_wfD [OF assms]
  show "lt_address (commit_table a i t) = (\<lambda>j.
       if i \<noteq> [] \<and> j = i then Some a else if lt_address t j = Some a then None else lt_address t j)"
    using w(3) by (intro ext) (auto simp: commit_table_def Let_def w(1) split: option.splits)
  show "lt_identity (commit_table a i t) = (\<lambda>b.
       if b = a then (if i = [] then None else Some i) else if lt_identity t b = Some i then None else lt_identity t b)"
    using w(3) by (intro ext) (auto simp: commit_table_def Let_def w(1) dest: w(4) w(5) split: option.splits)
qed

lemma table_wf_commit [inv_intros]:
  assumes "table_wf t"
  shows "table_wf (commit_table a i t)"
proof -
  note w = table_wfD [OF assms]
  have r: "dom (lt_released (commit_table a i t)) \<subseteq> dom (lt_released t) - {a}"
    by (auto simp: commit_table_def Let_def split: option.splits if_splits)
  have "lt_address (commit_table a i t) j = Some b \<longleftrightarrow> lt_identity (commit_table a i t) b = Some j" for j b
    unfolding commit_table_identity [OF assms] using w(3) by (auto simp: w(1) dest: w(4))
  moreover have "lt_address (commit_table a i t) [] = None"
    unfolding commit_table_identity [OF assms] using w(2) by auto
  moreover have "dom (lt_released t) \<inter> lt_used t = {}" using assms by (simp add: table_wf_def)
  then have "dom (lt_released (commit_table a i t)) \<inter> lt_used (commit_table a i t) = {}"
    unfolding commit_table_used using r by blast
  ultimately show ?thesis by (simp add: table_wf_def)
qed

lemma table_wf_release [inv_intros]: "table_wf t \<Longrightarrow> table_wf (release_table a now t)"
  by (auto simp: table_wf_def release_table_def split: if_splits option.splits)

lemma lt_address_release [simp]: "lt_address (release_table a now t) = lt_address t"
  by (simp add: release_table_def)

lemma table_wf_default [inv_intros]: "table_wf lease_table_default"
  by (simp add: table_wf_def lease_table_default_def)

subsection \<open>Candidates\<close>

lemma select_ipv4_sound:
  "select_ipv4 t i cs sel = Some (l, r) \<Longrightarrow> sel \<noteq> Some (l, r) \<Longrightarrow> l \<in> set cs \<and> pl_client l \<notin> lt_used t"
proof (induction cs arbitrary: sel)
  case (Cons c cs)
  let ?rel = "lt_released t (pl_client c)"
  define sel' where "sel' = (if (case sel of None \<Rightarrow> True | Some (_, current) \<Rightarrow> release_is_before ?rel current)
      then Some (c, ?rel) else sel)"
  consider (used) "pl_client c \<in> lt_used t" | (anon) "pl_client c \<notin> lt_used t" "i = []"
    | (named) "pl_client c \<notin> lt_used t" "i \<noteq> []" by blast
  then show ?case
  proof cases
    case named
    then have "select_ipv4 t i (c # cs) sel = (if ?rel \<noteq> None then select_ipv4 t i cs sel' else sel')"
      by (simp add: sel'_def Let_def)
    then have r: "select_ipv4 t i cs sel' = Some (l, r) \<or> sel' = Some (l, r)"
      using Cons.prems(1) by (auto split: if_splits)
    show ?thesis
    proof (cases "sel' = Some (l, r)")
      case True
      with Cons.prems(2) have "l = c" by (auto simp: sel'_def split: if_splits)
      with named show ?thesis by simp
    next
      case False
      with r Cons.IH [of sel'] show ?thesis by auto
    qed
  qed (use Cons in auto)
qed simp

lemma select_ipv4_none:
  "select_ipv4 t i cs sel = None \<longleftrightarrow> sel = None \<and> pl_client ` set cs \<subseteq> lt_used t"
proof (induction t i cs sel rule: select_ipv4.induct)
  case (2 t i c cs sel)
  then show ?case by (auto simp: Let_def split: if_splits option.splits)
qed simp

lemma visit_hosts_state [simp]: "visit_hosts (pool\<lparr>ip_state := st\<rparr>) ende cur = visit_hosts pool ende cur"
proof (induction pool ende cur rule: visit_hosts.induct)
  case (2 pool ende c)
  then show ?case
    by (simp add: visit_hosts.simps(2) [of pool] visit_hosts.simps(2) [of "pool\<lparr>ip_state := st\<rparr>"] ipv4_lease_def)
qed simp

lemma visit_blocks_state [simp]: "visit_blocks (pool\<lparr>ip_state := st\<rparr>) ende cur = visit_blocks pool ende cur"
proof (induction pool ende cur rule: visit_blocks.induct)
  case (2 pool ende b)
  then show ?case
    by (auto simp: visit_blocks.simps(2) [of pool] visit_blocks.simps(2) [of "pool\<lparr>ip_state := st\<rparr>"]
        split: option.split)
qed simp

lemma visit_leases_state [simp]: "visit_ipv4_leases (pool\<lparr>ip_state := st\<rparr>) = visit_ipv4_leases pool"
  by (simp add: visit_ipv4_leases_def split: option.split)



lemma find_ipv6_sound:
  "find_ipv6 pool i cur n sel = Some (a, r) \<Longrightarrow> sel \<noteq> Some (a, r) \<Longrightarrow>
   ipv6_contains pool a \<and> ps_ipv6_server (ip_state pool) \<noteq> Some a \<and> a \<notin> lt_used (ps_ipv6 (ip_state pool))"
proof (induction pool i cur n sel rule: find_ipv6.induct)
  case (2 pool i x n sel)
  let ?st = "ip_state pool" and ?t = "ps_ipv6 (ip_state pool)"
  define sel' where "sel' = (if (case sel of None \<Rightarrow> True | Some (_, current) \<Rightarrow> release_is_before (lt_released ?t x) current)
      then Some (x, lt_released ?t x) else sel)"
  note eq = find_ipv6.simps(2) [of pool i x n sel, unfolded Let_def, folded sel'_def]
  have in6: "ipv6_contains pool x \<and> n < IP_POOL_MAXIMUM_SIZE" by (rule ccontr) (use 2(5,6) eq in auto)
  consider (srv) "ps_ipv6_server ?st = Some x" | (used) "ps_ipv6_server ?st \<noteq> Some x" "x \<in> lt_used ?t"
    | (anon) "ps_ipv6_server ?st \<noteq> Some x" "x \<notin> lt_used ?t" "i = []"
    | (full) "ps_ipv6_server ?st \<noteq> Some x" "x \<notin> lt_used ?t" "i \<noteq> []" "lt_identity ?t x = None \<and> card (dom (lt_address ?t)) \<ge> IP_POOL_MAXIMUM_SIZE"
    | (cand) "ps_ipv6_server ?st \<noteq> Some x" "x \<notin> lt_used ?t" "i \<noteq> []" "\<not> (lt_identity ?t x = None \<and> card (dom (lt_address ?t)) \<ge> IP_POOL_MAXIMUM_SIZE)"
    by blast
  then show ?case
  proof cases
    case srv
    with 2(1) 2(5,6) in6 eq show ?thesis by simp
  next
    case used
    with 2(2) 2(5,6) in6 eq show ?thesis by simp
  next
    case anon
    with 2(5,6) in6 eq show ?thesis by simp
  next
    case full
    with 2(3) 2(5,6) in6 eq show ?thesis by simp
  next
    case cand
    have r: "find_ipv6 pool i (next_ipv6 x) (n + 1) sel' = Some (a, r) \<and> lt_released ?t x \<noteq> None \<or> sel' = Some (a, r)"
      using cand 2(5) in6 eq by (auto split: if_splits)
    show ?thesis
    proof (cases "sel' = Some (a, r)")
      case True
      with 2(6) have "a = x" by (auto simp: sel'_def split: if_splits)
      with cand in6 show ?thesis by simp
    next
      case False
      with r have f: "find_ipv6 pool i (next_ipv6 x) (n + 1) sel' = Some (a, r)" "lt_released ?t x \<noteq> None" by auto
      from 2(4) [OF refl refl _ cand(1,2,3,4) refl sel'_def f(2) f(1) False] in6 show ?thesis by simp
    qed
  qed
qed simp

subsection \<open>Allocation\<close>

abbreviation pool_used4 :: "ip_pool \<Rightarrow> u32 set" where "pool_used4 p \<equiv> lt_used (ps_ipv4 (ip_state p))"
abbreviation pool_used6 :: "ip_pool \<Rightarrow> u128 set" where "pool_used6 p \<equiv> lt_used (ps_ipv6 (ip_state p))"

datatype pool_event = PoolAlloc4 string | PoolAlloc6 string | PoolRelease ip_addr instant

fun pool_step :: "pool_event \<Rightarrow> ip_pool \<Rightarrow> ip_pool" where
  "pool_step (PoolAlloc4 i) p = fst (allocate_ipv4_for_identity i p)"
| "pool_step (PoolAlloc6 i) p = fst (allocate_ipv6_for_identity i p)"
| "pool_step (PoolRelease a now) p = release a now p"

text \<open>A pool as \<open>pool_new\<close> builds it: no lease in either family, the IPv6 server address in use.\<close>

definition pool_fresh :: "ip_pool \<Rightarrow> ip_pool" where
  "pool_fresh p = p\<lparr>ip_state := \<lparr>ps_ipv4 = lease_table_default, ps_ipv6_server = ps_ipv6_server (ip_state p),
     ps_ipv6 = lease_table_default\<lparr>lt_used := set_option (ps_ipv6_server (ip_state p))\<rparr>\<rparr>\<rparr>"

lemma pool_new_fresh: "pool_new ps topology = Inr p \<Longrightarrow> pool_fresh p = p"
  by (auto simp: pool_new_def configure_ipv4_def Let_def pool_fresh_def lease_table_default_def
      split: sum.splits option.splits if_splits ip_addr.splits)

definition pool_wf :: "ip_pool \<Rightarrow> ip_pool \<Rightarrow> bool" where
  "pool_wf p0 p \<longleftrightarrow> (\<exists>st. p = p0\<lparr>ip_state := st\<rparr>)
     \<and> ps_ipv6_server (ip_state p) = ps_ipv6_server (ip_state p0)
     \<and> table_wf (ps_ipv4 (ip_state p)) \<and> table_wf (ps_ipv6 (ip_state p))
     \<and> ran (lt_address (ps_ipv4 (ip_state p))) \<subseteq> pl_client ` set (visit_ipv4_leases p0)"

lemma pool_wf_leases: "pool_wf p0 p \<Longrightarrow> visit_ipv4_leases p = visit_ipv4_leases p0"
  by (auto simp: pool_wf_def)

lemma allocate4_cases:
  assumes wf: "pool_wf p0 p" and a: "allocate_ipv4_for_identity i p = (p', r)"
  shows "case r of
     Inl e \<Rightarrow> p' = p \<and> (e = Ipv4NotConfigured \<and> ip_ipv4_prefix p = None
        \<or> e = Exhausted \<and> pl_client ` set (visit_ipv4_leases p0) \<subseteq> pool_used4 p)
   | Inr l \<Rightarrow> p' = commit_ipv4_lease l i p \<and> pl_client l \<notin> pool_used4 p
       \<and> pl_client l \<in> pl_client ` set (visit_ipv4_leases p0)"
proof -
  let ?t = "ps_ipv4 (ip_state p)"
  define sticky where "sticky = (if i = [] then None else case lt_address ?t i of
      None \<Rightarrow> None | Some prev \<Rightarrow> if prev \<in> lt_used ?t then None else Some prev)"
  note eq = a [unfolded allocate_ipv4_for_identity_def Let_def, folded sticky_def]
  show ?thesis
  proof (cases "ip_ipv4_prefix p = None")
    case True
    with eq show ?thesis by auto
  next
    case False
    show ?thesis
    proof (cases sticky)
      case (Some prev)
      then have "lt_address ?t i = Some prev" "prev \<notin> lt_used ?t"
        by (auto simp: sticky_def split: if_splits option.splits)
      moreover from this wf have "prev \<in> pl_client ` set (visit_ipv4_leases p0)"
        by (auto simp: pool_wf_def intro: ranI)
      ultimately show ?thesis using eq False Some by (auto simp: ipv4_lease_def)
    next
      case None
      show ?thesis
      proof (cases "select_ipv4 ?t i (visit_ipv4_leases p) None")
        case sel: None
        then have "pl_client ` set (visit_ipv4_leases p) \<subseteq> lt_used ?t" by (simp add: select_ipv4_none)
        with eq False None sel show ?thesis
          by (auto simp: find_available_ipv4_lease_def pool_wf_leases [OF wf])
      next
        case (Some lr)
        obtain l q where lr: "lr = (l, q)" by fastforce
        with Some select_ipv4_sound [of ?t i "visit_ipv4_leases p" None l q]
        have "l \<in> set (visit_ipv4_leases p)" "pl_client l \<notin> lt_used ?t" by auto
        with eq False None Some lr show ?thesis
          by (auto simp: find_available_ipv4_lease_def pool_wf_leases [OF wf])
      qed
    qed
  qed
qed

lemma pool_wf_commit4:
  assumes wf: "pool_wf p0 p" and l: "pl_client l \<in> pl_client ` set (visit_ipv4_leases p0)"
  shows "pool_wf p0 (commit_ipv4_lease l i p)"
proof -
  let ?t = "ps_ipv4 (ip_state p)"
  have tw: "table_wf ?t" using wf by (simp add: pool_wf_def)
  have "ran (lt_address (commit_table (pl_client l) i ?t)) \<subseteq> insert (pl_client l) (ran (lt_address ?t))"
    unfolding commit_table_identity [OF tw] by (auto simp: ran_def split: if_splits)
  then show ?thesis using wf l table_wf_commit [OF tw, of "pl_client l" i]
    by (auto simp: pool_wf_def commit_ipv4_lease_def)
qed

lemma allocate6_cases:
  assumes a: "allocate_ipv6_for_identity i p = (p', r)"
  shows "case r of
     Inl e \<Rightarrow> p' = p \<and> (e = Ipv6NotConfigured \<or> e = Exhausted)
   | Inr x \<Rightarrow> p' = commit_ipv6_address x i p \<and> x \<notin> pool_used6 p \<and> ipv6_contains p x
       \<and> ps_ipv6_server (ip_state p) \<noteq> Some x"
proof -
  let ?st = "ip_state p" and ?t = "ps_ipv6 (ip_state p)"
  define sticky where "sticky = (if i = [] then None else case lt_address ?t i of
      None \<Rightarrow> None | Some prev \<Rightarrow> if ipv6_contains p prev \<and> Some prev \<noteq> ps_ipv6_server ?st \<and> prev \<notin> lt_used ?t
        then Some prev else None)"
  note eq = a [unfolded allocate_ipv6_for_identity_def Let_def, folded sticky_def]
  have find: "x \<notin> pool_used6 p \<and> ipv6_contains p x \<and> ps_ipv6_server (ip_state p) \<noteq> Some x"
    if f: "find_available_ipv6_address p i = Some x" for x
  proof -
    obtain n q where "find_ipv6 p i n 0 None = Some (x, q)"
      using f by (auto simp: find_available_ipv6_address_def split: option.splits ip_addr.splits)
    from find_ipv6_sound [OF this] show ?thesis by simp
  qed
  show ?thesis
  proof (cases "ip_ipv6_prefix p = None")
    case True
    with eq show ?thesis by auto
  next
    case False
    show ?thesis
    proof (cases sticky)
      case (Some prev)
      then have "ipv6_contains p prev" "Some prev \<noteq> ps_ipv6_server ?st" "prev \<notin> lt_used ?t"
        by (auto simp: sticky_def split: if_splits option.splits)
      with eq False Some show ?thesis by auto
    next
      case None
      with eq False find show ?thesis by (cases "find_available_ipv6_address p i") auto
    qed
  qed
qed

lemma pool_wf_step:
  assumes wf: "pool_wf p0 p"
  shows "pool_wf p0 (pool_step e p)"
proof (cases e)
  case (PoolAlloc4 i)
  obtain p' r where a: "allocate_ipv4_for_identity i p = (p', r)" by fastforce
  from allocate4_cases [OF wf a] show ?thesis using wf pool_wf_commit4 [OF wf] PoolAlloc4 a
    by (cases r) auto
next
  case (PoolAlloc6 i)
  obtain p' r where a: "allocate_ipv6_for_identity i p = (p', r)" by fastforce
  have "pool_wf p0 (commit_ipv6_address x i p)" for x
    using wf by (auto simp: pool_wf_def commit_ipv6_address_def intro: table_wf_commit)
  with allocate6_cases [OF a] show ?thesis using wf PoolAlloc6 a by (cases r) auto
next
  case (PoolRelease a now)
  with wf show ?thesis
    by (cases a) (auto simp: pool_wf_def release_def intro: table_wf_release)
qed

interpretation address_pool: event_system "pool_fresh p0" pool_step "pool_wf p0" for p0
proof
  show "pool_wf p0 (pool_fresh p0)"
    using table_wf_default by (auto simp: pool_wf_def pool_fresh_def lease_table_default_def table_wf_def)
  show "pool_wf p0 (pool_step e p)" if "pool_wf p0 p" for e p using that by (rule pool_wf_step)
qed


text \<open>The pool 10.0.0.0/29 in subnet topology: server 10.0.0.1, clients 10.0.0.2 to 10.0.0.6.\<close>

definition example_prefix :: ip_prefix where
  "example_prefix = \<lparr>ipp_address = V4 0x0a000000, ipp_prefix_len = 29\<rparr>"

definition example_pool :: ip_pool where
  "example_pool = \<lparr>ip_ipv4_prefix = Some example_prefix, ip_ipv4_topology = ''subnet'',
     ip_ipv4_server = Some 0x0a000001, ip_ipv4_start = Some 0x0a000002, ip_ipv4_end = Some 0x0a000006,
     ip_ipv6_prefix = None,
     ip_state = \<lparr>ps_ipv4 = lease_table_default, ps_ipv6_server = None, ps_ipv6 = lease_table_default\<rparr>\<rparr>"

lemma example_pool_new: "pool_new [example_prefix] ''subnet'' = Inr example_pool"
proof -
  have m: "mask4 29 = 0xfffffff8" by (simp add: mask4_def push_bit_eq_mult)
  have "masked example_prefix = example_prefix"
    by (simp add: masked_def example_prefix_def m)
  moreover have "last_ipv4_in_prefix example_prefix = Some 0x0a000007"
    by (simp add: last_ipv4_in_prefix_def \<open>masked example_prefix = example_prefix\<close>) (simp add: example_prefix_def push_bit_eq_mult)
  ultimately have "configure_ipv4 (masked example_prefix)
      (example_pool\<lparr>ip_ipv4_prefix := None, ip_ipv4_server := None, ip_ipv4_start := None, ip_ipv4_end := None\<rparr>)
      = Inr example_pool"
    unfolding configure_ipv4_def Let_def
    by (simp add: topology_defs example_pool_def) (simp add: example_prefix_def example_pool_def add_ipv4_def)
  then show ?thesis
    by (simp add: pool_new_def resolve_ipv4_pool_topology_def topology_defs example_pool_def)
      (simp add: example_prefix_def)
qed

lemma example_allocate:
  "allocate_ipv4_for_identity i example_pool
     = (commit_ipv4_lease \<lparr>pl_client = 0x0a000002, pl_peer = None\<rparr> i example_pool,
        Inr \<lparr>pl_client = 0x0a000002, pl_peer = None\<rparr>)"
proof -
  obtain rest where "visit_ipv4_leases example_pool = \<lparr>pl_client = 0x0a000002, pl_peer = None\<rparr> # rest"
    by (simp add: visit_ipv4_leases_def topology_defs visit_hosts.simps(2) ipv4_lease_def example_pool_def)
  then show ?thesis
    by (simp add: allocate_ipv4_for_identity_def find_available_ipv4_lease_def example_pool_def Let_def
        lease_table_default_def)
qed




text \<open>
  Addresses are sticky: a client with a nonempty identity that releases its IPv4 address
  and asks again gets the same address back, whatever happened in the pool before.
\<close>

theorem identity_sticky:
  assumes "pool_new prefixes topology = Inr p0"
  shows "case allocate_ipv4_for_identity (c # cs) (fold pool_step es p0) of
      (p', Inl _) \<Rightarrow> True
    | (p', Inr l) \<Rightarrow>
        (case allocate_ipv4_for_identity (c # cs) (release (V4 (pl_client l)) now p') of
           (_, Inl _) \<Rightarrow> False
         | (_, Inr l') \<Rightarrow> pl_client l' = pl_client l)"
proof -
  define p where "p = fold pool_step es p0"
  have wf: "pool_wf p0 p"
    using address_pool.invar_reached [of p0 es] pool_new_fresh [OF assms] by (simp add: p_def)
  obtain p' r where a: "allocate_ipv4_for_identity (c # cs) p = (p', r)" by fastforce
  show ?thesis
  proof (cases r)
    case (Inr l)
    with allocate4_cases [OF wf a] have p': "p' = commit_ipv4_lease l (c # cs) p" by simp
    have "ip_ipv4_prefix p \<noteq> None"
      by (rule notI) (use a Inr in \<open>simp add: allocate_ipv4_for_identity_def\<close>)
    moreover have tw: "table_wf (ps_ipv4 (ip_state p))" using wf by (simp add: pool_wf_def)
    ultimately show ?thesis unfolding p_def [symmetric] a Inr p'
      by (simp add: allocate_ipv4_for_identity_def release_def commit_ipv4_lease_def Let_def
          commit_table_identity(1) [OF tw] ipv4_lease_def) (simp add: release_table_def)
  qed (simp add: a p_def [symmetric])
qed

theorem identity_sticky_witness:
  "pool_new [example_prefix] ''subnet'' = Inr example_pool
   \<and> (case allocate_ipv4_for_identity ''a'' example_pool of
        (_, Inl _) \<Rightarrow> False
      | (p', Inr l) \<Rightarrow>
          map_sum id pl_client (snd (allocate_ipv4_for_identity ''a'' (release (V4 (pl_client l)) 5 p')))
            = Inr (pl_client l))"
  using identity_sticky [where c = "CHR ''a''" and cs = "[]" and es = "[]" and now = 5, OF example_pool_new]
    example_pool_new
  by (simp add: example_allocate split: prod.splits sum.splits)

text \<open>
  The stickiness of IPv4 addresses ignores a later change of the server address: a client
  takes 10.0.0.2 and releases it, the server is moved to 10.0.0.2, which is allowed because no address
  is in use, and the client is then leased the server's own address.
\<close>

theorem sticky_lease_takes_server_address:
  "let p1 = fst (allocate_ipv4_for_identity ''a'' example_pool);
       p2 = release (V4 0x0a000002) 0 p1
   in case set_server_ipv4 (Some 0x0a000002) p2 of
        Inl _ \<Rightarrow> False
      | Inr p3 \<Rightarrow>
          (case allocate_ipv4_for_identity ''a'' p3 of
             (_, Inl _) \<Rightarrow> False
           | (_, Inr l) \<Rightarrow> ip_ipv4_server p3 = Some (pl_client l))"
proof -
  have tw: "table_wf (lease_table_default :: u32 lease_table)" by (rule table_wf_default)
  define q where "q = example_pool\<lparr>ip_state := (ip_state example_pool)\<lparr>ps_ipv4 :=
    release_table 0x0a000002 0 (commit_table 0x0a000002 ''a'' lease_table_default)\<rparr>\<rparr>"
  have q1: "release (V4 0x0a000002) 0 (fst (allocate_ipv4_for_identity ''a'' example_pool)) = q"
    by (simp add: example_allocate commit_ipv4_lease_def release_def q_def) (simp add: example_pool_def)
  have q2: "lt_used (ps_ipv4 (ip_state q)) = {}" "lt_address (ps_ipv4 (ip_state q)) ''a'' = Some 0x0a000002"
    by (simp_all add: q_def release_table_def commit_table_identity(1) [OF tw]) (simp add: lease_table_default_def)
  have q3: "ip_ipv4_prefix q = Some example_prefix" by (simp add: q_def example_pool_def)
  have c: "prefix_contains example_prefix (V4 0x0a000002)" "last_ipv4_in_prefix example_prefix \<noteq> Some 0x0a000002"
    "ipp_address example_prefix \<noteq> V4 0x0a000002"
    by (simp_all add: prefix_contains_def last_ipv4_in_prefix_def masked_def example_prefix_def mask4_def push_bit_eq_mult)
  have "set_server_ipv4 (Some 0x0a000002) q = Inr (q\<lparr>ip_ipv4_server := Some 0x0a000002\<rparr>)"
    using c q2 q3 by (auto simp: set_server_ipv4_def)
  then show ?thesis unfolding q1 Let_def
    using q2 q3 by (simp add: allocate_ipv4_for_identity_def ipv4_lease_def Let_def)
qed

end
