(* ===== verification/Ovpn_Wrap.thy ===== *)
theory Ovpn_Wrap
  imports Ovpn_Packet Ovpn_Replay
begin

text \<open>
  Protection of the control channel (\<open>protocol/openvpn/control_wrap.rs\<close>, with the key slots of
  \<open>data.rs\<close>, the static key file of \<open>data_static.rs\<close> and the digests of \<open>data_crypto.rs\<close>): the
  packet-id counter, the \<open>tls-auth\<close> codec, the \<open>tls-crypt\<close> codec, the wrapped client keys of
  \<open>tls-crypt-v2\<close> and the early-negotiation flags.

  HMAC, AES in counter mode, the hexadecimal decoder and the PEM parser belong to other crates and
  are the fields of \<open>crypto\<close>; \<open>crypto_ok\<close> states what their documentation promises. Clock readings
  (\<open>unix_timestamp\<close>, \<open>Instant::now\<close>) are arguments.
\<close>

subsection \<open>Digests and keys\<close>

datatype auth_digest = NoAuth | Md5 | Sha1 | Sha224 | Sha256 | Sha384 | Sha512 | Ripemd160

record crypto =
  hmac :: "auth_digest \<Rightarrow> bytes \<Rightarrow> bytes \<Rightarrow> bytes"
  hmac_verify :: "auth_digest \<Rightarrow> bytes \<Rightarrow> bytes \<Rightarrow> bytes \<Rightarrow> bool"
  aes_ctr :: "bytes \<Rightarrow> bytes \<Rightarrow> bytes \<Rightarrow> bytes"
  hex_decode :: "bytes \<Rightarrow> bytes option"
  pem_parse :: "bytes \<Rightarrow> (string \<times> bytes) option"

definition auth_from_name :: "string \<Rightarrow> auth_digest option" where
  "auth_from_name name =
     (if name = ''NONE'' then Some NoAuth
      else if name = ''MD5'' then Some Md5
      else if name = [] \<or> name = ''SHA1'' then Some Sha1
      else if name = ''SHA224'' then Some Sha224
      else if name = ''SHA256'' then Some Sha256
      else if name = ''SHA384'' then Some Sha384
      else if name = ''SHA512'' then Some Sha512
      else if name = ''RIPEMD160'' then Some Ripemd160
      else None)"

fun output_size :: "auth_digest \<Rightarrow> nat" where
  "output_size NoAuth = 0"
| "output_size Md5 = 16"
| "output_size Sha1 = 20"
| "output_size Ripemd160 = 20"
| "output_size Sha224 = 28"
| "output_size Sha256 = 32"
| "output_size Sha384 = 48"
| "output_size Sha512 = 64"

definition sign :: "crypto \<Rightarrow> auth_digest \<Rightarrow> bytes \<Rightarrow> bytes \<Rightarrow> bytes" where
  "sign cr d key payload = (if d = NoAuth then [] else hmac cr d key payload)"

definition verify :: "crypto \<Rightarrow> auth_digest \<Rightarrow> bytes \<Rightarrow> bytes \<Rightarrow> bytes \<Rightarrow> bool" where
  "verify cr d key payload expected =
     (if d = NoAuth then expected = [] else hmac_verify cr d key payload expected)"

definition TLS_KEY_MATERIAL_LENGTH :: nat where "TLS_KEY_MATERIAL_LENGTH = 256"
definition TLS_CONTROL_HEADER_LENGTH :: nat where "TLS_CONTROL_HEADER_LENGTH = 9"
definition TLS_CONTROL_PACKET_ID_LENGTH :: nat where "TLS_CONTROL_PACKET_ID_LENGTH = 8"
definition TLS_CRYPT_TAG_LENGTH :: nat where "TLS_CRYPT_TAG_LENGTH = 32"
definition TLS_CRYPT_BLOCK_LENGTH :: nat where "TLS_CRYPT_BLOCK_LENGTH = 16"
definition TLS_CRYPT_V2_CLIENT_KEY_DATA_LENGTH :: nat where "TLS_CRYPT_V2_CLIENT_KEY_DATA_LENGTH = 256"
definition TLS_CRYPT_V2_SERVER_KEY_LENGTH :: nat where "TLS_CRYPT_V2_SERVER_KEY_LENGTH = 128"

lemmas wrap_consts = TLS_CONTROL_HEADER_LENGTH_def TLS_CONTROL_PACKET_ID_LENGTH_def TLS_CRYPT_TAG_LENGTH_def
  TLS_CRYPT_BLOCK_LENGTH_def

definition control_window :: replay_window where
  "control_window = \<lparr>rw_window_size = 64, rw_time_window = secs 15\<rparr>"

datatype control_wrap_error =
    InvalidControlPacket | AuthenticationFailed | ReplayedPacket | NoneAuth | KeyError
  | MissingWrappedClientKey | MissingServerKey | InvalidV2WrappedKey | InvalidV2WrappedKeyLength
  | InvalidV2ClientKey | InvalidV2ServerKey | V2PlaintextTooShort | MalformedEarlyNegotiation | InvalidPem

record static_key_slot =
  cipher_key :: bytes
  hmac_key :: bytes

definition slice :: "nat \<Rightarrow> nat \<Rightarrow> 'a list \<Rightarrow> 'a list" where
  "slice start stop xs = take (stop - start) (drop start xs)"

definition split_static_key_material :: "bytes \<Rightarrow> (static_key_slot \<times> static_key_slot) option" where
  "split_static_key_material material =
     (if length material \<ge> TLS_KEY_MATERIAL_LENGTH
      then Some (\<lparr>cipher_key = slice 0 64 material, hmac_key = slice 64 128 material\<rparr>,
                 \<lparr>cipher_key = slice 128 192 material, hmac_key = slice 192 256 material\<rparr>)
      else None)"

fun find_bytes :: "bytes \<Rightarrow> bytes \<Rightarrow> nat option" where
  "find_bytes needle [] = None"
| "find_bytes needle (x # xs) =
     (if take (length needle) (x # xs) = needle then Some 0 else map_option Suc (find_bytes needle xs))"

definition is_ascii_whitespace :: "u8 \<Rightarrow> bool" where
  "is_ascii_whitespace b \<longleftrightarrow> b \<in> {32, 9, 10, 12, 13}"

definition ascii_bytes :: "string \<Rightarrow> bytes" where
  "ascii_bytes s = map of_char s"

definition parse_openvpn_static_key :: "crypto \<Rightarrow> bytes \<Rightarrow> bytes option" where
  "parse_openvpn_static_key cr content =
     (let begin_mark = ascii_bytes ''-----BEGIN OpenVPN Static key V1-----'';
          end_mark = ascii_bytes ''-----END OpenVPN Static key V1-----'';
          decode = (\<lambda>encoded.
            let compact = filter (\<lambda>b. \<not> is_ascii_whitespace b) encoded
            in if length compact \<noteq> 512 then None else hex_decode cr compact)
      in if content = [] then None
         else if length content = 256 then Some content
         else case find_bytes begin_mark content of
                None \<Rightarrow> decode content
              | Some start \<Rightarrow>
                  let rest = drop (start + length begin_mark) content
                  in case find_bytes end_mark rest of
                       None \<Rightarrow> None
                     | Some stop \<Rightarrow> decode (take stop rest))"

text \<open>The slots to send with, to receive with first, and to fall back to.\<close>

definition resolve_direction :: "int \<Rightarrow> nat \<times> nat \<times> nat" where
  "resolve_direction direction =
     (if direction = 1 \<or> direction = 2 then (1, 0, 1)
      else if direction < 0 then (0, 0, 1)
      else (0, 1, 0))"

definition slot_at :: "static_key_slot \<times> static_key_slot \<Rightarrow> nat \<Rightarrow> static_key_slot" where
  "slot_at slots i = (if i = 0 then fst slots else snd slots)"

subsection \<open>Packet ids\<close>

record packet_id_state =
  pid_next_id :: u32
  pid_timestamp :: u32

definition packet_id_default :: packet_id_state where
  "packet_id_default = \<lparr>pid_next_id = 0, pid_timestamp = 0\<rparr>"

definition seed_next_id :: "u32 \<Rightarrow> u32 \<Rightarrow> packet_id_state \<Rightarrow> packet_id_state" where
  "seed_next_id now next_id s =
     \<lparr>pid_next_id = next_id, pid_timestamp = (if pid_timestamp s = 0 then now else pid_timestamp s)\<rparr>"

text \<open>One successful round of the compare-and-exchange loop.\<close>

definition next_packet_id :: "u32 \<Rightarrow> packet_id_state \<Rightarrow> packet_id_state \<times> bytes" where
  "next_packet_id now s =
     (let wraps = (pid_next_id s = - 1);
          next_id = (if wraps then 1 else pid_next_id s + 1);
          timestamp = (if wraps \<or> pid_timestamp s = 0 then max (pid_timestamp s) now else pid_timestamp s)
      in (\<lparr>pid_next_id = next_id, pid_timestamp = timestamp\<rparr>, be32 next_id @ be32 timestamp))"

definition accept_control_packet_id ::
  "bytes \<Rightarrow> instant \<Rightarrow> replay_inner \<Rightarrow> replay_inner \<times> (control_wrap_error + unit)" where
  "accept_control_packet_id packet_id now replay =
     (case accept_long_form_at control_window (of_be32 (take 4 packet_id)) (of_be32 (slice 4 8 packet_id)) now replay of
        (replay', accepted) \<Rightarrow> (replay', if accepted then Inr () else Inl ReplayedPacket))"

subsection \<open>tls-auth\<close>

record control_auth_codec =
  au_send_key :: bytes
  au_receive_keys :: "bytes list"
  au_send_state :: packet_id_state
  au_receive_state :: replay_inner
  au_auth :: auth_digest

definition control_auth_new :: "crypto \<Rightarrow> bytes \<Rightarrow> int \<Rightarrow> string \<Rightarrow> control_wrap_error + control_auth_codec" where
  "control_auth_new cr static_key key_direction auth_name =
     (case parse_openvpn_static_key cr static_key of
        None \<Rightarrow> Inl KeyError
      | Some material \<Rightarrow>
          (case auth_from_name auth_name of
             None \<Rightarrow> Inl KeyError
           | Some auth \<Rightarrow>
               if auth = NoAuth then Inl NoneAuth
               else case split_static_key_material material of
                      None \<Rightarrow> Inl KeyError
                    | Some slots \<Rightarrow>
                        (case resolve_direction key_direction of (send, receive, fallback) \<Rightarrow>
                          let key = (\<lambda>i. take (output_size auth) (hmac_key (slot_at slots i)))
                          in Inr \<lparr>au_send_key = key send,
                               au_receive_keys = key receive # (if fallback \<noteq> receive then [key fallback] else []),
                               au_send_state = packet_id_default,
                               au_receive_state = replay_new control_window, au_auth = auth\<rparr>)))"

definition auth_new_session_codec :: "control_auth_codec \<Rightarrow> control_auth_codec" where
  "auth_new_session_codec c =
     c\<lparr>au_send_state := packet_id_default, au_receive_state := replay_new control_window\<rparr>"

definition auth_encode :: "crypto \<Rightarrow> u32 \<Rightarrow> bytes \<Rightarrow> control_auth_codec \<Rightarrow> control_auth_codec \<times> bytes" where
  "auth_encode cr unix raw_packet c =
     (if length raw_packet < TLS_CONTROL_HEADER_LENGTH then (c, raw_packet)
      else case next_packet_id unix (au_send_state c) of (st, packet_id) \<Rightarrow>
        let digest = sign cr (au_auth c) (au_send_key c) (packet_id @ raw_packet)
        in (c\<lparr>au_send_state := st\<rparr>,
            take TLS_CONTROL_HEADER_LENGTH raw_packet @ digest @ packet_id @ drop TLS_CONTROL_HEADER_LENGTH raw_packet))"

definition auth_decode ::
  "crypto \<Rightarrow> instant \<Rightarrow> bytes \<Rightarrow> control_auth_codec \<Rightarrow> control_auth_codec \<times> (control_wrap_error + bytes)" where
  "auth_decode cr now raw_packet c =
     (let digest_size = output_size (au_auth c)
      in if length raw_packet < TLS_CONTROL_HEADER_LENGTH + digest_size + TLS_CONTROL_PACKET_ID_LENGTH
         then (c, Inl InvalidControlPacket)
         else
           let header = take TLS_CONTROL_HEADER_LENGTH raw_packet;
               digest = slice TLS_CONTROL_HEADER_LENGTH (TLS_CONTROL_HEADER_LENGTH + digest_size) raw_packet;
               packet_id_start = TLS_CONTROL_HEADER_LENGTH + digest_size;
               packet_id = slice packet_id_start (packet_id_start + TLS_CONTROL_PACKET_ID_LENGTH) raw_packet;
               body = drop (packet_id_start + TLS_CONTROL_PACKET_ID_LENGTH) raw_packet
           in case find (\<lambda>key. verify cr (au_auth c) key (packet_id @ header @ body) digest) (au_receive_keys c) of
                None \<Rightarrow> (c, Inl AuthenticationFailed)
              | Some _ \<Rightarrow>
                  (case accept_control_packet_id packet_id now (au_receive_state c) of
                     (replay, Inl e) \<Rightarrow> (c\<lparr>au_receive_state := replay\<rparr>, Inl e)
                   | (replay, Inr _) \<Rightarrow> (c\<lparr>au_receive_state := replay\<rparr>, Inr (header @ body))))"

subsection \<open>tls-crypt\<close>

record crypt_candidate =
  cc_encrypt_key :: bytes
  cc_auth_key :: bytes

record control_crypt_codec =
  cy_send :: crypt_candidate
  cy_receive_candidates :: "crypt_candidate list"
  cy_send_state :: packet_id_state
  cy_receive_state :: replay_inner

definition crypt_from_material :: "bytes \<Rightarrow> int \<Rightarrow> control_wrap_error + control_crypt_codec" where
  "crypt_from_material material key_direction =
     (case split_static_key_material material of
        None \<Rightarrow> Inl KeyError
      | Some slots \<Rightarrow>
          (case resolve_direction key_direction of (send, receive, fallback) \<Rightarrow>
            let candidate = (\<lambda>i. \<lparr>cc_encrypt_key = take 32 (cipher_key (slot_at slots i)),
                                  cc_auth_key = take 32 (hmac_key (slot_at slots i))\<rparr>)
            in Inr \<lparr>cy_send = candidate send,
                 cy_receive_candidates = candidate receive # (if fallback \<noteq> receive then [candidate fallback] else []),
                 cy_send_state = packet_id_default, cy_receive_state = replay_new control_window\<rparr>))"

definition control_crypt_new :: "crypto \<Rightarrow> bytes \<Rightarrow> int \<Rightarrow> control_wrap_error + control_crypt_codec" where
  "control_crypt_new cr static_key key_direction =
     (case parse_openvpn_static_key cr static_key of
        None \<Rightarrow> Inl KeyError
      | Some material \<Rightarrow> crypt_from_material material key_direction)"

definition crypt_new_session_codec :: "control_crypt_codec \<Rightarrow> control_crypt_codec" where
  "crypt_new_session_codec c =
     c\<lparr>cy_send_state := packet_id_default, cy_receive_state := replay_new control_window\<rparr>"

definition crypt_encode :: "crypto \<Rightarrow> u32 \<Rightarrow> bytes \<Rightarrow> control_crypt_codec \<Rightarrow> control_crypt_codec \<times> bytes" where
  "crypt_encode cr unix raw_packet c =
     (if length raw_packet < TLS_CONTROL_HEADER_LENGTH then (c, raw_packet)
      else
        let header = take TLS_CONTROL_HEADER_LENGTH raw_packet; body = drop TLS_CONTROL_HEADER_LENGTH raw_packet
        in case next_packet_id unix (cy_send_state c) of (st, packet_id) \<Rightarrow>
             let tag = sign cr Sha256 (cc_auth_key (cy_send c)) (header @ packet_id @ body);
                 ciphertext = aes_ctr cr (cc_encrypt_key (cy_send c)) (take 16 tag) body
             in (c\<lparr>cy_send_state := st\<rparr>, header @ packet_id @ tag @ ciphertext))"

definition crypt_plaintext :: "crypto \<Rightarrow> crypt_candidate \<Rightarrow> bytes \<Rightarrow> bytes \<Rightarrow> bytes" where
  "crypt_plaintext cr candidate tag ciphertext = aes_ctr cr (cc_encrypt_key candidate) (take 16 tag) ciphertext"

definition crypt_decode ::
  "crypto \<Rightarrow> instant \<Rightarrow> bytes \<Rightarrow> control_crypt_codec \<Rightarrow> control_crypt_codec \<times> (control_wrap_error + bytes)" where
  "crypt_decode cr now raw_packet c =
     (if length raw_packet < TLS_CONTROL_HEADER_LENGTH + TLS_CONTROL_PACKET_ID_LENGTH + TLS_CRYPT_TAG_LENGTH
      then (c, Inl InvalidControlPacket)
      else
        let header = take TLS_CONTROL_HEADER_LENGTH raw_packet;
            tag_start = TLS_CONTROL_HEADER_LENGTH + TLS_CONTROL_PACKET_ID_LENGTH;
            packet_id = slice TLS_CONTROL_HEADER_LENGTH tag_start raw_packet;
            tag = slice tag_start (tag_start + TLS_CRYPT_TAG_LENGTH) raw_packet;
            ciphertext = drop (tag_start + TLS_CRYPT_TAG_LENGTH) raw_packet
        in case find (\<lambda>candidate. verify cr Sha256 (cc_auth_key candidate)
                       (header @ packet_id @ crypt_plaintext cr candidate tag ciphertext) tag)
                  (cy_receive_candidates c) of
             None \<Rightarrow> (c, Inl AuthenticationFailed)
           | Some candidate \<Rightarrow>
               (case accept_control_packet_id packet_id now (cy_receive_state c) of
                  (replay, Inl e) \<Rightarrow> (c\<lparr>cy_receive_state := replay\<rparr>, Inl e)
                | (replay, Inr _) \<Rightarrow>
                    (c\<lparr>cy_receive_state := replay\<rparr>, Inr (header @ crypt_plaintext cr candidate tag ciphertext))))"

subsection \<open>tls-crypt-v2\<close>

definition load_named_pem :: "crypto \<Rightarrow> bytes \<Rightarrow> string \<Rightarrow> control_wrap_error + bytes" where
  "load_named_pem cr input expected_type =
     (case pem_parse cr input of
        None \<Rightarrow> Inl InvalidPem
      | Some (tag, contents) \<Rightarrow> if tag \<noteq> expected_type then Inl InvalidPem else Inr contents)"

definition load_tls_crypt_v2_client_key :: "crypto \<Rightarrow> bytes \<Rightarrow> control_wrap_error + bytes \<times> bytes" where
  "load_tls_crypt_v2_client_key cr input =
     (case load_named_pem cr input ''OpenVPN tls-crypt-v2 client key'' of
        Inl e \<Rightarrow> Inl e
      | Inr key \<Rightarrow>
          if length key < TLS_CRYPT_V2_CLIENT_KEY_DATA_LENGTH then Inl InvalidV2ClientKey
          else
            let material = take TLS_CRYPT_V2_CLIENT_KEY_DATA_LENGTH key;
                wrapped = drop TLS_CRYPT_V2_CLIENT_KEY_DATA_LENGTH key
            in if wrapped = [] then Inl MissingWrappedClientKey else Inr (material, wrapped))"

definition load_tls_crypt_v2_server_key :: "crypto \<Rightarrow> bytes \<Rightarrow> control_wrap_error + bytes" where
  "load_tls_crypt_v2_server_key cr input =
     (case load_named_pem cr input ''OpenVPN tls-crypt-v2 server key'' of
        Inl e \<Rightarrow> Inl e
      | Inr key \<Rightarrow>
          if length key < TLS_CRYPT_V2_SERVER_KEY_LENGTH then Inl InvalidV2ServerKey
          else Inr (take TLS_CRYPT_V2_SERVER_KEY_LENGTH key))"

definition last_u16 :: "bytes \<Rightarrow> nat" where
  "last_u16 b = unat (of_be16 (drop (length b - 2) b))"

definition unwrap_tls_crypt_v2_client_key :: "crypto \<Rightarrow> bytes \<Rightarrow> bytes \<Rightarrow> control_wrap_error + bytes" where
  "unwrap_tls_crypt_v2_client_key cr wrapped server_key =
     (if length server_key < TLS_CRYPT_V2_SERVER_KEY_LENGTH then Inl InvalidV2ServerKey
      else if length wrapped < TLS_CRYPT_TAG_LENGTH + 2 then Inl InvalidV2WrappedKey
      else if last_u16 wrapped \<noteq> length wrapped then Inl InvalidV2WrappedKeyLength
      else
        let tag = take TLS_CRYPT_TAG_LENGTH wrapped;
            ciphertext = slice TLS_CRYPT_TAG_LENGTH (length wrapped - 2) wrapped;
            plaintext = aes_ctr cr (take 32 server_key) (take 16 tag) ciphertext;
            len = drop (length wrapped - 2) wrapped
        in if \<not> verify cr Sha256 (slice 64 96 server_key) (len @ plaintext) tag then Inl AuthenticationFailed
           else if length plaintext < TLS_CRYPT_V2_CLIENT_KEY_DATA_LENGTH then Inl V2PlaintextTooShort
           else Inr (take TLS_CRYPT_V2_CLIENT_KEY_DATA_LENGTH plaintext))"

definition append_tls_crypt_v2_wrapped_client_key :: "bytes \<Rightarrow> bytes \<Rightarrow> opcode \<Rightarrow> bytes" where
  "append_tls_crypt_v2_wrapped_client_key raw_packet wrapped_client_key op =
     (if wrapped_client_key \<noteq> [] \<and> (op = ControlHardResetClientV3 \<or> op = ControlWkcV1)
      then raw_packet @ wrapped_client_key else raw_packet)"

definition tls_crypt_v2_reset_announces_early_negotiation :: "bytes \<Rightarrow> bool" where
  "tls_crypt_v2_reset_announces_early_negotiation raw_packet =
     (if length raw_packet < TLS_CONTROL_HEADER_LENGTH + 4 then False
      else
        let packet_id = of_be32 (slice TLS_CONTROL_HEADER_LENGTH (TLS_CONTROL_HEADER_LENGTH + 4) raw_packet)
        in packet_id AND 0x0f000000 = 0x0f000000)"

function early_negotiation_loop :: "u16 \<Rightarrow> bytes \<Rightarrow> control_wrap_error + u16" where
  "early_negotiation_loop flags payload =
     (if payload = [] then Inr flags
      else if length payload < 4 then Inl MalformedEarlyNegotiation
      else
        let kind = of_be16 (take 2 payload); len = unat (of_be16 (slice 2 4 payload)); rest = drop 4 payload
        in if length rest < len then Inl MalformedEarlyNegotiation
           else if kind = 1 then
             (if len \<noteq> 2 then Inl MalformedEarlyNegotiation
              else early_negotiation_loop (flags OR of_be16 (take len rest)) (drop len rest))
           else early_negotiation_loop flags (drop len rest))"
  by pat_completeness auto
termination by (relation "measure (length \<circ> snd)") auto

declare early_negotiation_loop.simps [simp del]

definition parse_tls_crypt_v2_early_negotiation_flags :: "bytes \<Rightarrow> control_wrap_error + u16" where
  "parse_tls_crypt_v2_early_negotiation_flags payload = early_negotiation_loop 0 payload"

definition tls_crypt_v2_server_requests_wrapped_client_key_resend :: "bytes \<Rightarrow> control_wrap_error + bool" where
  "tls_crypt_v2_server_requests_wrapped_client_key_resend payload =
     (case parse_tls_crypt_v2_early_negotiation_flags payload of
        Inl e \<Rightarrow> Inl e
      | Inr flags \<Rightarrow> Inr (flags AND 1 \<noteq> 0))"

subsection \<open>The protection of a channel\<close>

record tls_control_protection =
  prot_auth :: "control_auth_codec option"
  prot_crypt :: "control_crypt_codec option"
  prot_crypt_v2_server_key :: bytes

definition protection_default :: tls_control_protection where
  "protection_default = \<lparr>prot_auth = None, prot_crypt = None, prot_crypt_v2_server_key = []\<rparr>"

definition new_session_protection :: "tls_control_protection \<Rightarrow> tls_control_protection" where
  "new_session_protection p =
     p\<lparr>prot_auth := map_option auth_new_session_codec (prot_auth p),
       prot_crypt := map_option crypt_new_session_codec (prot_crypt p)\<rparr>"

definition control_packet_overhead :: "tls_control_protection \<Rightarrow> nat" where
  "control_packet_overhead p =
     (if prot_crypt p \<noteq> None \<or> prot_crypt_v2_server_key p \<noteq> []
      then TLS_CONTROL_PACKET_ID_LENGTH + TLS_CRYPT_TAG_LENGTH + TLS_CRYPT_BLOCK_LENGTH
      else case prot_auth p of
             Some auth \<Rightarrow> output_size (au_auth auth) + TLS_CONTROL_PACKET_ID_LENGTH
           | None \<Rightarrow> 0)"

definition protection_encode :: "crypto \<Rightarrow> u32 \<Rightarrow> bytes \<Rightarrow> tls_control_protection \<Rightarrow> tls_control_protection \<times> bytes" where
  "protection_encode cr unix raw_packet p =
     (case prot_crypt p of
        Some crypt \<Rightarrow> (case crypt_encode cr unix raw_packet crypt of (c, out) \<Rightarrow> (p\<lparr>prot_crypt := Some c\<rparr>, out))
      | None \<Rightarrow>
          (case prot_auth p of
             Some auth \<Rightarrow> (case auth_encode cr unix raw_packet auth of (c, out) \<Rightarrow> (p\<lparr>prot_auth := Some c\<rparr>, out))
           | None \<Rightarrow> (p, raw_packet)))"

definition extract_tls_crypt_v2_client_key ::
  "crypto \<Rightarrow> bytes \<Rightarrow> tls_control_protection \<Rightarrow> tls_control_protection \<times> (control_wrap_error + bytes)" where
  "extract_tls_crypt_v2_client_key cr raw_packet p =
     (if prot_crypt_v2_server_key p = [] then (p, Inl MissingServerKey)
      else if length raw_packet < TLS_CONTROL_HEADER_LENGTH + 2 then (p, Inl InvalidV2WrappedKey)
      else
        let wrapped_length = last_u16 raw_packet
        in if wrapped_length < TLS_CRYPT_TAG_LENGTH + 2 \<or> wrapped_length > length raw_packet - TLS_CONTROL_HEADER_LENGTH
           then (p, Inl InvalidV2WrappedKey)
           else
             let packet_end = length raw_packet - wrapped_length; packet = take packet_end raw_packet
             in case prot_crypt p of
                  Some _ \<Rightarrow> (p, Inr packet)
                | None \<Rightarrow>
                    (case unwrap_tls_crypt_v2_client_key cr (drop packet_end raw_packet) (prot_crypt_v2_server_key p) of
                       Inl e \<Rightarrow> (p, Inl e)
                     | Inr material \<Rightarrow>
                         (case crypt_from_material material 0 of
                            Inl e \<Rightarrow> (p, Inl e)
                          | Inr crypt \<Rightarrow> (p\<lparr>prot_crypt := Some crypt\<rparr>, Inr packet))))"

definition protection_decode ::
  "crypto \<Rightarrow> instant \<Rightarrow> bytes \<Rightarrow> tls_control_protection \<Rightarrow> tls_control_protection \<times> (control_wrap_error + bytes)" where
  "protection_decode cr now raw_packet p =
     (if length raw_packet < TLS_CONTROL_HEADER_LENGTH then (p, Inl InvalidControlPacket)
      else
        let op = from_wire (drop_bit 3 (hd raw_packet))
        in case (if op = ControlHardResetClientV3 \<or> op = ControlWkcV1
                 then extract_tls_crypt_v2_client_key cr raw_packet p else (p, Inr raw_packet)) of
             (p1, Inl e) \<Rightarrow> (p1, Inl e)
           | (p1, Inr packet) \<Rightarrow>
               (case prot_crypt p1 of
                  Some crypt \<Rightarrow> (case crypt_decode cr now packet crypt of (c, r) \<Rightarrow> (p1\<lparr>prot_crypt := Some c\<rparr>, r))
                | None \<Rightarrow>
                    (case prot_auth p1 of
                       Some auth \<Rightarrow> (case auth_decode cr now packet auth of (c, r) \<Rightarrow> (p1\<lparr>prot_auth := Some c\<rparr>, r))
                     | None \<Rightarrow>
                         if prot_crypt_v2_server_key p1 \<noteq> [] then (p1, Inl MissingWrappedClientKey)
                         else (p1, Inr packet))))"

subsection \<open>Unwrapping what was wrapped\<close>

text \<open>
  What the crates document: verification compares with the computed tag, a tag has the digest's
  size, and the counter-mode key stream is its own inverse and keeps the length.
\<close>

definition crypto_ok :: "crypto \<Rightarrow> bool" where
  "crypto_ok cr \<longleftrightarrow>
     (\<forall>d k m t. d \<noteq> NoAuth \<longrightarrow> hmac_verify cr d k m t = (t = hmac cr d k m) \<and> length (hmac cr d k m) = output_size d)
   \<and> (\<forall>k iv x. aes_ctr cr k iv (aes_ctr cr k iv x) = x \<and> length (aes_ctr cr k iv x) = length x)"

lemma slice_append [simp]:
  "length xs = a \<Longrightarrow> slice a b (xs @ ys) = take (b - a) ys"
  by (simp add: slice_def)

lemma verify_sign: "crypto_ok cr \<Longrightarrow> verify cr d k m t \<longleftrightarrow> t = sign cr d k m"
  by (simp add: verify_def sign_def crypto_ok_def)

lemma length_sign [simp]: "crypto_ok cr \<Longrightarrow> length (sign cr d k m) = output_size d"
  by (simp add: sign_def crypto_ok_def)

lemma next_packet_id_bytes:
  assumes "next_packet_id now s = (s', pid)"
  shows "length pid = 8" "of_be32 (take 4 pid) = pid_next_id s'" "of_be32 (slice 4 8 pid) = pid_timestamp s'"
  using assms by (auto simp: next_packet_id_def Let_def)

text \<open>The replay check of a packet, by its number and the time stamp of its epoch.\<close>

definition fresh_id :: "u32 \<times> u32 \<Rightarrow> instant \<Rightarrow> replay_inner \<Rightarrow> replay_inner \<times> bool" where
  "fresh_id key now s = accept_long_form_at control_window (snd key) (fst key) now s"

definition sent_key :: "packet_id_state \<Rightarrow> u32 \<times> u32" where
  "sent_key s = (pid_timestamp s, pid_next_id s)"

lemma accept_sent:
  assumes "next_packet_id unix s = (s', pid)"
  shows "accept_control_packet_id pid now r =
    (case fresh_id (sent_key s') now r of (r', ok) \<Rightarrow> (r', if ok then Inr () else Inl ReplayedPacket))"
  by (simp add: accept_control_packet_id_def next_packet_id_bytes [OF assms] fresh_id_def sent_key_def)

lemma auth_decode_encode:
  assumes cr: "crypto_ok cr" and len: "9 \<le> length raw" and match: "au_auth d = au_auth c" "au_send_key c \<in> set (au_receive_keys d)"
    and enc: "auth_encode cr unix raw c = (c', out)"
  shows "auth_decode cr now out d =
    (case fresh_id (sent_key (au_send_state c')) now (au_receive_state d) of
       (r, ok) \<Rightarrow> (d\<lparr>au_receive_state := r\<rparr>, if ok then Inr raw else Inl ReplayedPacket))"
proof -
  obtain st pid where pid: "next_packet_id unix (au_send_state c) = (st, pid)" by fastforce
  let ?tag = "sign cr (au_auth c) (au_send_key c) (pid @ raw)"
  have out: "out = take 9 raw @ ?tag @ pid @ drop 9 raw" "c' = c\<lparr>au_send_state := st\<rparr>"
    using enc len pid by (auto simp: auth_encode_def wrap_consts)
  note n = next_packet_id_bytes(1) [OF pid]
  have parts: "take 9 out = take 9 raw" "slice 9 (9 + output_size (au_auth c)) out = ?tag"
      "slice (9 + output_size (au_auth c)) (9 + output_size (au_auth c) + 8) out = pid"
      "drop (9 + output_size (au_auth c) + 8) out = drop 9 raw" "9 + output_size (au_auth c) + 8 \<le> length out"
    using len cr n by (simp_all add: out slice_def)
  have "find (\<lambda>key. verify cr (au_auth c) key (pid @ take 9 raw @ drop 9 raw) ?tag) (au_receive_keys d) \<noteq> None"
    using match(2) cr by (auto simp: find_None_iff verify_sign)
  then show ?thesis
    using parts match(1) accept_sent [OF pid, of now "au_receive_state d"] out(2)
    by (auto simp: auth_decode_def wrap_consts Let_def split: prod.splits option.splits)
qed

lemma crypt_decode_encode:
  assumes cr: "crypto_ok cr" and len: "9 \<le> length raw" and match: "cy_receive_candidates d = cy_send c # others"
    and enc: "crypt_encode cr unix raw c = (c', out)"
  shows "crypt_decode cr now out d =
    (case fresh_id (sent_key (cy_send_state c')) now (cy_receive_state d) of
       (r, ok) \<Rightarrow> (d\<lparr>cy_receive_state := r\<rparr>, if ok then Inr raw else Inl ReplayedPacket))"
proof -
  obtain st pid where pid: "next_packet_id unix (cy_send_state c) = (st, pid)" by fastforce
  let ?tag = "sign cr Sha256 (cc_auth_key (cy_send c)) (take 9 raw @ pid @ drop 9 raw)"
  let ?body = "aes_ctr cr (cc_encrypt_key (cy_send c)) (take 16 ?tag) (drop 9 raw)"
  have out: "out = take 9 raw @ pid @ ?tag @ ?body" "c' = c\<lparr>cy_send_state := st\<rparr>"
    using enc len pid by (auto simp: crypt_encode_def wrap_consts Let_def)
  note n = next_packet_id_bytes(1) [OF pid]
  have parts: "take 9 out = take 9 raw" "slice 9 17 out = pid" "slice 17 49 out = ?tag" "drop 49 out = ?body" "49 \<le> length out"
    using len cr n by (simp_all add: out slice_def)
  have plain: "crypt_plaintext cr (cy_send c) ?tag ?body = drop 9 raw"
    using cr by (simp add: crypt_plaintext_def crypto_ok_def)
  show ?thesis
    using parts match cr plain accept_sent [OF pid, of now "cy_receive_state d"] out(2)
    by (auto simp: crypt_decode_def wrap_consts Let_def verify_sign split: prod.splits)
qed

subsection \<open>A protected packet is accepted once\<close>

text \<open>
  The contract of both codecs: encoding numbers the packet with the sender's counter, and decoding
  what a matching sender encoded gives the packet back exactly when its number is fresh.
\<close>

fun encode_all :: "(u32 \<Rightarrow> bytes \<Rightarrow> 'c \<Rightarrow> 'c \<times> bytes) \<Rightarrow> (u32 \<times> bytes) list \<Rightarrow> 'c \<Rightarrow> bytes list" where
  "encode_all enc [] c = []"
| "encode_all enc ((unix, raw) # rest) c = (case enc unix raw c of (c', out) \<Rightarrow> out # encode_all enc rest c')"

fun decode_all :: "(instant \<Rightarrow> bytes \<Rightarrow> 'c \<Rightarrow> 'c \<times> ('e + bytes)) \<Rightarrow> (instant \<times> bytes) list \<Rightarrow> 'c \<Rightarrow> ('e + bytes) list" where
  "decode_all dec [] d = []"
| "decode_all dec ((now, out) # rest) d = (case dec now out d of (d', r) \<Rightarrow> r # decode_all dec rest d')"

fun number_all :: "u32 list \<Rightarrow> packet_id_state \<Rightarrow> (u32 \<times> u32) list" where
  "number_all [] s = []"
| "number_all (unix # rest) s = (let s' = fst (next_packet_id unix s) in sent_key s' # number_all rest s')"

lemma length_number_all [simp]: "length (number_all us s) = length us"
  by (induction us arbitrary: s) (auto simp: Let_def)

lemma number_all_nth:
  "unat (pid_next_id s) + length us < 2 ^ 32 \<Longrightarrow> i < length us \<Longrightarrow>
    unat (snd (number_all us s ! i)) = unat (pid_next_id s) + i + 1"
proof (induction us arbitrary: s i)
  case (Cons u us)
  have "unat (pid_next_id s + 1) = unat (pid_next_id s) + unat (1 :: u32)"
    using Cons.prems(1) by (intro iffD1 [OF unat_add_lem]) simp
  then have "pid_next_id s \<noteq> - 1" by fastforce
  then have step: "unat (pid_next_id (fst (next_packet_id u s))) = Suc (unat (pid_next_id s))"
    by (simp add: next_packet_id_def Let_def unat_succ)
  show ?case
  proof (cases i)
    case 0
    then show ?thesis using step by (simp add: Let_def sent_key_def)
  next
    case (Suc j)
    then show ?thesis using Cons.IH [of "fst (next_packet_id u s)" j] Cons.prems step by (simp add: Let_def)
  qed
qed simp

text \<open>A number ahead of everything the window has seen is fresh.\<close>

definition seen_upto :: "replay_inner \<Rightarrow> packet_id_state \<Rightarrow> bool" where
  "seen_upto r s \<longleftrightarrow> \<not> ri_initialized r \<or> ri_highest_timestamp r < pid_timestamp s
     \<or> ri_highest_timestamp r = pid_timestamp s \<and> ri_highest_id r \<le> pid_next_id s"

lemma fresh_id_next:
  assumes "seen_upto r s" "pid_next_id s \<noteq> - 1" "fresh_id (sent_key (fst (next_packet_id unix s))) now r = (r', ok)"
  shows "ok \<and> seen_upto r' (fst (next_packet_id unix s))"
proof -
  define s' where "s' = fst (next_packet_id unix s)"
  have id: "pid_next_id s < pid_next_id s'"
    using assms(2) unat_succ [of "pid_next_id s"] by (simp add: s'_def next_packet_id_def Let_def word_less_nat_alt)
  then have "pid_next_id s' \<noteq> 0" by auto
  have ts: "pid_timestamp s \<le> pid_timestamp s'" by (simp add: s'_def next_packet_id_def Let_def)
  show ?thesis
  proof (cases "ri_initialized r \<and> ri_highest_timestamp r = pid_timestamp s'")
    case True
    then have "ri_highest_id r < pid_next_id s'" using assms(1) ts id by (auto simp: seen_upto_def)
    then show ?thesis using assms(3) True \<open>pid_next_id s' \<noteq> 0\<close>
      by (auto simp: fresh_id_def sent_key_def accept_long_form_at_def accept_locked_def control_window_def reap_fields
          seen_upto_def Let_def simp flip: s'_def split: if_splits)
  next
    case False
    then have "\<not> ri_initialized r \<or> ri_highest_timestamp r < pid_timestamp s'"
      using assms(1) ts by (auto simp: seen_upto_def)
    moreover have "rw_window_size control_window \<noteq> 0" by (simp add: control_window_def)
    ultimately have "accept_long_form_at control_window (pid_next_id s') (pid_timestamp s') now r
        = (initialize control_window (pid_next_id s') (pid_timestamp s') now r, True)"
      using \<open>pid_next_id s' \<noteq> 0\<close> by (auto simp: accept_long_form_at_def)
    then show ?thesis using assms(3)
      by (auto simp: fresh_id_def sent_key_def seen_upto_def initialize_def Let_def simp flip: s'_def)
  qed
qed

text \<open>The packets of a delivery sequence that were opened.\<close>

definition opened :: "(instant \<times> nat) list \<Rightarrow> ('e + bytes) list \<Rightarrow> nat list" where
  "opened ds results = map (snd \<circ> fst) (filter (\<lambda>(_, r). \<not> isl r) (zip ds results))"

locale protected_codec =
  fixes enc :: "u32 \<Rightarrow> bytes \<Rightarrow> 'c \<Rightarrow> 'c \<times> bytes"
    and dec :: "instant \<Rightarrow> bytes \<Rightarrow> 'c \<Rightarrow> 'c \<times> ('e + bytes)"
    and send_state :: "'c \<Rightarrow> packet_id_state"
    and receive_state :: "'c \<Rightarrow> replay_inner"
    and matching :: "'c \<Rightarrow> 'c \<Rightarrow> bool"
  assumes enc_numbers: "9 \<le> length raw \<Longrightarrow> enc u raw c = (c', out) \<Longrightarrow> send_state c' = fst (next_packet_id u (send_state c))"
    and enc_matching: "matching c d \<Longrightarrow> enc u raw c = (c', out) \<Longrightarrow> matching c' d"
    and dec_matching: "matching c d \<Longrightarrow> dec now out d = (d', r) \<Longrightarrow> matching c d'"
    and dec_receive: "matching c d \<Longrightarrow> 9 \<le> length raw \<Longrightarrow> enc u raw c = (c', out) \<Longrightarrow> dec now out d = (d', r) \<Longrightarrow>
      (receive_state d', \<not> isl r) = fresh_id (sent_key (send_state c')) now (receive_state d)"
    and dec_result: "matching c d \<Longrightarrow> 9 \<le> length raw \<Longrightarrow> enc u raw c = (c', out) \<Longrightarrow> dec now out d = (d', Inr x) \<Longrightarrow> x = raw"
begin

text \<open>Each sealed packet by itself, against any later receiver.\<close>

lemma encode_all_nth:
  assumes "\<forall>(u, raw) \<in> set ins. 9 \<le> length raw" "i < length ins" "matching c d"
    and "dec now (encode_all enc ins c ! i) d = (d', r)"
  shows "(receive_state d', \<not> isl r) = fresh_id (number_all (map fst ins) (send_state c) ! i) now (receive_state d)
    \<and> (\<forall>x. r = Inr x \<longrightarrow> x = snd (ins ! i))"
  using assms
proof (induction ins arbitrary: c i)
  case (Cons e ins)
  obtain u raw where e: "e = (u, raw)" by fastforce
  obtain c' out where enc: "enc u raw c = (c', out)" by fastforce
  have len: "9 \<le> length raw" using Cons.prems(1) e by auto
  note numbers = enc_numbers [OF len enc]
  show ?case
  proof (cases i)
    case 0
    then have step: "dec now out d = (d', r)" using Cons.prems(4) by (simp add: e enc)
    have "\<forall>x. r = Inr x \<longrightarrow> x = raw" using dec_result [OF Cons.prems(3) len enc] step by blast
    then show ?thesis using dec_receive [OF Cons.prems(3) len enc step] by (simp add: 0 e numbers Let_def)
  next
    case (Suc j)
    have "\<forall>(u, raw) \<in> set ins. 9 \<le> length raw" "j < length ins" using Cons.prems(1,2) Suc by auto
    moreover have "dec now (encode_all enc ins c' ! j) d = (d', r)" using Cons.prems(4) by (simp add: e enc Suc)
    ultimately show ?thesis
      using Cons.IH [OF _ _ enc_matching [OF Cons.prems(3) enc]] by (simp add: Suc e numbers Let_def)
  qed
qed simp

lemma accepted_once:
  assumes ins: "\<forall>(u, raw) \<in> set ins. 9 \<le> length raw"
    and match: "matching c d" and wf: "replay_wf control_window (receive_state d)"
    and ds: "\<forall>(now, i) \<in> set ds. i < length ins"
  defines "results \<equiv> decode_all dec (map (\<lambda>(now, i). (now, encode_all enc ins c ! i)) ds) d"
  shows "list_all2 (\<lambda>(now, i) r. \<forall>x. r = Inr x \<longrightarrow> x = snd (ins ! i)) ds results \<and> distinct (opened ds results)"
proof -
  let ?keys = "number_all (map fst ins) (send_state c)"
  let ?log = "\<lambda>ds d. admitted (long_form control_window) (map (\<lambda>(now, i). (?keys ! i, now)) ds) (receive_state d)"
  let ?run = "\<lambda>ds d. decode_all dec (map (\<lambda>(now, i). (now, encode_all enc ins c ! i)) ds) d"
  have run: "list_all2 (\<lambda>(now, i) r. \<forall>x. r = Inr x \<longrightarrow> x = snd (ins ! i)) ds (?run ds d)
      \<and> map (\<lambda>i. ?keys ! i) (opened ds (?run ds d)) = map fst (?log ds d)"
    using match ds
  proof (induction ds arbitrary: d)
    case (Cons e ds)
    obtain now i where e: "e = (now, i)" by fastforce
    obtain d' r where step: "dec now (encode_all enc ins c ! i) d = (d', r)" by fastforce
    have i: "i < length ins" using Cons.prems(2) e by auto
    note one = encode_all_nth [OF ins i Cons.prems(1) step]
    have IH: "list_all2 (\<lambda>(now, i) r. \<forall>x. r = Inr x \<longrightarrow> x = snd (ins ! i)) ds (?run ds d')"
        "map (\<lambda>i. ?keys ! i) (opened ds (?run ds d')) = map fst (?log ds d')"
      using Cons.IH [OF dec_matching [OF Cons.prems(1) step]] Cons.prems(2) by simp_all
    have log: "?log (e # ds) d = (if isl r then [] else [(?keys ! i, now)]) @ ?log ds d'"
      using one [THEN conjunct1, symmetric] by (simp add: e long_form_def fresh_id_def)
    have "?run (e # ds) d = r # ?run ds d'" by (simp add: e step)
    moreover have "opened (e # ds) (r # ?run ds d') = (if isl r then [] else [i]) @ opened ds (?run ds d')"
      by (simp add: opened_def e)
    ultimately show ?case using IH log one [THEN conjunct2] by (simp add: e)
  qed (simp add: opened_def)
  have "distinct (map fst (?log ds d))" by (rule long_window.admitted_once [OF wf])
  then have "distinct (map (\<lambda>i. ?keys ! i) (opened ds results))" using run by (simp add: results_def)
  then have "distinct (opened ds results)" by (simp add: distinct_map)
  with run show ?thesis by (simp add: results_def)
qed

text \<open>In order and without loss, every packet is opened.\<close>

lemma in_order:
  assumes "\<forall>(u, raw) \<in> set ins. 9 \<le> length raw" "unat (pid_next_id (send_state c)) + length ins < 2 ^ 32"
    and "matching c d" "seen_upto (receive_state d) (send_state c)" "length nows = length ins"
  shows "decode_all dec (zip nows (encode_all enc ins c)) d = map (Inr \<circ> snd) ins"
  using assms
proof (induction ins arbitrary: c d nows)
  case (Cons e ins)
  obtain u raw where e: "e = (u, raw)" by fastforce
  obtain now nows' where nows: "nows = now # nows'" using Cons.prems(5) by (cases nows) auto
  obtain c' out where enc: "enc u raw c = (c', out)" by fastforce
  obtain d' r where step: "dec now out d = (d', r)" by fastforce
  have len: "9 \<le> length raw" using Cons.prems(1) e by auto
  note numbers = enc_numbers [OF len enc]
  have sum: "unat (pid_next_id (send_state c) + 1) = unat (pid_next_id (send_state c)) + unat (1 :: u32)"
    using Cons.prems(2) by (intro iffD1 [OF unat_add_lem]) simp
  then have max: "pid_next_id (send_state c) \<noteq> - 1" by fastforce
  have "pid_next_id (send_state c') = pid_next_id (send_state c) + 1"
    using max by (simp add: numbers next_packet_id_def Let_def)
  with sum have next_id: "unat (pid_next_id (send_state c')) = Suc (unat (pid_next_id (send_state c)))" by simp
  have fresh: "fresh_id (sent_key (send_state c')) now (receive_state d) = (receive_state d', \<not> isl r)"
    using dec_receive [OF Cons.prems(3) len enc step] by simp
  note new = fresh_id_next [OF Cons.prems(4) max fresh [unfolded numbers]]
  then have "r = Inr raw" using dec_result [OF Cons.prems(3) len enc] step by (cases r) auto
  moreover have "decode_all dec (zip nows' (encode_all enc ins c')) d' = map (Inr \<circ> snd) ins"
    using Cons.prems next_id nows new numbers enc_matching [OF dec_matching [OF Cons.prems(3) step] enc]
    by (intro Cons.IH) auto
  ultimately show ?case by (simp add: e nows enc step)
qed simp

end

text \<open>Both codecs keep the contract for a sender whose key the receiver tries.\<close>

definition auth_matching :: "crypto \<Rightarrow> control_auth_codec \<Rightarrow> control_auth_codec \<Rightarrow> bool" where
  "auth_matching cr c d \<longleftrightarrow> crypto_ok cr \<and> au_auth d = au_auth c \<and> au_send_key c \<in> set (au_receive_keys d)"

definition crypt_matching :: "crypto \<Rightarrow> control_crypt_codec \<Rightarrow> control_crypt_codec \<Rightarrow> bool" where
  "crypt_matching cr c d \<longleftrightarrow> crypto_ok cr \<and> (\<exists>others. cy_receive_candidates d = cy_send c # others)"

interpretation tls_auth: protected_codec "auth_encode cr" "auth_decode cr" au_send_state au_receive_state "auth_matching cr" for cr
proof unfold_locales
  fix raw u c c' out d now d' r
  show "au_send_state c' = fst (next_packet_id u (au_send_state c))" if "9 \<le> length raw" "auth_encode cr u raw c = (c', out)"
    using that by (auto simp: auth_encode_def wrap_consts Let_def split: prod.splits)
  show "auth_matching cr c' d" if "auth_matching cr c d" "auth_encode cr u raw c = (c', out)"
    using that by (auto simp: auth_encode_def auth_matching_def Let_def split: prod.splits if_splits)
  show "auth_matching cr c d'" if "auth_matching cr c d" "auth_decode cr now out d = (d', r)"
    using that by (auto simp: auth_decode_def auth_matching_def Let_def split: prod.splits if_splits option.splits sum.splits)
  show "(au_receive_state d', \<not> isl r) = fresh_id (sent_key (au_send_state c')) now (au_receive_state d)"
    if "auth_matching cr c d" "9 \<le> length raw" "auth_encode cr u raw c = (c', out)" "auth_decode cr now out d = (d', r)"
    using that auth_decode_encode [of cr raw d c u c' out now] by (auto simp: auth_matching_def split: prod.splits if_splits)
  show "x = raw"
    if "auth_matching cr c d" "9 \<le> length raw" "auth_encode cr u raw c = (c', out)" "auth_decode cr now out d = (d', Inr x)" for x
    using that auth_decode_encode [of cr raw d c u c' out now] by (auto simp: auth_matching_def split: prod.splits if_splits)
qed

interpretation tls_crypt: protected_codec "crypt_encode cr" "crypt_decode cr" cy_send_state cy_receive_state "crypt_matching cr" for cr
proof unfold_locales
  fix raw u c c' out d now d' r
  show "cy_send_state c' = fst (next_packet_id u (cy_send_state c))" if "9 \<le> length raw" "crypt_encode cr u raw c = (c', out)"
    using that by (auto simp: crypt_encode_def wrap_consts Let_def split: prod.splits)
  show "crypt_matching cr c' d" if "crypt_matching cr c d" "crypt_encode cr u raw c = (c', out)"
    using that by (auto simp: crypt_encode_def crypt_matching_def Let_def split: prod.splits if_splits)
  show "crypt_matching cr c d'" if "crypt_matching cr c d" "crypt_decode cr now out d = (d', r)"
    using that by (auto simp: crypt_decode_def crypt_matching_def Let_def split: prod.splits if_splits option.splits sum.splits)
  show "(cy_receive_state d', \<not> isl r) = fresh_id (sent_key (cy_send_state c')) now (cy_receive_state d)"
    if "crypt_matching cr c d" "9 \<le> length raw" "crypt_encode cr u raw c = (c', out)" "crypt_decode cr now out d = (d', r)"
    using that crypt_decode_encode [of cr raw d c _ u c' out now] by (auto simp: crypt_matching_def split: prod.splits if_splits)
  show "x = raw"
    if "crypt_matching cr c d" "9 \<le> length raw" "crypt_encode cr u raw c = (c', out)" "crypt_decode cr now out d = (d', Inr x)" for x
    using that crypt_decode_encode [of cr raw d c _ u c' out now] by (auto simp: crypt_matching_def split: prod.splits if_splits)
qed

text \<open>Two peers with the same key file and opposite directions, or both without one, match.\<close>

definition opposite :: "int \<Rightarrow> int \<Rightarrow> bool" where
  "opposite da db \<longleftrightarrow> (da, db) \<in> {(0, 1), (1, 0)} \<or> da < 0 \<and> db < 0"

lemma crypt_peers_match:
  assumes "crypto_ok cr" "control_crypt_new cr key da = Inr a" "control_crypt_new cr key db = Inr b" "opposite da db"
  shows "crypt_matching cr a b" "cy_receive_state b = replay_new control_window" "cy_send_state a = packet_id_default"
  using assms
  by (auto simp: control_crypt_new_def crypt_from_material_def crypt_matching_def opposite_def resolve_direction_def Let_def
      split: option.splits if_splits)

lemma auth_peers_match:
  assumes "crypto_ok cr" "control_auth_new cr key da name = Inr a" "control_auth_new cr key db name = Inr b" "opposite da db"
  shows "auth_matching cr a b" "au_receive_state b = replay_new control_window" "au_send_state a = packet_id_default"
  using assms
  by (auto simp: control_auth_new_def auth_matching_def opposite_def resolve_direction_def Let_def
      split: option.splits if_splits)

lemma seen_upto_new [simp]: "seen_upto (replay_new W) s"
  by (simp add: seen_upto_def replay_new_def)

text \<open>
  Property C8. Protected control packets. Two peers share a static key file and use opposite key
  directions. Of the packets the first one wraps, with \<open>tls-crypt\<close> or with \<open>tls-auth\<close>, the second
  may receive any in any order, any number of times and at any time: whatever it unwraps is the
  packet that was wrapped, no packet is unwrapped twice, and packets that arrive in order without
  loss are all unwrapped.
\<close>

theorem control_protection_exact:
  assumes cr: "crypto_ok cr" and dirs: "opposite da db"
    and crypt: "control_crypt_new cr key da = Inr ca" "control_crypt_new cr key db = Inr cb"
    and auth: "control_auth_new cr key da name = Inr aa" "control_auth_new cr key db name = Inr ab"
    and ins: "\<forall>(unix, raw) \<in> set ins. TLS_CONTROL_HEADER_LENGTH \<le> length raw" "length ins < 2 ^ 32"
    and ds: "\<forall>(now, i) \<in> set ds. i < length ins" "length nows = length ins"
  shows "(let outs = encode_all (crypt_encode cr) ins ca;
              results = decode_all (crypt_decode cr) (map (\<lambda>(now, i). (now, outs ! i)) ds) cb
          in list_all2 (\<lambda>(now, i) r. \<forall>x. r = Inr x \<longrightarrow> x = snd (ins ! i)) ds results
            \<and> distinct (opened ds results)
            \<and> decode_all (crypt_decode cr) (zip nows outs) cb = map (Inr \<circ> snd) ins)
    \<and> (let outs = encode_all (auth_encode cr) ins aa;
              results = decode_all (auth_decode cr) (map (\<lambda>(now, i). (now, outs ! i)) ds) ab
          in list_all2 (\<lambda>(now, i) r. \<forall>x. r = Inr x \<longrightarrow> x = snd (ins ! i)) ds results
            \<and> distinct (opened ds results)
            \<and> decode_all (auth_decode cr) (zip nows outs) ab = map (Inr \<circ> snd) ins)"
proof -
  note cm = crypt_peers_match [OF cr crypt dirs] and am = auth_peers_match [OF cr auth dirs]
  have len: "\<forall>(u, raw) \<in> set ins. 9 \<le> length raw" using ins(1) by (simp add: wrap_consts)
  have few: "unat (pid_next_id packet_id_default) + length ins < 2 ^ 32" using ins(2) by (simp add: packet_id_default_def)
  have wf: "replay_wf control_window (cy_receive_state cb)" "replay_wf control_window (au_receive_state ab)"
    using cm(2) am(2) by (simp_all add: replay_wf_new)
  have "decode_all (crypt_decode cr) (zip nows (encode_all (crypt_encode cr) ins ca)) cb = map (Inr \<circ> snd) ins"
    using few cm ds(2) by (intro tls_crypt.in_order [OF len]) simp_all
  moreover have "decode_all (auth_decode cr) (zip nows (encode_all (auth_encode cr) ins aa)) ab = map (Inr \<circ> snd) ins"
    using few am ds(2) by (intro tls_auth.in_order [OF len]) simp_all
  ultimately show ?thesis
    unfolding Let_def
    using tls_crypt.accepted_once [OF len cm(1) wf(1) ds(1)] tls_auth.accepted_once [OF len am(1) wf(2) ds(1)] by blast
qed

text \<open>A stand-in for the crates that keeps their contract.\<close>

definition plain_crypto :: crypto where
  "plain_crypto = \<lparr>hmac = (\<lambda>d k m. replicate (output_size d) 0),
     hmac_verify = (\<lambda>d k m t. t = replicate (output_size d) 0),
     aes_ctr = (\<lambda>k iv x. x), hex_decode = (\<lambda>_. None), pem_parse = (\<lambda>_. None)\<rparr>"

lemma plain_crypto_ok: "crypto_ok plain_crypto"
  by (simp add: crypto_ok_def plain_crypto_def)

theorem control_protection_exact_witness:
  "\<exists>ca cb aa ab. control_crypt_new plain_crypto (replicate 256 7) 0 = Inr ca
    \<and> control_crypt_new plain_crypto (replicate 256 7) 1 = Inr cb
    \<and> control_auth_new plain_crypto (replicate 256 7) 0 ''SHA256'' = Inr aa
    \<and> control_auth_new plain_crypto (replicate 256 7) 1 ''SHA256'' = Inr ab
    \<and> decode_all (crypt_decode plain_crypto) (zip [5] (encode_all (crypt_encode plain_crypto) [(1000, replicate 12 32)] ca)) cb
        = [Inr (replicate 12 32)]
    \<and> decode_all (auth_decode plain_crypto) (zip [5] (encode_all (auth_encode plain_crypto) [(1000, replicate 12 32)] aa)) ab
        = [Inr (replicate 12 32)]"
proof -
  obtain ca cb aa ab where new: "control_crypt_new plain_crypto (replicate 256 7) 0 = Inr ca"
    "control_crypt_new plain_crypto (replicate 256 7) 1 = Inr cb"
    "control_auth_new plain_crypto (replicate 256 7) 0 ''SHA256'' = Inr aa"
    "control_auth_new plain_crypto (replicate 256 7) 1 ''SHA256'' = Inr ab"
    by (simp add: control_crypt_new_def control_auth_new_def crypt_from_material_def parse_openvpn_static_key_def
        split_static_key_material_def auth_from_name_def TLS_KEY_MATERIAL_LENGTH_def resolve_direction_def Let_def)
  have "opposite 0 1" by (simp add: opposite_def)
  from control_protection_exact [OF plain_crypto_ok this new, of "[(1000, replicate 12 32)]" "[(5, 0)]" "[5]"] new
  show ?thesis by (auto simp: wrap_consts Let_def)
qed

end
