(* ===== verification/Ovpn_Channel.thy ===== *)
theory Ovpn_Channel
  imports Ovpn_Reliable Ovpn_Wrap
begin

text \<open>
  One reliable TLS control channel (\<open>protocol/openvpn/control_channel.rs\<close>): session, protection, send
  window and receive window together turn TLS ciphertext into link packets and back. Every method is a
  function on the channel's state; the wall clock used by the packet-id counter, the replay clock and
  the retransmission clock are arguments.
\<close>

definition TLS_CONTROL_PAYLOAD_SIZE :: nat where "TLS_CONTROL_PAYLOAD_SIZE = 1024"
definition TLS_CONTROL_CHANNEL_MTU :: nat where "TLS_CONTROL_CHANNEL_MTU = 1250"
definition IPV4_CONTROL_DATAGRAM_OVERHEAD :: nat where "IPV4_CONTROL_DATAGRAM_OVERHEAD = 28"
definition IPV6_CONTROL_DATAGRAM_OVERHEAD :: nat where "IPV6_CONTROL_DATAGRAM_OVERHEAD = 48"

datatype incoming_control_event =
    TlsCiphertext bytes | DataPacket packet | HardReset packet | SoftReset packet

datatype control_channel_error =
    EmptyPacket | ChannelPacket packet_error | ChannelSession session_error
  | ChannelProtection control_wrap_error | ReliableWindowFull | NoPendingAcknowledgment

record control_channel =
  ch_session :: session
  ch_protection :: tls_control_protection
  ch_outgoing :: outgoing_inner
  ch_incoming :: incoming_inner
  ch_wrapped_client_key :: bytes
  ch_remote_is_ipv6 :: bool

definition control_channel_new :: "session \<Rightarrow> tls_control_protection \<Rightarrow> bytes \<Rightarrow> bool \<Rightarrow> control_channel" where
  "control_channel_new ses protection wrapped_client_key remote_is_ipv6 =
     \<lparr>ch_session = ses, ch_protection = protection, ch_outgoing = outgoing_new, ch_incoming = incoming_new,
      ch_wrapped_client_key = wrapped_client_key, ch_remote_is_ipv6 = remote_is_ipv6\<rparr>"

definition seed_incoming_packet :: "packet \<Rightarrow> control_channel \<Rightarrow> control_channel" where
  "seed_incoming_packet p ch =
     (if validate_incoming_remote_session_id (ch_session ch) p
      then ch\<lparr>ch_outgoing := on_incoming_packet p (ch_outgoing ch)\<rparr> else ch)"

definition is_control_or_acknowledgment :: "opcode \<Rightarrow> bool" where
  "is_control_or_acknowledgment op \<longleftrightarrow> is_control op \<or> op = AcknowledgmentV1"

definition is_tls_hard_reset_opcode :: "opcode \<Rightarrow> bool" where
  "is_tls_hard_reset_opcode op \<longleftrightarrow> op \<in> {ControlHardResetClientV1, ControlHardResetServerV1,
     ControlHardResetClientV2, ControlHardResetServerV2, ControlHardResetClientV3}"

subsection \<open>Receiving\<close>

text \<open>The part of \<open>ingest_link_packet\<close> after \<open>Packet::parse\<close>.\<close>

definition ingest_packet :: "packet \<Rightarrow> control_channel \<Rightarrow> control_channel \<times> incoming_control_event list" where
  "ingest_packet p ch =
     (let ses = ch_session ch;
          seen = ch\<lparr>ch_outgoing := on_incoming_packet p (ch_outgoing ch)\<rparr>
      in if is_data (pkt_opcode p) then (ch, [DataPacket p])
         else if \<not> validate_incoming_remote_session_id ses p then (ch, [])
         else if is_tls_hard_reset_opcode (pkt_opcode p) then
           (if pkt_key_id p \<noteq> 0 \<or> ses_key_id ses \<noteq> 0 \<or> \<not> validate_incoming_local_session_id ses p
            then (ch, []) else (seen, [HardReset p]))
         else if pkt_opcode p = ControlSoftResetV1 then
           (if \<not> validate_incoming_local_session_id ses p then (ch, []) else (ch, [SoftReset p]))
         else if \<not> validate_incoming_local_session_id ses p \<or> pkt_key_id p \<noteq> ses_key_id ses then (ch, [])
         else if pkt_opcode p = AcknowledgmentV1 \<or> \<not> is_control (pkt_opcode p) then (seen, [])
         else case try_insert_incoming_packet p (ch_incoming ch) of
                (_, False) \<Rightarrow> (seen, [])
              | (incoming, True) \<Rightarrow>
                  (case next_ordered_sequence incoming of (incoming', ready) \<Rightarrow>
                    (seen\<lparr>ch_incoming := incoming'\<rparr>,
                     map (\<lambda>q. TlsCiphertext (pkt_payload q)) (filter (\<lambda>q. pkt_payload q \<noteq> []) ready))))"

definition ingest_link_packet ::
  "crypto \<Rightarrow> instant \<Rightarrow> bytes \<Rightarrow> control_channel
    \<Rightarrow> control_channel \<times> (control_channel_error + incoming_control_event list)" where
  "ingest_link_packet cr now raw_packet ch =
     (if raw_packet = [] then (ch, Inl EmptyPacket)
      else
        let op = from_wire (drop_bit 3 (hd raw_packet))
        in case (if is_control_or_acknowledgment op
                 then (case protection_decode cr now raw_packet (ch_protection ch) of
                         (prot, Inl e) \<Rightarrow> (ch\<lparr>ch_protection := prot\<rparr>, Inl (ChannelProtection e))
                       | (prot, Inr decoded) \<Rightarrow> (ch\<lparr>ch_protection := prot\<rparr>, Inr decoded))
                 else (ch, Inr raw_packet)) of
             (ch1, Inl e) \<Rightarrow> (ch1, Inl e)
           | (ch1, Inr decoded) \<Rightarrow>
               (case parse decoded of
                  Inl e \<Rightarrow> (ch1, Inl (ChannelPacket e))
                | Inr p \<Rightarrow> (case ingest_packet p ch1 of (ch2, events) \<Rightarrow> (ch2, Inr events))))"

subsection \<open>Sending\<close>

definition acknowledgment_array_length :: "nat \<Rightarrow> nat" where
  "acknowledgment_array_length n =
     (let n = min n MAXIMUM_ACKNOWLEDGMENTS_PER_PACKET in if n = 0 then 1 else 1 + 4 * n + 8)"

definition control_channel_frame_overhead :: "nat \<Rightarrow> control_channel \<Rightarrow> nat" where
  "control_channel_frame_overhead acknowledgment_count ch =
     1 + 8 + acknowledgment_array_length acknowledgment_count + 4 + control_packet_overhead (ch_protection ch)
       + (if ch_remote_is_ipv6 ch then IPV6_CONTROL_DATAGRAM_OVERHEAD else IPV4_CONTROL_DATAGRAM_OVERHEAD)"

definition next_packet_carries_wrapped_client_key :: "control_channel \<Rightarrow> bool" where
  "next_packet_carries_wrapped_client_key ch \<longleftrightarrow>
     ch_wrapped_client_key ch \<noteq> [] \<and> ses_local_control_packet_id (ch_session ch) = 1"

definition encode_link_packet ::
  "crypto \<Rightarrow> u32 \<Rightarrow> packet \<Rightarrow> control_channel \<Rightarrow> control_channel \<times> (control_channel_error + bytes)" where
  "encode_link_packet cr unix p ch =
     (let should_wrap = (ch_wrapped_client_key ch \<noteq> [] \<and> pkt_id p = 1
            \<and> (pkt_opcode p = ControlV1 \<or> pkt_opcode p = ControlWkcV1));
          outgoing = (if should_wrap then p\<lparr>pkt_opcode := ControlWkcV1\<rparr> else p)
      in case encode outgoing of
           Inl e \<Rightarrow> (ch, Inl (ChannelPacket e))
         | Inr raw \<Rightarrow>
             (case (if is_control_or_acknowledgment (pkt_opcode outgoing)
                    then protection_encode cr unix raw (ch_protection ch)
                    else (ch_protection ch, raw)) of
                (prot, protected) \<Rightarrow>
                  (ch\<lparr>ch_protection := prot\<rparr>,
                   Inr (if should_wrap
                        then append_tls_crypt_v2_wrapped_client_key protected (ch_wrapped_client_key ch) (pkt_opcode outgoing)
                        else protected))))"

text \<open>The closures passed to \<open>insert_outgoing_packet\<close>: the packet of the session, with the acknowledgments.\<close>

definition create_control :: "opcode \<Rightarrow> bytes \<Rightarrow> u32 list \<Rightarrow> session \<Rightarrow> session \<times> (session_error + packet)" where
  "create_control op payload acknowledgment_ids ses =
     (case new_control_packet op payload ses of
        Inl e \<Rightarrow> (ses, Inl e)
      | Inr (ses', p) \<Rightarrow> (ses', Inr (p\<lparr>pkt_acknowledgment_ids := acknowledgment_ids\<rparr>)))"

definition create_soft_reset :: "u32 list \<Rightarrow> session \<Rightarrow> session \<times> (session_error + packet)" where
  "create_soft_reset acknowledgment_ids ses =
     (case new_soft_reset_packet ses of
        Inl e \<Rightarrow> (ses, Inl e)
      | Inr p \<Rightarrow> (ses, Inr (p\<lparr>pkt_acknowledgment_ids := acknowledgment_ids\<rparr>)))"

definition channel_insert ::
  "nat \<Rightarrow> (u32 list \<Rightarrow> session \<Rightarrow> session \<times> (session_error + packet)) \<Rightarrow> control_channel
    \<Rightarrow> control_channel \<times> (session_error + packet option)" where
  "channel_insert maximum create ch =
     (case insert_outgoing_packet maximum create (ch_session ch) (ch_outgoing ch) of
        (outgoing, ses, r) \<Rightarrow> (ch\<lparr>ch_outgoing := outgoing, ch_session := ses\<rparr>, r))"

definition control_payload_size :: "control_channel \<Rightarrow> nat" where
  "control_payload_size ch =
     (let pending = pending_acknowledgment_count (ch_outgoing ch);
          size1 = min TLS_CONTROL_PAYLOAD_SIZE TLS_CONTROL_CHANNEL_MTU - control_channel_frame_overhead pending ch
      in if next_packet_carries_wrapped_client_key ch then size1 - length (ch_wrapped_client_key ch) else size1)"

definition packetize_tls_ciphertext ::
  "crypto \<Rightarrow> u32 \<Rightarrow> bytes \<Rightarrow> control_channel \<Rightarrow> control_channel \<times> (control_channel_error + (bytes \<times> nat) option)" where
  "packetize_tls_ciphertext cr unix ciphertext ch =
     (if ciphertext = [] then (ch, Inr None)
      else
        let consumed = min (length ciphertext) (control_payload_size ch)
        in case channel_insert MAXIMUM_ACKNOWLEDGMENTS_PER_PACKET (create_control ControlV1 (take consumed ciphertext)) ch of
             (ch1, Inl e) \<Rightarrow> (ch1, Inl (ChannelSession e))
           | (ch1, Inr None) \<Rightarrow> (ch1, Inr None)
           | (ch1, Inr (Some p)) \<Rightarrow>
               (case encode_link_packet cr unix p ch1 of
                  (ch2, Inl e) \<Rightarrow> (ch2, Inl e)
                | (ch2, Inr raw) \<Rightarrow> (ch2, Inr (Some (raw, consumed)))))"

definition send_initial_soft_reset ::
  "crypto \<Rightarrow> u32 \<Rightarrow> control_channel \<Rightarrow> control_channel \<times> (control_channel_error + bytes)" where
  "send_initial_soft_reset cr unix ch =
     (case channel_insert MAXIMUM_ACKNOWLEDGMENTS_PER_PACKET create_soft_reset ch of
        (ch1, Inl e) \<Rightarrow> (ch1, Inl (ChannelSession e))
      | (ch1, Inr None) \<Rightarrow> (ch1, Inl ReliableWindowFull)
      | (ch1, Inr (Some p)) \<Rightarrow> encode_link_packet cr unix p ch1)"

definition channel_acknowledgment_packet ::
  "crypto \<Rightarrow> u32 \<Rightarrow> control_channel \<Rightarrow> control_channel \<times> (control_channel_error + bytes)" where
  "channel_acknowledgment_packet cr unix ch =
     (if next_packet_carries_wrapped_client_key ch then
        (case channel_insert ACKNOWLEDGMENT_SET_CAPACITY (create_control ControlWkcV1 []) ch of
           (ch1, Inl e) \<Rightarrow> (ch1, Inl (ChannelSession e))
         | (ch1, Inr None) \<Rightarrow> (ch1, Inl ReliableWindowFull)
         | (ch1, Inr (Some p)) \<Rightarrow> encode_link_packet cr unix p ch1)
      else
        case take_acknowledgments ACKNOWLEDGMENT_SET_CAPACITY (ch_outgoing ch) of
          (outgoing, ids) \<Rightarrow>
            let ch1 = ch\<lparr>ch_outgoing := outgoing\<rparr>
            in if ids = [] then (ch1, Inl NoPendingAcknowledgment)
               else case new_acknowledgment_packet (ch_session ch1) ids of
                      Inl e \<Rightarrow> (ch1\<lparr>ch_outgoing := return_acknowledgments ids outgoing\<rparr>, Inl (ChannelSession e))
                    | Inr p \<Rightarrow> encode_link_packet cr unix p ch1)"

fun encode_link_packets ::
  "crypto \<Rightarrow> u32 \<Rightarrow> packet list \<Rightarrow> control_channel \<Rightarrow> control_channel \<times> (control_channel_error + bytes list)" where
  "encode_link_packets cr unix [] ch = (ch, Inr [])"
| "encode_link_packets cr unix (p # ps) ch =
     (case encode_link_packet cr unix p ch of
        (ch1, Inl e) \<Rightarrow> (ch1, Inl e)
      | (ch1, Inr raw) \<Rightarrow>
          (case encode_link_packets cr unix ps ch1 of
             (ch2, Inl e) \<Rightarrow> (ch2, Inl e)
           | (ch2, Inr raws) \<Rightarrow> (ch2, Inr (raw # raws))))"

definition channel_packets_ready ::
  "crypto \<Rightarrow> u32 \<Rightarrow> instant \<Rightarrow> control_channel \<Rightarrow> control_channel \<times> (control_channel_error + bytes list)" where
  "channel_packets_ready cr unix now ch =
     (case packets_ready_to_send now (ch_outgoing ch) of
        (outgoing, due) \<Rightarrow>
          (case encode_link_packets cr unix due (ch\<lparr>ch_outgoing := outgoing\<rparr>) of
             (ch1, Inl e) \<Rightarrow> (ch1, Inl e)
           | (ch1, Inr packets) \<Rightarrow>
               if pending_acknowledgment_count (ch_outgoing ch1) > 0 then
                 (case channel_acknowledgment_packet cr unix ch1 of
                    (ch2, Inr p) \<Rightarrow> (ch2, Inr (packets @ [p]))
                  | (ch2, Inl e) \<Rightarrow> if e = ReliableWindowFull then (ch2, Inr packets) else (ch2, Inl e))
               else (ch1, Inr packets)))"

definition return_failed_acknowledgments ::
  "bytes \<Rightarrow> control_channel \<Rightarrow> control_channel \<times> (control_channel_error + unit)" where
  "return_failed_acknowledgments raw_packet ch =
     (case parse raw_packet of
        Inl e \<Rightarrow> (ch, Inl (ChannelPacket e))
      | Inr p \<Rightarrow>
          if pkt_opcode p = AcknowledgmentV1
          then (ch\<lparr>ch_outgoing := return_acknowledgments (pkt_acknowledgment_ids p) (ch_outgoing ch)\<rparr>, Inr ())
          else (ch, Inr ()))"

subsection \<open>What protection does on the link\<close>

text \<open>Both sides use the same kind of protection, with matching keys, and no \<open>tls-crypt-v2\<close>.\<close>

definition protection_matching :: "crypto \<Rightarrow> tls_control_protection \<Rightarrow> tls_control_protection \<Rightarrow> bool" where
  "protection_matching cr p q \<longleftrightarrow> prot_crypt_v2_server_key q = []
   \<and> (case (prot_crypt p, prot_crypt q) of
        (Some c, Some d) \<Rightarrow> crypt_matching cr c d
      | (None, None) \<Rightarrow>
          (case (prot_auth p, prot_auth q) of
             (Some c, Some d) \<Rightarrow> auth_matching cr c d
           | (None, None) \<Rightarrow> True
           | _ \<Rightarrow> False)
      | _ \<Rightarrow> False)"

lemma protection_encode_matching:
  assumes "protection_matching cr p q" "protection_encode cr u raw p = (p', out)"
  shows "protection_matching cr p' q"
  using assms tls_crypt.enc_matching tls_auth.enc_matching
  by (auto simp: protection_matching_def protection_encode_def split: option.splits prod.splits)

text \<open>The peer is left as it is by an attempt that fails before the codec and matches after it.\<close>

lemma protection_decode_matching:
  assumes "protection_matching cr p q" "protection_decode cr now out q = (q', r)"
  shows "protection_matching cr p q'"
proof -
  have "extract_tls_crypt_v2_client_key cr out q = (q, Inl MissingServerKey)"
    using assms(1) by (simp add: extract_tls_crypt_v2_client_key_def protection_matching_def)
  with assms tls_crypt.dec_matching tls_auth.dec_matching show ?thesis
    by (auto simp: protection_matching_def protection_decode_def Let_def split: option.splits prod.splits if_splits)
qed

lemma protection_decode_encode:
  assumes match: "protection_matching cr p q" and len: "9 \<le> length raw"
    and enc: "protection_encode cr u raw p = (p', out)" and dec: "protection_decode cr now out q = (q', Inr x)"
  shows "x = raw"
proof -
  have no_key: "extract_tls_crypt_v2_client_key cr out q = (q, Inl MissingServerKey)"
    using match by (simp add: extract_tls_crypt_v2_client_key_def protection_matching_def)
  show ?thesis
  proof (cases "prot_crypt p")
    case (Some c)
    then obtain d c' d' where "prot_crypt q = Some d" "crypt_matching cr c d" "crypt_encode cr u raw c = (c', out)"
        "crypt_decode cr now out d = (d', Inr x)"
      using match enc dec no_key
      by (auto simp: protection_matching_def protection_encode_def protection_decode_def Let_def
          split: option.splits prod.splits if_splits)
    then show ?thesis using tls_crypt.dec_result len by blast
  next
    case None
    show ?thesis
    proof (cases "prot_auth p")
      case (Some c)
      then obtain d c' d' where "auth_matching cr c d" "auth_encode cr u raw c = (c', out)" "auth_decode cr now out d = (d', Inr x)"
        using None match enc dec no_key
        by (auto simp: protection_matching_def protection_encode_def protection_decode_def Let_def
            split: option.splits prod.splits if_splits)
      then show ?thesis using tls_auth.dec_result len by blast
    next
      case none: None
      with None match enc dec no_key show ?thesis
        by (auto simp: protection_matching_def protection_encode_def protection_decode_def Let_def
            split: option.splits prod.splits if_splits)
    qed
  qed
qed

lemma protection_encode_header:
  assumes "9 \<le> length raw" "protection_encode cr u raw p = (p', out)"
  shows "hd out = hd raw"
proof -
  have "hd (take 9 raw @ ys) = hd raw" for ys using assms(1) by (cases raw) auto
  with assms show ?thesis
    by (auto simp: protection_encode_def crypt_encode_def auth_encode_def wrap_consts Let_def
        split: option.splits prod.splits if_splits)
qed

subsection \<open>What a session puts on the wire\<close>

definition session_ok :: "session \<Rightarrow> bool" where
  "session_ok ses \<longleftrightarrow> length (ses_local_session_id ses) = 8
     \<and> (\<forall>i. ses_remote_session_id ses = Some i \<longrightarrow> length i = 8)"

text \<open>
  A packet of a channel whose TLS records so far are \<open>ps\<close>: a record under its number, a soft reset or
  an acknowledgment.
\<close>

definition link_ok :: "bytes list \<Rightarrow> packet \<Rightarrow> bool" where
  "link_ok ps p \<longleftrightarrow> packet_wf p \<and> pkt_link_source p = None \<and> pkt_peer_id p = replicate 3 0
   \<and> (pkt_opcode p = ControlV1 \<and> 0 < unat (pkt_id p) \<and> unat (pkt_id p) \<le> length ps
        \<and> pkt_payload p = ps ! (unat (pkt_id p) - 1)
      \<or> pkt_opcode p = ControlSoftResetV1
      \<or> pkt_opcode p = AcknowledgmentV1 \<and> pkt_id p = 0)"

lemma link_ok_append: "link_ok ps p \<Longrightarrow> link_ok (ps @ qs) p"
  by (auto simp: link_ok_def nth_append)

lemma link_ok_acks: "link_ok ps (p\<lparr>pkt_acknowledgment_ids := ids\<rparr>) = link_ok ps p"
  by (simp add: link_ok_def packet_wf_def)

lemma opcode_wf_channel: "opcode_wf ControlV1" "opcode_wf ControlSoftResetV1" "opcode_wf AcknowledgmentV1"
  by (simp_all add: opcode_wf_def from_wire_def)

lemma key_masked: "k AND 7 < (8 :: u8)"
  by (rule header_bounds(2))

text \<open>A packet without acknowledgments does not carry the remote session id.\<close>

definition on_wire :: "packet \<Rightarrow> packet" where
  "on_wire p = (if pkt_acknowledgment_ids p = [] then p\<lparr>pkt_remote_session_id := zero_session\<rparr> else p)"

lemma link_parse_exact:
  assumes "link_ok ps p" "encode p = Inr raw"
  shows "parse raw = Inr (on_wire p)"
proof -
  have "is_control (pkt_opcode p) \<or> pkt_opcode p = AcknowledgmentV1" "pkt_opcode p \<noteq> DataV2"
    using assms(1) by (auto simp: link_ok_def)
  then have "packet_canonical (on_wire p)"
    using assms(1) by (auto simp: link_ok_def on_wire_def packet_canonical_def packet_wf_def zero_session_def Let_def)
  moreover have "encode (on_wire p) = Inr raw" using assms(2) by (auto simp: on_wire_def encode_def Let_def split: if_splits)
  ultimately show ?thesis by (rule packet_dec_enc)
qed

lemma link_parse:
  assumes "link_ok ps p" "encode p = Inr raw"
  obtains q where "parse raw = Inr q" "link_ok ps q" "9 \<le> length raw" "from_wire (drop_bit 3 (hd raw)) = pkt_opcode p"
proof -
  have ctl: "is_control (pkt_opcode p) \<or> pkt_opcode p = AcknowledgmentV1" "pkt_opcode p \<noteq> DataV2"
    using assms(1) by (auto simp: link_ok_def)
  have "parse raw = Inr (on_wire p)" by (rule link_parse_exact [OF assms])
  moreover have "link_ok ps (on_wire p)" using assms(1) by (auto simp: link_ok_def on_wire_def packet_wf_def zero_session_def)
  moreover obtain rest where raw: "raw = (push_bit 3 (wire_value (pkt_opcode p)) OR (pkt_key_id p AND 7)) # pkt_local_session_id p @ rest"
    using assms ctl by (auto simp: encode_def Let_def split: if_splits)
  moreover have "length (pkt_local_session_id p) = 8" using assms(1) by (simp add: link_ok_def packet_wf_def)
  then have "9 \<le> length raw" using raw by simp
  moreover have "from_wire (drop_bit 3 (hd raw)) = pkt_opcode p"
  proof -
    have wf: "opcode_wf (pkt_opcode p)" using assms(1) by (auto simp: link_ok_def packet_wf_def)
    then have bits: "drop_bit 3 (push_bit 3 (wire_value (pkt_opcode p)) OR (pkt_key_id p AND 7)) = wire_value (pkt_opcode p)"
      by (intro header_opcode_bits) (simp add: opcode_wf_def)
    show ?thesis unfolding raw list.sel bits using wf by (simp add: opcode_wf_def)
  qed
  ultimately show ?thesis using that by blast
qed

subsection \<open>Packets in flight\<close>

definition flight_all :: "(packet \<Rightarrow> bool) \<Rightarrow> outgoing_inner \<Rightarrow> bool" where
  "flight_all P out \<longleftrightarrow> (\<forall>(i, t) \<in> set (out_in_flight out). P (ifp_packet t))"

lemma flight_all_mono: "flight_all P out \<Longrightarrow> (\<And>p. P p \<Longrightarrow> Q p) \<Longrightarrow> flight_all Q out"
  by (auto simp: flight_all_def)

lemma flight_all_new: "flight_all P outgoing_new"
  by (simp add: flight_all_def outgoing_new_def)

lemma flight_all_acknowledge:
  "(\<forall>(i, t) \<in> set m. P (ifp_packet t)) \<Longrightarrow> \<forall>(i, t) \<in> set (fold acknowledge as m). P (ifp_packet t)"
proof (induction as arbitrary: m)
  case (Cons a as)
  have "\<forall>(i, t) \<in> set (acknowledge a m). P (ifp_packet t)"
    using Cons.prems by (auto simp: acknowledge_def btree_remove_def)
  then show ?case using Cons.IH by simp
qed simp

lemma flight_all_incoming: "flight_all P out \<Longrightarrow> flight_all P (on_incoming_packet p out)"
  using flight_all_acknowledge by (simp add: flight_all_def on_incoming_packet_def Let_def)

lemma flight_all_poll:
  assumes "flight_all P out" "packets_ready_to_send now out = (out', due)"
  shows "flight_all P out'" "\<forall>p \<in> set due. P p"
  using assms by (fastforce simp: flight_all_def packets_ready_to_send_def)+

lemma flight_all_take:
  "flight_all P out \<Longrightarrow> take_acknowledgments n out = (out', ids) \<Longrightarrow> flight_all P out'"
  by (auto simp: flight_all_def take_acknowledgments_def Let_def)

lemma flight_all_return: "flight_all P (return_acknowledgments ids out) = flight_all P out"
  by (simp add: flight_all_def return_acknowledgments_def)

lemma flight_all_insert:
  assumes "flight_all P out" "insert_outgoing_packet n create c out = (out', c', r)"
    and "\<And>ids p. create ids c = (c', Inr p) \<Longrightarrow> length ids \<le> n \<Longrightarrow> P p"
  shows "flight_all P out'"
proof -
  obtain out1 ids where take: "take_acknowledgments n out = (out1, ids)" by fastforce
  then have few: "length ids \<le> n" by (auto simp: take_acknowledgments_def Let_def)
  note out1 = flight_all_take [OF assms(1) take]
  obtain c1 q where create: "create ids c = (c1, q)" by fastforce
  show ?thesis
  proof (cases q)
    case (Inl e)
    with assms(1,2) out1 take create show ?thesis by (auto simp: insert_outgoing_packet_def flight_all_return split: if_splits)
  next
    case (Inr p)
    have "flight_all P (out1\<lparr>out_in_flight := btree_insert (pkt_id p) \<lparr>ifp_packet = p, ifp_retransmission_deadline = None,
        ifp_higher_packet_acknowledgments = 0, ifp_retransmission_count = 0\<rparr> (out_in_flight out1)\<rparr>)" if "P p"
      using out1 that set_btree_insert_subset [of "pkt_id p" "\<lparr>ifp_packet = p, ifp_retransmission_deadline = None,
        ifp_higher_packet_acknowledgments = 0, ifp_retransmission_count = 0\<rparr>" "out_in_flight out1"]
      by (auto simp: flight_all_def)
    with assms take create few Inr show ?thesis by (auto simp: insert_outgoing_packet_def split: if_splits)
  qed
qed

text \<open>A successful insertion returns the packet its constructor made, and takes the constructor's state.\<close>

lemma insert_outgoing_result:
  assumes "insert_outgoing_packet n create c out = (out', c', r)"
  shows "(\<exists>ids. create ids c = (c', case r of Inl e \<Rightarrow> Inl e | Inr (Some p) \<Rightarrow> Inr p)) \<and> r \<noteq> Inr None \<or> c' = c \<and> r = Inr None"
  using assms by (auto simp: insert_outgoing_packet_def split: if_splits prod.splits sum.splits)

subsection \<open>One side of a link\<close>

text \<open>
  The sender of a channel: its TLS records \<open>ps\<close> are numbered from one, everything in flight and
  everything it put on the wire belongs to them.
\<close>

definition sender_ok :: "bytes list \<Rightarrow> control_channel \<Rightarrow> bool" where
  "sender_ok ps ch \<longleftrightarrow> session_ok (ch_session ch) \<and> ch_wrapped_client_key ch = []
     \<and> unat (ses_local_control_packet_id (ch_session ch)) = length ps + 1
     \<and> flight_all (link_ok ps) (ch_outgoing ch)"

definition wire_ok :: "crypto \<Rightarrow> bytes list \<Rightarrow> tls_control_protection \<Rightarrow> bytes \<Rightarrow> bool" where
  "wire_ok cr ps receiver out \<longleftrightarrow> (\<exists>p raw unix sender sender'. link_ok ps p \<and> encode p = Inr raw
     \<and> protection_matching cr sender receiver \<and> protection_encode cr unix raw sender = (sender', out))"

lemma wire_ok_append: "wire_ok cr ps receiver out \<Longrightarrow> wire_ok cr (ps @ qs) receiver out"
  unfolding wire_ok_def using link_ok_append by blast

lemma wire_ok_decode:
  assumes "wire_ok cr ps receiver out" "protection_decode cr now other receiver = (receiver', r)"
  shows "wire_ok cr ps receiver' out"
  using assms protection_decode_matching unfolding wire_ok_def by metis

lemma link_control: "link_ok ps p \<Longrightarrow> is_control_or_acknowledgment (pkt_opcode p)"
  by (auto simp: link_ok_def is_control_or_acknowledgment_def)

lemma encode_link_packet_wire:
  assumes "link_ok ps p" "ch_wrapped_client_key ch = []" "protection_matching cr (ch_protection ch) receiver"
    and "encode_link_packet cr unix p ch = (ch', r)"
  shows "\<exists>prot. ch' = ch\<lparr>ch_protection := prot\<rparr> \<and> protection_matching cr prot receiver"
    "\<And>out. r = Inr out \<Longrightarrow> wire_ok cr ps receiver out"
proof -
  have eq: "encode_link_packet cr unix p ch = (case encode p of
      Inl e \<Rightarrow> (ch, Inl (ChannelPacket e))
    | Inr raw \<Rightarrow> (case protection_encode cr unix raw (ch_protection ch) of (prot, out) \<Rightarrow> (ch\<lparr>ch_protection := prot\<rparr>, Inr out)))"
    using assms(2) link_control [OF assms(1)] by (simp add: encode_link_packet_def Let_def split: sum.split)
  show "\<exists>prot. ch' = ch\<lparr>ch_protection := prot\<rparr> \<and> protection_matching cr prot receiver"
    using assms(3,4) protection_encode_matching [OF assms(3)] unfolding eq
    by (auto split: sum.splits prod.splits intro: exI [of _ "ch_protection ch"])
  show "wire_ok cr ps receiver out" if "r = Inr out" for out
    using assms(1,3,4) that unfolding eq wire_ok_def by (auto split: sum.splits prod.splits) blast
qed

lemma encode_link_packets_wire:
  assumes "\<forall>p \<in> set due. link_ok ps p" "ch_wrapped_client_key ch = []" "protection_matching cr (ch_protection ch) receiver"
    and "encode_link_packets cr unix due ch = (ch', r)"
  shows "(\<exists>prot. ch' = ch\<lparr>ch_protection := prot\<rparr> \<and> protection_matching cr prot receiver)
    \<and> (\<forall>outs. r = Inr outs \<longrightarrow> list_all (wire_ok cr ps receiver) outs)"
  using assms
proof (induction due arbitrary: ch ch' r)
  case Nil
  then show ?case by (auto intro: exI [of _ "ch_protection ch"])
next
  case (Cons p due)
  obtain ch1 r1 where one: "encode_link_packet cr unix p ch = (ch1, r1)" by fastforce
  have ok: "link_ok ps p" using Cons.prems(1) by simp
  note w = encode_link_packet_wire [OF ok Cons.prems(2,3) one]
  obtain prot where prot: "ch1 = ch\<lparr>ch_protection := prot\<rparr>" "protection_matching cr prot receiver" using w(1) by blast
  show ?case
  proof (cases r1)
    case (Inl e)
    with one prot Cons.prems(4) show ?thesis by auto
  next
    case (Inr out)
    obtain ch2 r2 where rest: "encode_link_packets cr unix due ch1 = (ch2, r2)" by fastforce
    have "(\<exists>prot. ch2 = ch1\<lparr>ch_protection := prot\<rparr> \<and> protection_matching cr prot receiver)
        \<and> (\<forall>outs. r2 = Inr outs \<longrightarrow> list_all (wire_ok cr ps receiver) outs)"
      using Cons.prems(1,2) prot by (intro Cons.IH [OF _ _ _ rest]) auto
    with Cons.prems(4) one Inr rest w(2) prot(1) show ?thesis by (auto split: sum.splits)
  qed
qed

lemma create_control_link:
  assumes "session_ok ses" "unat (ses_local_control_packet_id ses) = length ps + 1"
    and "create_control ControlV1 payload ids ses = (ses', r)"
  shows "case r of
      Inl e \<Rightarrow> ses' = ses
    | Inr p \<Rightarrow> session_ok ses' \<and> unat (ses_local_control_packet_id ses') = length (ps @ [payload]) + 1
        \<and> link_ok (ps @ [payload]) p \<and> pkt_acknowledgment_ids p = ids"
proof -
  have "ses_local_control_packet_id ses \<noteq> - 1 \<Longrightarrow>
      unat (ses_local_control_packet_id ses + 1) = Suc (unat (ses_local_control_packet_id ses))"
    by (rule unat_succ)
  with assms show ?thesis
    by (auto simp: create_control_def new_control_packet_def session_ok_def link_ok_def packet_wf_def packet_new_def
        opcode_wf_channel key_masked zero_session_def split: if_splits option.splits)
qed

lemma create_soft_reset_link:
  assumes "session_ok ses" "create_soft_reset ids ses = (ses', r)"
  shows "ses' = ses \<and> (case r of Inl e \<Rightarrow> True | Inr p \<Rightarrow> link_ok ps p)"
  using assms
  by (auto simp: create_soft_reset_def new_soft_reset_packet_def session_ok_def link_ok_def packet_wf_def packet_new_def
      opcode_wf_channel key_masked zero_session_def split: option.splits)

lemma insert_outgoing_acks:
  assumes "insert_outgoing_packet n create c out = (out', c', Inr (Some p))"
  obtains ids where "create ids c = (c', Inr p)" "length ids \<le> n"
  using assms
  by (auto simp: insert_outgoing_packet_def take_acknowledgments_def Let_def split: if_splits prod.splits sum.splits)

lemma channel_insert_control:
  assumes ok: "sender_ok ps ch" and ins: "channel_insert n (create_control ControlV1 payload) ch = (ch1, r)"
  shows "case r of
      Inr (Some p) \<Rightarrow> sender_ok (ps @ [payload]) ch1 \<and> link_ok (ps @ [payload]) p \<and> length (pkt_acknowledgment_ids p) \<le> n
    | _ \<Rightarrow> sender_ok ps ch1"
    "ch_protection ch1 = ch_protection ch" "ch_incoming ch1 = ch_incoming ch"
proof -
  obtain out ses where i: "insert_outgoing_packet n (create_control ControlV1 payload) (ch_session ch) (ch_outgoing ch) = (out, ses, r)"
      and ch1: "ch1 = ch\<lparr>ch_outgoing := out, ch_session := ses\<rparr>"
    using ins by (auto simp: channel_insert_def split: prod.splits)
  show "ch_protection ch1 = ch_protection ch" "ch_incoming ch1 = ch_incoming ch" by (simp_all add: ch1)
  have s: "session_ok (ch_session ch)" "unat (ses_local_control_packet_id (ch_session ch)) = length ps + 1"
      "ch_wrapped_client_key ch = []" "flight_all (link_ok ps) (ch_outgoing ch)"
    using ok by (auto simp: sender_ok_def)
  note made = create_control_link [OF s(1,2)]
  show "case r of
      Inr (Some p) \<Rightarrow> sender_ok (ps @ [payload]) ch1 \<and> link_ok (ps @ [payload]) p \<and> length (pkt_acknowledgment_ids p) \<le> n
    | _ \<Rightarrow> sender_ok ps ch1"
  proof (cases "\<exists>p. r = Inr (Some p)")
    case True
    then obtain p where p: "r = Inr (Some p)" ..
    obtain ids where ids: "create_control ControlV1 payload ids (ch_session ch) = (ses, Inr p)" "length ids \<le> n"
      using insert_outgoing_acks [OF i [unfolded p]] .
    have "flight_all (link_ok (ps @ [payload])) (ch_outgoing ch)" using flight_all_mono [OF s(4) link_ok_append] .
    then have "flight_all (link_ok (ps @ [payload])) out"
      by (rule flight_all_insert [OF _ i]) (use made in \<open>fastforce\<close>)
    with made [OF ids(1)] ids(2) p s(3) show ?thesis by (auto simp: sender_ok_def ch1)
  next
    case False
    have "ses = ch_session ch"
      using insert_outgoing_result [OF i] made False by (cases r; fastforce split: option.splits)
    moreover have "out_in_flight out = out_in_flight (ch_outgoing ch)"
      using i False by (auto simp: insert_outgoing_packet_def take_acknowledgments_def return_acknowledgments_def Let_def
          split: if_splits prod.splits sum.splits)
    ultimately have "sender_ok ps ch1" using ok by (simp add: sender_ok_def ch1 flight_all_def)
    with False show ?thesis by (auto split: sum.splits option.splits)
  qed
qed

lemma channel_insert_reset:
  assumes ok: "sender_ok ps ch" and ins: "channel_insert n create_soft_reset ch = (ch1, r)"
  shows "sender_ok ps ch1" "\<And>p. r = Inr (Some p) \<Longrightarrow> link_ok ps p"
    "ch_protection ch1 = ch_protection ch" "ch_incoming ch1 = ch_incoming ch"
proof -
  obtain out ses where i: "insert_outgoing_packet n create_soft_reset (ch_session ch) (ch_outgoing ch) = (out, ses, r)"
      and ch1: "ch1 = ch\<lparr>ch_outgoing := out, ch_session := ses\<rparr>"
    using ins by (auto simp: channel_insert_def split: prod.splits)
  show "ch_protection ch1 = ch_protection ch" "ch_incoming ch1 = ch_incoming ch" by (simp_all add: ch1)
  have s: "session_ok (ch_session ch)" "flight_all (link_ok ps) (ch_outgoing ch)" using ok by (auto simp: sender_ok_def)
  note made = create_soft_reset_link [OF s(1)]
  have "flight_all (link_ok ps) out" by (rule flight_all_insert [OF s(2) i]) (use made in fastforce)
  moreover have "ses = ch_session ch" using insert_outgoing_result [OF i] made by blast
  ultimately show "sender_ok ps ch1" using ok by (simp add: sender_ok_def ch1)
  show "link_ok ps p" if made_p: "r = Inr (Some p)" for p
  proof -
    obtain ids where "create_soft_reset ids (ch_session ch) = (ses, Inr p)"
      using insert_outgoing_acks [OF i [unfolded made_p]] by blast
    from made [OF this, of ps] show ?thesis by simp
  qed
qed

text \<open>The operations of the sending side keep it in order and put only its packets on the wire.\<close>

lemma link_encodes: "link_ok ps p \<Longrightarrow> length (pkt_acknowledgment_ids p) \<le> 255 \<Longrightarrow> \<exists>raw. encode p = Inr raw"
  by (auto simp: link_ok_def encode_def Let_def)

lemma encode_link_packet_total:
  assumes "link_ok ps p" "length (pkt_acknowledgment_ids p) \<le> 255" "ch_wrapped_client_key ch = []"
  shows "\<exists>ch' out. encode_link_packet cr unix p ch = (ch', Inr out)"
  using assms link_encodes [OF assms(1,2)]
  by (auto simp: encode_link_packet_def Let_def split: prod.splits)

lemma packetize_wire:
  assumes ok: "sender_ok ps ch" and match: "protection_matching cr (ch_protection ch) receiver"
    and pack: "packetize_tls_ciphertext cr unix data ch = (ch', r)"
  shows "protection_matching cr (ch_protection ch') receiver \<and> ch_incoming ch' = ch_incoming ch
    \<and> (case r of
         Inr (Some (raw, n)) \<Rightarrow> sender_ok (ps @ [take n data]) ch' \<and> wire_ok cr (ps @ [take n data]) receiver raw
       | _ \<Rightarrow> sender_ok ps ch')"
proof (cases "data = []")
  case True
  with assms show ?thesis by (auto simp: packetize_tls_ciphertext_def)
next
  case False
  define n where "n = min (length data) (control_payload_size ch)"
  obtain ch1 i where ins: "channel_insert MAXIMUM_ACKNOWLEDGMENTS_PER_PACKET (create_control ControlV1 (take n data)) ch = (ch1, i)"
    by fastforce
  note c = channel_insert_control [OF ok ins]
  show ?thesis
  proof (cases "\<exists>p. i = Inr (Some p)")
    case True
    then obtain p where p: "i = Inr (Some p)" ..
    with c have link: "sender_ok (ps @ [take n data]) ch1" "link_ok (ps @ [take n data]) p" "length (pkt_acknowledgment_ids p) \<le> 255"
      by (auto simp: MAXIMUM_ACKNOWLEDGMENTS_PER_PACKET_def)
    have nokey: "ch_wrapped_client_key ch1 = []" using link(1) by (simp add: sender_ok_def)
    obtain ch2 out where enc: "encode_link_packet cr unix p ch1 = (ch2, Inr out)"
      using encode_link_packet_total [OF link(2,3) nokey] by blast
    note w = encode_link_packet_wire [OF link(2) nokey match [folded c(2)] enc]
    obtain prot where "ch2 = ch1\<lparr>ch_protection := prot\<rparr>" "protection_matching cr prot receiver" using w(1) by blast
    moreover have "ch' = ch2" "r = Inr (Some (out, n))"
      using pack False ins p enc by (auto simp: packetize_tls_ciphertext_def Let_def n_def)
    ultimately show ?thesis using link(1) w(2) c(3) by (simp add: sender_ok_def)
  next
    case False
    then have "ch' = ch1" "\<nexists>x. r = Inr (Some x)"
      using pack \<open>data \<noteq> []\<close> ins by (auto simp: packetize_tls_ciphertext_def Let_def n_def split: sum.splits option.splits)
    moreover have "sender_ok ps ch1" using c(1) False by (cases i) (auto split: option.splits)
    ultimately show ?thesis using c(2,3) match by (auto split: sum.splits option.splits)
  qed
qed

lemma soft_reset_wire:
  assumes ok: "sender_ok ps ch" and match: "protection_matching cr (ch_protection ch) receiver"
    and reset: "send_initial_soft_reset cr unix ch = (ch', r)"
  shows "protection_matching cr (ch_protection ch') receiver \<and> ch_incoming ch' = ch_incoming ch \<and> sender_ok ps ch'
    \<and> (\<forall>raw. r = Inr raw \<longrightarrow> wire_ok cr ps receiver raw)"
proof -
  obtain ch1 i where ins: "channel_insert MAXIMUM_ACKNOWLEDGMENTS_PER_PACKET create_soft_reset ch = (ch1, i)" by fastforce
  note c = channel_insert_reset [OF ok ins]
  show ?thesis
  proof (cases "\<exists>p. i = Inr (Some p)")
    case True
    then obtain p where p: "i = Inr (Some p)" ..
    have nokey: "ch_wrapped_client_key ch1 = []" using c(1) by (simp add: sender_ok_def)
    have enc: "encode_link_packet cr unix p ch1 = (ch', r)" using reset ins p by (simp add: send_initial_soft_reset_def)
    note w = encode_link_packet_wire [OF c(2) [OF p] nokey match [folded c(3)] enc]
    then show ?thesis using c(1,4) by (auto simp: sender_ok_def)
  next
    case False
    then show ?thesis using reset ins c match by (auto simp: send_initial_soft_reset_def split: sum.splits option.splits)
  qed
qed

lemma ack_wire:
  assumes ok: "sender_ok ps ch" and match: "protection_matching cr (ch_protection ch) receiver"
    and ack: "channel_acknowledgment_packet cr unix ch = (ch', r)"
  shows "protection_matching cr (ch_protection ch') receiver \<and> ch_incoming ch' = ch_incoming ch \<and> sender_ok ps ch'
    \<and> (\<forall>raw. r = Inr raw \<longrightarrow> wire_ok cr ps receiver raw)"
proof -
  have s: "session_ok (ch_session ch)" "ch_wrapped_client_key ch = []" "flight_all (link_ok ps) (ch_outgoing ch)"
    using ok by (auto simp: sender_ok_def)
  obtain out ids where take: "take_acknowledgments ACKNOWLEDGMENT_SET_CAPACITY (ch_outgoing ch) = (out, ids)" by fastforce
  let ?ch1 = "ch\<lparr>ch_outgoing := out\<rparr>"
  have ok1: "sender_ok ps ?ch1" using ok flight_all_take [OF s(3) take] by (simp add: sender_ok_def)
  have ok2: "sender_ok ps (ch\<lparr>ch_outgoing := return_acknowledgments ids out\<rparr>)"
    using ok1 by (simp add: sender_ok_def flight_all_return)
  show ?thesis
  proof (cases "ids \<noteq> [] \<and> (\<exists>p. new_acknowledgment_packet (ch_session ch) ids = Inr p)")
    case True
    then obtain p where p: "new_acknowledgment_packet (ch_session ch) ids = Inr p" by blast
    then have link: "link_ok ps p"
      using s(1) by (auto simp: new_acknowledgment_packet_def link_ok_def packet_wf_def packet_new_def session_ok_def
          opcode_wf_channel key_masked split: option.splits)
    have enc: "encode_link_packet cr unix p ?ch1 = (ch', r)"
      using ack s(2) take p True by (simp add: channel_acknowledgment_packet_def next_packet_carries_wrapped_client_key_def Let_def)
    have "protection_matching cr (ch_protection ?ch1) receiver" "ch_wrapped_client_key ?ch1 = []" using match s(2) by simp_all
    note w = encode_link_packet_wire [OF link this(2,1) enc]
    then show ?thesis using ok1 by (auto simp: sender_ok_def)
  next
    case False
    then show ?thesis using ack s(2) take ok1 ok2 match
      by (auto simp: channel_acknowledgment_packet_def next_packet_carries_wrapped_client_key_def Let_def split: sum.splits if_splits)
  qed
qed

lemma poll_wire:
  assumes ok: "sender_ok ps ch" and match: "protection_matching cr (ch_protection ch) receiver"
    and poll: "channel_packets_ready cr unix now ch = (ch', r)"
  shows "protection_matching cr (ch_protection ch') receiver \<and> ch_incoming ch' = ch_incoming ch \<and> sender_ok ps ch'
    \<and> (\<forall>raws. r = Inr raws \<longrightarrow> list_all (wire_ok cr ps receiver) raws)"
proof -
  obtain out due where due: "packets_ready_to_send now (ch_outgoing ch) = (out, due)" by fastforce
  have "flight_all (link_ok ps) (ch_outgoing ch)" "ch_wrapped_client_key ch = []" using ok by (auto simp: sender_ok_def)
  note f = flight_all_poll [OF this(1) due] and nokey = this(2)
  let ?ch1 = "ch\<lparr>ch_outgoing := out\<rparr>"
  obtain ch2 r2 where enc: "encode_link_packets cr unix due ?ch1 = (ch2, r2)" by fastforce
  have "protection_matching cr (ch_protection ?ch1) receiver" "ch_wrapped_client_key ?ch1 = []" using match nokey by simp_all
  note w = encode_link_packets_wire [OF f(2) this(2,1) enc]
  then obtain prot where prot: "ch2 = ?ch1\<lparr>ch_protection := prot\<rparr>" "protection_matching cr prot receiver" by blast
  have ok2: "sender_ok ps ch2" "protection_matching cr (ch_protection ch2) receiver" "ch_incoming ch2 = ch_incoming ch"
    using ok f(1) prot by (simp_all add: sender_ok_def)
  obtain ch3 r3 where ack: "channel_acknowledgment_packet cr unix ch2 = (ch3, r3)" by fastforce
  note a = ack_wire [OF ok2(1,2) ack]
  show ?thesis
  proof (cases r2)
    case (Inl e)
    with poll due enc ok2 show ?thesis by (auto simp: channel_packets_ready_def)
  next
    case (Inr packets)
    with w have "list_all (wire_ok cr ps receiver) packets" by blast
    with poll due enc Inr ack a ok2 show ?thesis
      by (cases r3) (auto simp: channel_packets_ready_def split: if_splits)
  qed
qed

end
