(* ===== verification/Ovpn_Link.thy ===== *)
theory Ovpn_Link
  imports Ovpn_Channel "HOL-Library.Sublist"
begin

text \<open>
  Two control channels joined by a datagram link, the composition that \<open>control_io.rs\<close> builds at
  both ends of a connection: TLS ciphertext is packetised, packets are retransmitted and acknowledged,
  and the link loses, repeats and reorders what it is given.
\<close>

subsection \<open>The receiving side\<close>

fun tls_bytes :: "incoming_control_event list \<Rightarrow> bytes" where
  "tls_bytes [] = []"
| "tls_bytes (TlsCiphertext b # es) = b @ tls_bytes es"
| "tls_bytes (_ # es) = tls_bytes es"

lemma tls_bytes_ciphertext:
  "tls_bytes (map (\<lambda>q. TlsCiphertext (pkt_payload q)) (filter (\<lambda>q. pkt_payload q \<noteq> []) qs)) = concat (map pkt_payload qs)"
  by (induction qs) auto

text \<open>The receiver has handed on the records up to its position and only holds later ones.\<close>

definition record_of :: "bytes list \<Rightarrow> packet \<Rightarrow> bool" where
  "record_of ps q \<longleftrightarrow> 0 < unat (pkt_id q) \<and> unat (pkt_id q) \<le> length ps \<and> pkt_payload q = ps ! (unat (pkt_id q) - 1)"

definition receiver_ok :: "bytes list \<Rightarrow> bytes \<Rightarrow> incoming_inner \<Rightarrow> bool" where
  "receiver_ok ps got inc \<longleftrightarrow> inc_wf inc \<and> (\<forall>(k, q) \<in> set (inc_pending inc). record_of ps q)
     \<and> unat (inc_last_consumed_id inc) \<le> length ps \<and> got = concat (take (unat (inc_last_consumed_id inc)) ps)"

lemma record_of_append: "record_of ps q \<Longrightarrow> record_of (ps @ qs) q"
  by (auto simp: record_of_def nth_append)

lemma receiver_ok_append: "receiver_ok ps got inc \<Longrightarrow> receiver_ok (ps @ qs) got inc"
  using record_of_append by (fastforce simp: receiver_ok_def)

lemma receiver_ok_new: "receiver_ok ps [] incoming_new"
  by (simp add: receiver_ok_def incoming_new_def inc_wf_def)

lemma concat_records:
  assumes "\<forall>q \<in> set ready. record_of ps q" "map (unat \<circ> pkt_id) ready = [Suc l ..< Suc l']" "l \<le> l'"
  shows "concat (take l ps) @ concat (map pkt_payload ready) = concat (take l' ps) \<and> (l < l' \<longrightarrow> l' \<le> length ps)"
proof -
  have bound: "l' \<le> length ps" if "l < l'"
  proof -
    have "l' \<in> set (map (unat \<circ> pkt_id) ready)" using that by (simp add: assms(2))
    then show ?thesis using assms(1) by (auto simp: record_of_def)
  qed
  have "map pkt_payload ready = map (\<lambda>i. ps ! (i - 1)) (map (unat \<circ> pkt_id) ready)"
    using assms(1) by (auto simp: record_of_def)
  also have "\<dots> = map ((!) ps) [l ..< l']"
    by (simp add: assms(2) list_eq_iff_nth_eq del: upt_Suc)
  also have "\<dots> = take (l' - l) (drop l ps)"
    using bound assms(3) by (cases "l < l'") (auto simp: list_eq_iff_nth_eq)
  finally have "take l ps @ map pkt_payload ready = take l' ps"
    using take_add [of l "l' - l" ps] assms(3) by simp
  then show ?thesis using bound by (metis concat_append)
qed

lemma receiver_ingest:
  assumes ok: "receiver_ok ps got inc" and p: "record_of ps p"
    and ins: "try_insert_incoming_packet p inc = (inc1, b)" and drain: "next_ordered_sequence inc1 = (inc2, ready)"
  shows "receiver_ok ps (got @ concat (map pkt_payload ready)) inc2" "receiver_ok ps got inc1"
proof -
  have wf: "inc_wf inc" "inc_wf inc1" using ok inc_wf_try_insert [OF _ ins] by (auto simp: receiver_ok_def)
  have last_id: "inc_last_consumed_id inc1 = inc_last_consumed_id inc"
    using ins by (auto simp: try_insert_incoming_packet_def Let_def split: if_splits)
  have "set (inc_pending inc1) \<subseteq> insert (pkt_id p, p) (set (inc_pending inc))"
    using ins set_btree_insert_subset [of "pkt_id p" p "inc_pending inc"]
    by (auto simp: try_insert_incoming_packet_def Let_def split: if_splits)
  then have pending: "\<forall>(k, q) \<in> set (inc_pending inc1). record_of ps q" using ok p by (auto simp: receiver_ok_def)
  show "receiver_ok ps got inc1" using ok wf(2) pending last_id by (simp add: receiver_ok_def)
  obtain m l where d: "drain_ordered (inc_pending inc1) (inc_last_consumed_id inc1) = (m, l, ready)"
      and inc2: "inc2 = \<lparr>inc_pending = m, inc_last_consumed_id = l\<rparr>"
    using drain by (auto simp: next_ordered_sequence_def split: prod.splits)
  have "inc_wf \<lparr>inc_pending = inc_pending inc1, inc_last_consumed_id = inc_last_consumed_id inc1\<rparr>"
    using wf(2) by (simp add: inc_wf_def)
  note D = drain_ordered_spec [OF this d]
  have "set ready \<union> snd ` set m = snd ` set (inc_pending inc1)"
    using D by (metis set_mset_mset set_mset_union set_map)
  with pending have rec: "\<forall>q \<in> set ready. record_of ps q" "\<forall>(k, q) \<in> set m. record_of ps q" by force+
  have "concat (take (unat (inc_last_consumed_id inc1)) ps) @ concat (map pkt_payload ready) = concat (take (unat l) ps)
      \<and> (unat (inc_last_consumed_id inc1) < unat l \<longrightarrow> unat l \<le> length ps)"
    using D by (intro concat_records [OF rec(1)]) auto
  with D rec(2) ok last_id show "receiver_ok ps (got @ concat (map pkt_payload ready)) inc2"
    by (auto simp: receiver_ok_def inc2)
qed

lemma sender_ok_seen: "sender_ok qs ch \<Longrightarrow> sender_ok qs (ch\<lparr>ch_outgoing := on_incoming_packet p (ch_outgoing ch)\<rparr>)"
  by (simp add: sender_ok_def flight_all_incoming)

lemma ingest_packet_ok:
  assumes link: "link_ok ps p" and s: "sender_ok qs ch" and r: "receiver_ok ps got (ch_incoming ch)"
    and ing: "ingest_packet p ch = (ch', events)"
  shows "sender_ok qs ch'" "receiver_ok ps (got @ tls_bytes events) (ch_incoming ch')" "ch_protection ch' = ch_protection ch"
proof -
  let ?seen = "ch\<lparr>ch_outgoing := on_incoming_packet p (ch_outgoing ch)\<rparr>"
  have op: "\<not> is_data (pkt_opcode p)" "\<not> is_tls_hard_reset_opcode (pkt_opcode p)"
    using link by (auto simp: link_ok_def is_data_def is_tls_hard_reset_opcode_def)
  have plain: "(ch', events) \<in> {(ch, []), (?seen, []), (ch, [SoftReset p])}
      \<or> (\<exists>inc1 inc2 ready. record_of ps p \<and> try_insert_incoming_packet p (ch_incoming ch) = (inc1, True)
          \<and> next_ordered_sequence inc1 = (inc2, ready) \<and> ch' = ?seen\<lparr>ch_incoming := inc2\<rparr>
          \<and> events = map (\<lambda>q. TlsCiphertext (pkt_payload q)) (filter (\<lambda>q. pkt_payload q \<noteq> []) ready))"
    using ing op link unfolding ingest_packet_def Let_def
    by (auto simp: link_ok_def record_of_def split: if_splits prod.splits bool.splits)
  show "sender_ok qs ch'" using plain s sender_ok_seen [OF s, of p] by (auto simp: sender_ok_def)
  show "ch_protection ch' = ch_protection ch" using plain by auto
  show "receiver_ok ps (got @ tls_bytes events) (ch_incoming ch')"
    using plain r receiver_ingest(1) [OF r] by (auto simp: tls_bytes_ciphertext)
qed

lemma ingest_wire:
  assumes wire: "wire_ok cr ps (ch_protection ch) out" and s: "sender_ok qs ch" and r: "receiver_ok ps got (ch_incoming ch)"
    and ing: "ingest_link_packet cr now out ch = (ch', res)"
  shows "sender_ok qs ch'" "receiver_ok ps (got @ (case res of Inl e \<Rightarrow> [] | Inr es \<Rightarrow> tls_bytes es)) (ch_incoming ch')"
    "ch_protection ch' = ch_protection ch \<or> ch_protection ch' = fst (protection_decode cr now out (ch_protection ch))"
proof -
  obtain p raw unix snd snd' where w: "link_ok ps p" "encode p = Inr raw" "protection_matching cr snd (ch_protection ch)"
      "protection_encode cr unix raw snd = (snd', out)"
    using wire by (auto simp: wire_ok_def)
  obtain q where q: "parse raw = Inr q" "link_ok ps q" "9 \<le> length raw" "from_wire (drop_bit 3 (hd raw)) = pkt_opcode p"
    using link_parse [OF w(1,2)] .
  have op: "is_control_or_acknowledgment (from_wire (drop_bit 3 (hd out)))"
    using protection_encode_header [OF q(3) w(4)] q(4) link_control [OF w(1)] by simp
  obtain prot d where dec: "protection_decode cr now out (ch_protection ch) = (prot, d)" by fastforce
  have s1: "sender_ok qs (ch\<lparr>ch_protection := prot\<rparr>)" "receiver_ok ps got (ch_incoming (ch\<lparr>ch_protection := prot\<rparr>))"
    using s r by (simp_all add: sender_ok_def)
  consider (fail) e where "ch' = ch \<or> ch' = ch\<lparr>ch_protection := prot\<rparr>" "res = Inl e"
    | (ok) events where "ingest_packet q (ch\<lparr>ch_protection := prot\<rparr>) = (ch', events)" "res = Inr events"
  proof (cases d)
    case (Inl e)
    then show ?thesis using ing op dec that(1) by (auto simp: ingest_link_packet_def Let_def split: if_splits)
  next
    case (Inr x)
    have "x = raw" using protection_decode_encode [OF w(3) q(3) w(4) dec [unfolded Inr]] .
    then show ?thesis using ing op dec Inr q(1) that by (auto simp: ingest_link_packet_def Let_def split: if_splits prod.splits)
  qed
  then have "sender_ok qs ch' \<and> receiver_ok ps (got @ (case res of Inl e \<Rightarrow> [] | Inr es \<Rightarrow> tls_bytes es)) (ch_incoming ch')
      \<and> (ch_protection ch' = ch_protection ch \<or> ch_protection ch' = prot)"
  proof cases
    case fail
    then show ?thesis using s r s1 by auto
  next
    case ok
    show ?thesis using ingest_packet_ok [OF q(2) s1 ok(1)] ok(2) by simp
  qed
  then show "sender_ok qs ch'" "receiver_ok ps (got @ (case res of Inl e \<Rightarrow> [] | Inr es \<Rightarrow> tls_bytes es)) (ch_incoming ch')"
    "ch_protection ch' = ch_protection ch \<or> ch_protection ch' = fst (protection_decode cr now out (ch_protection ch))"
    by (auto simp: dec)
qed

subsection \<open>Keys do not change\<close>

definition protection_keys :: "tls_control_protection
    \<Rightarrow> bytes \<times> (crypt_candidate \<times> crypt_candidate list) option \<times> (bytes \<times> bytes list \<times> auth_digest) option" where
  "protection_keys p = (prot_crypt_v2_server_key p, map_option (\<lambda>c. (cy_send c, cy_receive_candidates c)) (prot_crypt p),
     map_option (\<lambda>a. (au_send_key a, au_receive_keys a, au_auth a)) (prot_auth p))"

lemma matching_keys:
  assumes "protection_matching cr p q" "protection_keys p' = protection_keys p" "protection_keys q' = protection_keys q"
  shows "protection_matching cr p' q'"
  using assms
  by (auto simp: protection_keys_def protection_matching_def crypt_matching_def auth_matching_def split: option.splits)

lemma wire_ok_keys: "wire_ok cr ps q out \<Longrightarrow> protection_keys q' = protection_keys q \<Longrightarrow> wire_ok cr ps q' out"
  unfolding wire_ok_def by (blast intro: matching_keys)

lemma encode_keys: "protection_encode cr u raw p = (p', out) \<Longrightarrow> protection_keys p' = protection_keys p"
  by (auto simp: protection_keys_def protection_encode_def crypt_encode_def auth_encode_def Let_def
      split: option.splits prod.splits if_splits)

lemma auth_decode_keys:
  "auth_decode cr now out c = (c', r) \<Longrightarrow> \<exists>st. c' = c\<lparr>au_receive_state := st\<rparr>"
  by (auto simp: auth_decode_def Let_def split: option.splits prod.splits if_splits sum.splits
      intro: exI [of _ "au_receive_state c"])

lemma crypt_decode_keys:
  "crypt_decode cr now out c = (c', r) \<Longrightarrow> \<exists>st. c' = c\<lparr>cy_receive_state := st\<rparr>"
  by (auto simp: crypt_decode_def Let_def split: option.splits prod.splits if_splits sum.splits
      intro: exI [of _ "cy_receive_state c"])

lemma decode_keys:
  assumes "prot_crypt_v2_server_key p = []" "protection_decode cr now out p = (p', r)"
  shows "protection_keys p' = protection_keys p"
proof -
  have "extract_tls_crypt_v2_client_key cr out p = (p, Inl MissingServerKey)"
    using assms(1) by (simp add: extract_tls_crypt_v2_client_key_def)
  with assms auth_decode_keys crypt_decode_keys show ?thesis
    by (fastforce simp: protection_keys_def protection_decode_def Let_def split: option.splits prod.splits if_splits)
qed

lemma encode_link_packet_keys:
  assumes "encode_link_packet cr unix p ch = (ch', r)"
  shows "protection_keys (ch_protection ch') = protection_keys (ch_protection ch) \<and> ch_incoming ch' = ch_incoming ch"
  using assms encode_keys
  by (fastforce simp: encode_link_packet_def Let_def split: sum.splits prod.splits if_splits)

lemma encode_link_packets_keys:
  "encode_link_packets cr unix ps ch = (ch', r) \<Longrightarrow>
    protection_keys (ch_protection ch') = protection_keys (ch_protection ch) \<and> ch_incoming ch' = ch_incoming ch"
proof (induction ps arbitrary: ch ch' r)
  case (Cons p ps)
  obtain ch1 r1 where one: "encode_link_packet cr unix p ch = (ch1, r1)" by fastforce
  obtain ch2 r2 where rest: "encode_link_packets cr unix ps ch1 = (ch2, r2)" by fastforce
  from Cons.prems one rest encode_link_packet_keys [OF one] Cons.IH [OF rest] show ?case by (auto split: sum.splits)
qed simp

lemma channel_insert_keys:
  "channel_insert n create ch = (ch', r) \<Longrightarrow> ch_protection ch' = ch_protection ch \<and> ch_incoming ch' = ch_incoming ch"
  by (auto simp: channel_insert_def split: prod.splits)

lemma packetize_keys:
  assumes "packetize_tls_ciphertext cr unix data ch = (ch', r)"
  shows "protection_keys (ch_protection ch') = protection_keys (ch_protection ch)"
  using assms channel_insert_keys encode_link_packet_keys
  by (fastforce simp: packetize_tls_ciphertext_def Let_def split: sum.splits prod.splits option.splits if_splits)

lemma reset_keys:
  assumes "send_initial_soft_reset cr unix ch = (ch', r)"
  shows "protection_keys (ch_protection ch') = protection_keys (ch_protection ch)"
  using assms channel_insert_keys encode_link_packet_keys
  by (fastforce simp: send_initial_soft_reset_def split: sum.splits prod.splits option.splits)

lemma ack_keys:
  assumes "channel_acknowledgment_packet cr unix ch = (ch', r)"
  shows "protection_keys (ch_protection ch') = protection_keys (ch_protection ch)"
  using assms channel_insert_keys encode_link_packet_keys
  by (fastforce simp: channel_acknowledgment_packet_def Let_def split: sum.splits prod.splits option.splits if_splits)

lemma poll_keys:
  assumes "channel_packets_ready cr unix now ch = (ch', r)"
  shows "protection_keys (ch_protection ch') = protection_keys (ch_protection ch)"
proof -
  obtain out due where due: "packets_ready_to_send now (ch_outgoing ch) = (out, due)" by fastforce
  obtain ch1 r1 where enc: "encode_link_packets cr unix due (ch\<lparr>ch_outgoing := out\<rparr>) = (ch1, r1)" by fastforce
  obtain ch2 r2 where ack: "channel_acknowledgment_packet cr unix ch1 = (ch2, r2)" by fastforce
  from assms due enc ack encode_link_packets_keys [OF enc] ack_keys [OF ack] show ?thesis
    by (auto simp: channel_packets_ready_def split: sum.splits if_splits)
qed

subsection \<open>Two ends of a link\<close>

text \<open>
  An end of the link with everything it put on the wire, the TLS bytes its channel took over and the
  TLS bytes its channel handed on. A receive takes any datagram the peer ever sent.
\<close>

record endpoint =
  ep_channel :: control_channel
  ep_wire :: "bytes list"
  ep_sent :: bytes
  ep_got :: bytes

datatype link_event = SendTls u32 bytes | SendReset u32 | Poll u32 instant | Receive instant nat

definition endpoint_new :: "control_channel \<Rightarrow> endpoint" where
  "endpoint_new ch = \<lparr>ep_channel = ch, ep_wire = [], ep_sent = [], ep_got = []\<rparr>"

fun endpoint_step :: "crypto \<Rightarrow> bytes list \<Rightarrow> link_event \<Rightarrow> endpoint \<Rightarrow> endpoint" where
  "endpoint_step cr peer (SendTls unix data) x =
     (case packetize_tls_ciphertext cr unix data (ep_channel x) of
        (ch, Inr (Some (raw, n))) \<Rightarrow>
          x\<lparr>ep_channel := ch, ep_wire := ep_wire x @ [raw], ep_sent := ep_sent x @ take n data\<rparr>
      | (ch, _) \<Rightarrow> x\<lparr>ep_channel := ch\<rparr>)"
| "endpoint_step cr peer (SendReset unix) x =
     (case send_initial_soft_reset cr unix (ep_channel x) of
        (ch, Inr raw) \<Rightarrow> x\<lparr>ep_channel := ch, ep_wire := ep_wire x @ [raw]\<rparr>
      | (ch, _) \<Rightarrow> x\<lparr>ep_channel := ch\<rparr>)"
| "endpoint_step cr peer (Poll unix now) x =
     (case channel_packets_ready cr unix now (ep_channel x) of
        (ch, Inr raws) \<Rightarrow> x\<lparr>ep_channel := ch, ep_wire := ep_wire x @ raws\<rparr>
      | (ch, _) \<Rightarrow> x\<lparr>ep_channel := ch\<rparr>)"
| "endpoint_step cr peer (Receive now i) x =
     (if i < length peer
      then (case ingest_link_packet cr now (peer ! i) (ep_channel x) of
              (ch, Inr events) \<Rightarrow> x\<lparr>ep_channel := ch, ep_got := ep_got x @ tls_bytes events\<rparr>
            | (ch, _) \<Rightarrow> x\<lparr>ep_channel := ch\<rparr>)
      else x)"

fun link_step :: "crypto \<Rightarrow> bool \<times> link_event \<Rightarrow> endpoint \<times> endpoint \<Rightarrow> endpoint \<times> endpoint" where
  "link_step cr (True, ev) (x, y) = (endpoint_step cr (ep_wire y) ev x, y)"
| "link_step cr (False, ev) (x, y) = (x, endpoint_step cr (ep_wire x) ev y)"

definition link_run :: "crypto \<Rightarrow> (bool \<times> link_event) list \<Rightarrow> endpoint \<times> endpoint \<Rightarrow> endpoint \<times> endpoint" where
  "link_run cr events s = fold (link_step cr) events s"

text \<open>What one direction keeps: \<open>x\<close> sends, \<open>y\<close> receives.\<close>

definition direction_inv :: "crypto \<Rightarrow> bytes list \<Rightarrow> endpoint \<Rightarrow> endpoint \<Rightarrow> bool" where
  "direction_inv cr ps x y \<longleftrightarrow> sender_ok ps (ep_channel x) \<and> ep_sent x = concat ps
     \<and> protection_matching cr (ch_protection (ep_channel x)) (ch_protection (ep_channel y))
     \<and> list_all (wire_ok cr ps (ch_protection (ep_channel y))) (ep_wire x)
     \<and> receiver_ok ps (ep_got y) (ch_incoming (ep_channel y))"

lemma list_all_wire_append: "list_all (wire_ok cr ps q) outs \<Longrightarrow> list_all (wire_ok cr (ps @ qs) q) outs"
  by (auto simp: list_all_iff intro: wire_ok_append)

text \<open>The records of the sender after an event of its own.\<close>

fun records_after :: "crypto \<Rightarrow> link_event \<Rightarrow> endpoint \<Rightarrow> bytes list \<Rightarrow> bytes list" where
  "records_after cr (SendTls unix data) x ps =
     (case packetize_tls_ciphertext cr unix data (ep_channel x) of
        (_, Inr (Some (raw, n))) \<Rightarrow> ps @ [take n data]
      | _ \<Rightarrow> ps)"
| "records_after cr _ x ps = ps"

text \<open>A step of the sender that only touches its sending side.\<close>

lemma direction_sender:
  assumes "direction_inv cr ps x y" and ev: "\<And>now i. ev \<noteq> Receive now i"
  shows "direction_inv cr (records_after cr ev x ps) (endpoint_step cr peer ev x) y"
proof -
  let ?ch = "ep_channel x" and ?q = "ch_protection (ep_channel y)"
  have inv: "sender_ok ps ?ch" "ep_sent x = concat ps" "protection_matching cr (ch_protection ?ch) ?q"
      "list_all (wire_ok cr ps ?q) (ep_wire x)" "receiver_ok ps (ep_got y) (ch_incoming (ep_channel y))"
    using assms(1) by (simp_all add: direction_inv_def)
  show ?thesis
  proof (cases ev)
    case (SendTls unix data)
    obtain ch r where step: "packetize_tls_ciphertext cr unix data ?ch = (ch, r)" by fastforce
    note w = packetize_wire [OF inv(1,3) step]
    show ?thesis
    proof (cases "\<exists>raw n. r = Inr (Some (raw, n))")
      case True
      then show ?thesis
        using w inv step SendTls list_all_wire_append receiver_ok_append by (auto simp: direction_inv_def)
    next
      case False
      then have "endpoint_step cr peer ev x = x\<lparr>ep_channel := ch\<rparr>" "sender_ok ps ch" "records_after cr ev x ps = ps"
        using step SendTls w by (auto split: sum.splits option.splits)
      then show ?thesis using w inv by (simp add: direction_inv_def)
    qed
  next
    case (SendReset unix)
    obtain ch r where step: "send_initial_soft_reset cr unix ?ch = (ch, r)" by fastforce
    show ?thesis
      using soft_reset_wire [OF inv(1,3) step] inv step SendReset by (auto simp: direction_inv_def split: sum.splits)
  next
    case (Poll unix now)
    obtain ch r where step: "channel_packets_ready cr unix now ?ch = (ch, r)" by fastforce
    show ?thesis
      using poll_wire [OF inv(1,3) step] inv step Poll by (auto simp: direction_inv_def split: sum.splits)
  qed (use ev in blast)
qed

text \<open>The same step, seen from the other direction: \<open>y\<close> sends on its receiving side, nothing changes.\<close>

lemma send_step_keys:
  assumes ev: "\<And>now i. ev \<noteq> Receive now i"
  shows "protection_keys (ch_protection (ep_channel (endpoint_step cr peer ev y))) = protection_keys (ch_protection (ep_channel y))"
    "ep_got (endpoint_step cr peer ev y) = ep_got y"
  using ev packetize_keys reset_keys poll_keys
  by (cases ev; fastforce split: prod.splits sum.splits option.splits)+

lemma send_step_incoming:
  assumes ev: "\<And>now i. ev \<noteq> Receive now i" and "sender_ok qs (ep_channel y)"
    "protection_matching cr (ch_protection (ep_channel y)) q"
  shows "ch_incoming (ep_channel (endpoint_step cr peer ev y)) = ch_incoming (ep_channel y)"
  using ev packetize_wire [OF assms(2,3)] soft_reset_wire [OF assms(2,3)] poll_wire [OF assms(2,3)]
  by (cases ev; fastforce split: prod.splits sum.splits option.splits)

lemma direction_receiver_keys:
  assumes "direction_inv cr ps x y" "protection_keys (ch_protection ch) = protection_keys (ch_protection (ep_channel y))"
    and "receiver_ok ps got (ch_incoming ch)"
  shows "direction_inv cr ps x (y\<lparr>ep_channel := ch, ep_got := got, ep_wire := w, ep_sent := s\<rparr>)"
  using assms matching_keys wire_ok_keys by (auto simp: direction_inv_def list_all_iff)

lemma direction_sender_keys:
  assumes "direction_inv cr ps x y" "protection_keys (ch_protection ch) = protection_keys (ch_protection (ep_channel x))"
    and "sender_ok ps ch"
  shows "direction_inv cr ps (x\<lparr>ep_channel := ch, ep_got := got\<rparr>) y"
  using assms matching_keys by (auto simp: direction_inv_def)

definition link_inv :: "crypto \<Rightarrow> endpoint \<times> endpoint \<Rightarrow> bool" where
  "link_inv cr s \<longleftrightarrow> (\<exists>ps qs. direction_inv cr ps (fst s) (snd s) \<and> direction_inv cr qs (snd s) (fst s))"

lemma link_inv_swap: "link_inv cr (x, y) = link_inv cr (y, x)"
  by (auto simp: link_inv_def)

text \<open>Both directions at an event of \<open>x\<close>.\<close>

lemma direction_steps:
  assumes inv: "direction_inv cr ps x y" "direction_inv cr qs y x"
  shows "direction_inv cr (records_after cr ev x ps) (endpoint_step cr (ep_wire y) ev x) y"
    "direction_inv cr qs y (endpoint_step cr (ep_wire y) ev x)"
proof -
  let ?x = "endpoint_step cr (ep_wire y) ev x"
  have "direction_inv cr (records_after cr ev x ps) ?x y \<and> direction_inv cr qs y ?x"
  proof (cases "\<exists>now i. ev = Receive now i")
    case False
    then have ev: "\<And>now i. ev \<noteq> Receive now i" by blast
    have "ch_incoming (ep_channel ?x) = ch_incoming (ep_channel x)"
      using inv(1) send_step_incoming [OF ev] unfolding direction_inv_def by blast
    then have "direction_inv cr qs y (x\<lparr>ep_channel := ep_channel ?x, ep_got := ep_got x, ep_wire := ep_wire ?x, ep_sent := ep_sent ?x\<rparr>)"
      using inv(2) send_step_keys(1) [OF ev] by (intro direction_receiver_keys [OF inv(2)]) (simp_all add: direction_inv_def)
    then have "direction_inv cr qs y ?x" using send_step_keys(2) [OF ev] by (simp add: direction_inv_def)
    then show ?thesis using direction_sender [OF inv(1) ev] by blast
  next
    case True
    then obtain now i where ev: "ev = Receive now i" by blast
    show ?thesis
    proof (cases "i < length (ep_wire y)")
      case False
      then show ?thesis using inv ev by simp
    next
      case True
      obtain ch r where ing: "ingest_link_packet cr now (ep_wire y ! i) (ep_channel x) = (ch, r)" by fastforce
      have pre: "wire_ok cr qs (ch_protection (ep_channel x)) (ep_wire y ! i)" "sender_ok ps (ep_channel x)"
          "receiver_ok qs (ep_got x) (ch_incoming (ep_channel x))" "prot_crypt_v2_server_key (ch_protection (ep_channel x)) = []"
        using inv True by (simp_all add: direction_inv_def protection_matching_def list_all_length)
      note got = ingest_wire(1,2) [OF pre(1-3) ing]
      have keys: "protection_keys (ch_protection ch) = protection_keys (ch_protection (ep_channel x))"
        using ingest_wire(3) [OF pre(1-3) ing] decode_keys [OF pre(4) prod.collapse [symmetric]] by auto
      let ?got = "ep_got x @ (case r of Inl e \<Rightarrow> [] | Inr es \<Rightarrow> tls_bytes es)"
      have x: "?x = x\<lparr>ep_channel := ch, ep_got := ?got\<rparr>" using True ing ev by (simp split: sum.split)
      have "direction_inv cr ps ?x y" unfolding x by (rule direction_sender_keys [OF inv(1) keys got(1)])
      moreover have "direction_inv cr qs y (x\<lparr>ep_channel := ch, ep_got := ?got, ep_wire := ep_wire x, ep_sent := ep_sent x\<rparr>)"
        by (rule direction_receiver_keys [OF inv(2) keys got(2)])
      then have "direction_inv cr qs y ?x" by (simp add: x direction_inv_def)
      ultimately show ?thesis using ev by simp
    qed
  qed
  then show "direction_inv cr (records_after cr ev x ps) ?x y" "direction_inv cr qs y ?x" by blast+
qed

lemma endpoint_step_inv: "link_inv cr (x, y) \<Longrightarrow> link_inv cr (endpoint_step cr (ep_wire y) ev x, y)"
  using direction_steps unfolding link_inv_def fst_conv snd_conv by blast

lemma link_run_inv: "link_inv cr s \<Longrightarrow> link_inv cr (link_run cr events s)"
proof (induction events arbitrary: s)
  case (Cons e events)
  obtain b ev x y where e: "e = (b, ev)" "s = (x, y)" by (metis surj_pair)
  have "link_inv cr (link_step cr (b, ev) (x, y))"
    using endpoint_step_inv [of cr x y ev] endpoint_step_inv [of cr y x ev] Cons.prems
    by (cases b) (simp_all add: link_inv_swap [of cr x] e)
  with Cons.IH show ?case by (simp add: link_run_def e)
qed (simp add: link_run_def)

text \<open>
  The protections of two peers set up from one configuration: none, \<open>tls-crypt\<close> or \<open>tls-auth\<close> from
  one key file with opposite directions.
\<close>

definition peer_protections ::
  "crypto \<Rightarrow> bytes \<Rightarrow> string \<Rightarrow> int \<Rightarrow> int \<Rightarrow> tls_control_protection \<Rightarrow> tls_control_protection \<Rightarrow> bool" where
  "peer_protections cr key name da db pa pb \<longleftrightarrow>
     pa = protection_default \<and> pb = protection_default
   \<or> (case (control_crypt_new cr key da, control_crypt_new cr key db) of
        (Inr ca, Inr cb) \<Rightarrow> pa = protection_default\<lparr>prot_crypt := Some ca\<rparr> \<and> pb = protection_default\<lparr>prot_crypt := Some cb\<rparr>
      | _ \<Rightarrow> False)
   \<or> (case (control_auth_new cr key da name, control_auth_new cr key db name) of
        (Inr aa, Inr ab) \<Rightarrow> pa = protection_default\<lparr>prot_auth := Some aa\<rparr> \<and> pb = protection_default\<lparr>prot_auth := Some ab\<rparr>
      | _ \<Rightarrow> False)"

lemma peer_protections_swap: "peer_protections cr key name da db pa pb \<Longrightarrow> peer_protections cr key name db da pb pa"
  by (auto simp: peer_protections_def split: sum.splits)

lemma opposite_swap: "opposite da db \<Longrightarrow> opposite db da"
  by (auto simp: opposite_def)

lemma peer_protections_match:
  assumes "crypto_ok cr" "opposite da db" "peer_protections cr key name da db pa pb"
  shows "protection_matching cr pa pb"
  using assms crypt_peers_match(1) auth_peers_match(1)
  by (auto simp: peer_protections_def protection_matching_def protection_default_def split: sum.splits)

text \<open>A channel as it is created, with no TLS record sent yet.\<close>

definition fresh_channel :: "tls_control_protection \<Rightarrow> control_channel \<Rightarrow> bool" where
  "fresh_channel prot ch \<longleftrightarrow> (\<exists>ses ipv6. ch = control_channel_new ses prot [] ipv6
     \<and> session_ok ses \<and> ses_local_control_packet_id ses = 1)"

lemma fresh_direction:
  assumes "fresh_channel p a" "fresh_channel q b" "protection_matching cr p q"
  shows "direction_inv cr [] (endpoint_new a) (endpoint_new b)"
  using assms
  by (auto simp: fresh_channel_def direction_inv_def endpoint_new_def control_channel_new_def sender_ok_def
      flight_all_new receiver_ok_new)

text \<open>
  Property C1. The control stream end to end. Two fresh channels, unprotected or protected with
  \<open>tls-crypt\<close> or \<open>tls-auth\<close> from one key file, are joined by a link that loses, repeats, delays and
  reorders datagrams. However TLS writes, soft resets, polls and deliveries interleave, the TLS bytes
  each side has handed to its TLS engine are a prefix of the bytes the other side's channel has
  taken over: nothing is lost, repeated, reordered or altered inside the stream.
\<close>

theorem control_stream_prefix:
  assumes cr: "crypto_ok cr" "opposite da db" "peer_protections cr key name da db pa pb"
    and fresh: "fresh_channel pa a" "fresh_channel pb b"
  shows "case link_run cr events (endpoint_new a, endpoint_new b) of (x, y) \<Rightarrow>
    prefix (ep_got y) (ep_sent x) \<and> prefix (ep_got x) (ep_sent y)"
proof -
  have "link_inv cr (endpoint_new a, endpoint_new b)"
    using fresh_direction [OF fresh peer_protections_match [OF cr]]
      fresh_direction [OF fresh(2,1) peer_protections_match [OF cr(1) opposite_swap [OF cr(2)] peer_protections_swap [OF cr(3)]]]
    by (auto simp: link_inv_def)
  then have "link_inv cr (link_run cr events (endpoint_new a, endpoint_new b))" by (rule link_run_inv)
  moreover have "prefix (ep_got y) (ep_sent x)" if "direction_inv cr ps x y" for ps x y
  proof -
    have "ep_got y = concat (take (unat (inc_last_consumed_id (ch_incoming (ep_channel y)))) ps)" "ep_sent x = concat ps"
      using that by (simp_all add: direction_inv_def receiver_ok_def)
    then show ?thesis by (metis append_take_drop_id concat_append prefixI)
  qed
  ultimately show ?thesis by (auto simp: link_inv_def split: prod.splits)
qed

text \<open>A client and a server.\<close>

definition sample_channel :: "string \<Rightarrow> string \<Rightarrow> control_channel" where
  "sample_channel here there =
     control_channel_new (set_remote_session_id (ascii_bytes there) (with_local_id (ascii_bytes here))) protection_default [] False"

lemma sample_fresh: "fresh_channel protection_default (sample_channel ''clientid'' ''serverid'')"
  "fresh_channel protection_default (sample_channel ''serverid'' ''clientid'')"
  by (auto simp: fresh_channel_def sample_channel_def session_ok_def set_remote_session_id_def with_local_id_def ascii_bytes_def)

lemma sample_run:
  "case link_run plain_crypto [(True, SendTls 1000 [1, 2, 3]), (True, SendTls 1000 [4]), (False, Receive 5 1), (False, Receive 6 0),
      (False, Receive 7 0), (False, SendTls 1000 [9]), (True, Receive 8 0)]
      (endpoint_new (sample_channel ''clientid'' ''serverid''), endpoint_new (sample_channel ''serverid'' ''clientid'')) of
    (x, y) \<Rightarrow> ep_got y = [1, 2, 3, 4] \<and> ep_got x = [9]"
  by code_simp

theorem control_stream_prefix_witness:
  "case link_run plain_crypto [(True, SendTls 1000 [1, 2, 3]), (True, SendTls 1000 [4]), (False, Receive 5 1), (False, Receive 6 0),
      (False, Receive 7 0), (False, SendTls 1000 [9]), (True, Receive 8 0)]
      (endpoint_new (sample_channel ''clientid'' ''serverid''), endpoint_new (sample_channel ''serverid'' ''clientid'')) of
    (x, y) \<Rightarrow> prefix (ep_got y) (ep_sent x) \<and> prefix (ep_got x) (ep_sent y) \<and> ep_got y = [1, 2, 3, 4] \<and> ep_got x = [9]"
proof -
  have "opposite 0 1" by (simp add: opposite_def)
  moreover have "peer_protections plain_crypto [] [] 0 1 protection_default protection_default" by (simp add: peer_protections_def)
  ultimately show ?thesis
    using control_stream_prefix [OF plain_crypto_ok _ _ sample_fresh] sample_run unfolding case_prod_beta by blast
qed

subsection \<open>Acknowledged but not kept\<close>

text \<open>
  \<open>ingest_link_packet\<close> queues the acknowledgment of a control packet before it tries to store it, so
  a packet beyond the receive window is acknowledged and dropped.
\<close>

lemma beyond_window_acknowledged:
  assumes ses: "validate_incoming_remote_session_id (ch_session ch) p" "validate_incoming_local_session_id (ch_session ch) p"
      "pkt_key_id p = ses_key_id (ch_session ch)"
    and op: "pkt_opcode p = ControlV1" and inc: "inc_wf (ch_incoming ch)"
    and beyond: "unat (inc_last_consumed_id (ch_incoming ch)) + 12 < unat (pkt_id p)"
    and room: "length (out_pending_acknowledgments (ch_outgoing ch)) < ACKNOWLEDGMENT_SET_CAPACITY"
  shows "\<exists>ch'. ingest_packet p ch = (ch', []) \<and> ch_incoming ch' = ch_incoming ch
    \<and> pkt_id p \<in> set (out_pending_acknowledgments (ch_outgoing ch'))"
proof -
  have "try_insert_incoming_packet p (ch_incoming ch) = (ch_incoming ch, False)"
    using beyond by (simp add: try_insert_cases [OF inc])
  then show ?thesis using assms
    by (simp add: ingest_packet_def Let_def is_tls_hard_reset_opcode_def on_incoming_packet_def set_insort_insert)
qed

text \<open>
  The sender limits the number of packets in flight, not their distance, so such a packet does occur:
  while the first record stays lost, eleven later ones are acknowledged, the thirteenth is too and is
  then held by nobody.
\<close>

definition stall_events :: "(bool \<times> link_event) list" where
  "stall_events =
     (let x = (\<lambda>b. (True, SendTls 1000 [b])); y = (\<lambda>i. (False, Receive 5 i));
          ack = (False, SendTls 1000 [9]); r = (\<lambda>i. (True, Receive 5 i))
      in map x [1, 2, 3, 4, 5, 6] @ map y [1, 2, 3, 4, 5] @ [ack, ack] @ map r [0, 1]
         @ map x [7, 8, 9, 10, 11] @ map y [6, 7, 8, 9, 10] @ [ack, ack] @ map r [2, 3]
         @ [x 12, y 11, ack, r 4] @ [x 13, y 12, ack, r 5])"

lemma acknowledged_packet_lost:
  "case link_run plain_crypto stall_events
      (endpoint_new (sample_channel ''clientid'' ''serverid''), endpoint_new (sample_channel ''serverid'' ''clientid'')) of
    (x, y) \<Rightarrow> ep_sent x = [1, 2, 3, 4, 5, 6, 7, 8, 9, 10, 11, 12, 13]
      \<and> map fst (out_in_flight (ch_outgoing (ep_channel x))) = [1]
      \<and> map fst (inc_pending (ch_incoming (ep_channel y))) = [2, 3, 4, 5, 6, 7, 8, 9, 10, 11, 12]
      \<and> inc_last_consumed_id (ch_incoming (ep_channel y)) = 0"
  by code_simp

end
