(* ===== verification/Ovpn_Delivery.thy ===== *)
theory Ovpn_Delivery
  imports Ovpn_Link
begin

text \<open>
  Delivery over a link that keeps the order and loses nothing: everything a channel takes over from
  its TLS engine arrives at the other TLS engine. Besides the invariant of \<open>Ovpn_Link\<close> this follows the
  packet numbers of the protection layer and the records in the order they go on the wire.
\<close>

subsection \<open>Packet numbers\<close>

definition prot_send_state :: "tls_control_protection \<Rightarrow> packet_id_state" where
  "prot_send_state p = (case prot_crypt p of
     Some c \<Rightarrow> cy_send_state c
   | None \<Rightarrow> (case prot_auth p of Some a \<Rightarrow> au_send_state a | None \<Rightarrow> packet_id_default))"

definition prot_receive_state :: "tls_control_protection \<Rightarrow> replay_inner option" where
  "prot_receive_state p = (case prot_crypt p of
     Some c \<Rightarrow> Some (cy_receive_state c)
   | None \<Rightarrow> map_option au_receive_state (prot_auth p))"

text \<open>The receiver has seen nothing newer than the state \<open>st\<close> of the sender.\<close>

definition in_step_with :: "tls_control_protection \<Rightarrow> packet_id_state \<Rightarrow> bool" where
  "in_step_with q st \<longleftrightarrow> (\<forall>r. prot_receive_state q = Some r \<longrightarrow> seen_upto r st)"

lemma encode_receive_state: "protection_encode cr u raw p = (p', out) \<Longrightarrow> prot_receive_state p' = prot_receive_state p"
  by (auto simp: prot_receive_state_def protection_encode_def crypt_encode_def auth_encode_def Let_def
      split: option.splits prod.splits if_splits)

lemma decode_send_state:
  assumes "prot_crypt_v2_server_key p = []" "protection_decode cr now out p = (p', r)"
  shows "prot_send_state p' = prot_send_state p"
proof -
  have "extract_tls_crypt_v2_client_key cr out p = (p, Inl MissingServerKey)"
    using assms(1) by (simp add: extract_tls_crypt_v2_client_key_def)
  with assms auth_decode_keys crypt_decode_keys show ?thesis
    by (fastforce simp: prot_send_state_def protection_decode_def Let_def split: option.splits prod.splits if_splits)
qed

lemma encode_send_state:
  assumes "9 \<le> length raw" "protection_encode cr u raw p = (p', out)"
  shows "prot_send_state p' = (if prot_crypt p = None \<and> prot_auth p = None then prot_send_state p
    else fst (next_packet_id u (prot_send_state p)))"
  using assms tls_crypt.enc_numbers [OF assms(1)] tls_auth.enc_numbers [OF assms(1)]
  by (auto simp: prot_send_state_def protection_encode_def split: option.splits prod.splits)

text \<open>A packet that is next in order is opened.\<close>

lemma protection_in_order:
  assumes match: "protection_matching cr p q" and len: "9 \<le> length raw"
    and op: "from_wire (drop_bit 3 (hd raw)) \<notin> {ControlHardResetClientV3, ControlWkcV1}"
    and enc: "protection_encode cr u raw p = (p', out)" and seen: "in_step_with q (prot_send_state p)"
    and id: "pid_next_id (prot_send_state p) \<noteq> - 1" and dec: "protection_decode cr now out q = (q', r)"
  shows "r = Inr raw \<and> in_step_with q' (prot_send_state p')"
proof -
  have hd: "hd out = hd raw" by (rule protection_encode_header [OF len enc])
  have long: "9 \<le> length out"
    using enc len by (auto simp: protection_encode_def crypt_encode_def auth_encode_def wrap_consts Let_def
        split: option.splits prod.splits if_splits)
  show ?thesis
  proof (cases "prot_crypt p")
    case (Some c)
    obtain d c' where d: "prot_crypt q = Some d" "crypt_matching cr c d" "crypt_encode cr u raw c = (c', out)" "p' = p\<lparr>prot_crypt := Some c'\<rparr>"
      using match enc Some by (auto simp: protection_matching_def protection_encode_def split: option.splits prod.splits)
    obtain d' where dd: "crypt_decode cr now out d = (d', r)" "q' = q\<lparr>prot_crypt := Some d'\<rparr>"
      using dec d(1) long op hd by (auto simp: protection_decode_def wrap_consts Let_def split: prod.splits)
    have fresh: "fresh_id (sent_key (fst (next_packet_id u (cy_send_state c)))) now (cy_receive_state d) = (cy_receive_state d', \<not> isl r)"
      using tls_crypt.dec_receive [OF d(2) len d(3) dd(1)] tls_crypt.enc_numbers [OF len d(3)] by simp
    have "seen_upto (cy_receive_state d) (cy_send_state c)" "pid_next_id (cy_send_state c) \<noteq> - 1"
      using seen id d(1) Some by (auto simp: in_step_with_def prot_receive_state_def prot_send_state_def)
    note new = fresh_id_next [OF this fresh]
    have "r = Inr raw" using new tls_crypt.dec_result [OF d(2) len d(3)] dd(1) by (cases r) auto
    then show ?thesis using new tls_crypt.enc_numbers [OF len d(3)] d(4) dd(2)
      by (simp add: in_step_with_def prot_receive_state_def prot_send_state_def)
  next
    case None
    show ?thesis
    proof (cases "prot_auth p")
      case (Some c)
      obtain d c' where d: "prot_crypt q = None" "prot_auth q = Some d" "auth_matching cr c d" "auth_encode cr u raw c = (c', out)"
          "p' = p\<lparr>prot_auth := Some c'\<rparr>"
        using match enc Some None by (auto simp: protection_matching_def protection_encode_def split: option.splits prod.splits)
      obtain d' where dd: "auth_decode cr now out d = (d', r)" "q' = q\<lparr>prot_auth := Some d'\<rparr>"
        using dec d(1,2) long op hd by (auto simp: protection_decode_def wrap_consts Let_def split: prod.splits)
      have fresh: "fresh_id (sent_key (fst (next_packet_id u (au_send_state c)))) now (au_receive_state d) = (au_receive_state d', \<not> isl r)"
        using tls_auth.dec_receive [OF d(3) len d(4) dd(1)] tls_auth.enc_numbers [OF len d(4)] by simp
      have "seen_upto (au_receive_state d) (au_send_state c)" "pid_next_id (au_send_state c) \<noteq> - 1"
        using seen id d(1,2) None Some by (auto simp: in_step_with_def prot_receive_state_def prot_send_state_def)
      note new = fresh_id_next [OF this fresh]
      have "r = Inr raw" using new tls_auth.dec_result [OF d(3) len d(4)] dd(1) by (cases r) auto
      then show ?thesis using new tls_auth.enc_numbers [OF len d(4)] d(1,5) dd(2) None
        by (simp add: in_step_with_def prot_receive_state_def prot_send_state_def)
    next
      case none: None
      have "prot_crypt q = None" "prot_auth q = None" "out = raw" "p' = p" "prot_crypt_v2_server_key q = []"
        using match enc None none by (auto simp: protection_matching_def protection_encode_def split: option.splits)
      then show ?thesis using dec len op
        by (auto simp: protection_decode_def wrap_consts Let_def in_step_with_def prot_receive_state_def)
    qed
  qed
qed

subsection \<open>The wire as a sequence of packets\<close>

text \<open>A datagram of the wire with the packet in it and the sender's packet-id state before and after.\<close>

definition numbered :: "crypto \<Rightarrow> bytes list \<Rightarrow> tls_control_protection \<Rightarrow> packet_id_state \<Rightarrow> bytes \<Rightarrow> packet \<Rightarrow> packet_id_state \<Rightarrow> bool" where
  "numbered cr ps q st out p st' \<longleftrightarrow> (\<exists>raw unix snd snd'. link_ok ps p \<and> encode p = Inr raw
     \<and> protection_matching cr snd q \<and> protection_encode cr unix raw snd = (snd', out)
     \<and> prot_send_state snd = st \<and> prot_send_state snd' = st')"

fun chain :: "crypto \<Rightarrow> bytes list \<Rightarrow> tls_control_protection \<Rightarrow> packet_id_state \<Rightarrow> bytes list \<Rightarrow> packet list \<Rightarrow> packet_id_state \<Rightarrow> bool" where
  "chain cr ps q st [] [] st' \<longleftrightarrow> st' = st"
| "chain cr ps q st (out # outs) (p # pks) st' \<longleftrightarrow> (\<exists>mid. numbered cr ps q st out p mid \<and> chain cr ps q mid outs pks st')"
| "chain cr ps q st _ _ st' \<longleftrightarrow> False"

lemma chain_length: "chain cr ps q st outs pks st' \<Longrightarrow> length pks = length outs"
  by (induction cr ps q st outs pks st' rule: chain.induct) auto

lemma chain_append:
  "chain cr ps q st outs pks mid \<Longrightarrow> chain cr ps q mid outs' pks' st' \<Longrightarrow> chain cr ps q st (outs @ outs') (pks @ pks') st'"
  by (induction cr ps q st outs pks mid rule: chain.induct) auto

lemma numbered_mono:
  assumes "numbered cr ps q st out p st'" "protection_keys q' = protection_keys q"
  shows "numbered cr (ps @ qs) q' st out p st'"
  using assms link_ok_append matching_keys [OF _ refl assms(2)] unfolding numbered_def by blast

lemma chain_mono:
  "chain cr ps q st outs pks st' \<Longrightarrow> protection_keys q' = protection_keys q \<Longrightarrow> chain cr (ps @ qs) q' st outs pks st'"
  by (induction cr ps q st outs pks st' rule: chain.induct) (auto intro: numbered_mono)

text \<open>Records go out in order: a record is at most one ahead of those already on the wire.\<close>

fun contiguous :: "nat \<Rightarrow> packet list \<Rightarrow> nat option" where
  "contiguous n [] = Some n"
| "contiguous n (p # pks) =
     (if pkt_opcode p = ControlV1
      then if unat (pkt_id p) \<le> n + 1 then contiguous (max n (unat (pkt_id p))) pks else None
      else contiguous n pks)"

lemma contiguous_append: "contiguous n (pks @ qks) = Option.bind (contiguous n pks) (\<lambda>m. contiguous m qks)"
  by (induction n pks rule: contiguous.induct) auto

lemma contiguous_old:
  "\<forall>p \<in> set pks. link_ok ps p \<Longrightarrow> contiguous (length ps) pks = Some (length ps)"
  by (induction pks) (auto simp: link_ok_def max_def)

lemma contiguous_mono: "contiguous n pks = Some m \<Longrightarrow> n \<le> m"
  by (induction n pks arbitrary: m rule: contiguous.induct) (auto split: if_splits)

subsection \<open>Packets carry the addresses of the session\<close>

definition addressed :: "bytes \<Rightarrow> bytes \<Rightarrow> u8 \<Rightarrow> packet \<Rightarrow> bool" where
  "addressed here there key p \<longleftrightarrow> pkt_local_session_id p = here \<and> (pkt_acknowledgment_ids p \<noteq> [] \<longrightarrow> pkt_remote_session_id p = there)
     \<and> pkt_key_id p = key \<and> length (pkt_acknowledgment_ids p) \<le> 255"

definition session_between :: "bytes \<Rightarrow> bytes \<Rightarrow> u8 \<Rightarrow> session \<Rightarrow> bool" where
  "session_between here there key ses \<longleftrightarrow> ses_local_session_id ses = here \<and> ses_remote_session_id ses = Some there
     \<and> ses_key_id ses = key"

definition channel_between :: "bytes \<Rightarrow> bytes \<Rightarrow> u8 \<Rightarrow> control_channel \<Rightarrow> bool" where
  "channel_between here there key ch \<longleftrightarrow> session_between here there key (ch_session ch)
     \<and> flight_all (addressed here there key) (ch_outgoing ch)"

lemma key_mask: "k < 8 \<Longrightarrow> k AND 7 = (k :: u8)"
  using header_key_bits [of k 0] by (simp add: and.assoc)

lemma create_control_between:
  assumes "session_between here there key ses" "key < 8" "create_control op payload ids ses = (ses', r)" "length ids \<le> 255"
  shows "session_between here there key ses'"
    "\<And>p. r = Inr p \<Longrightarrow> addressed here there key p \<and> pkt_opcode p = op \<and> pkt_id p = ses_local_control_packet_id ses"
  using assms
  by (auto simp: create_control_def new_control_packet_def session_between_def addressed_def packet_new_def key_mask
      split: if_splits)

lemma create_soft_reset_between:
  assumes "session_between here there key ses" "key < 8" "create_soft_reset ids ses = (ses', r)" "length ids \<le> 255"
  shows "session_between here there key ses'" "\<And>p. r = Inr p \<Longrightarrow> addressed here there key p \<and> pkt_opcode p = ControlSoftResetV1"
  using assms
  by (auto simp: create_soft_reset_def new_soft_reset_packet_def session_between_def addressed_def packet_new_def key_mask)

text \<open>An insertion whose constructor keeps the addresses, and what it inserts.\<close>

lemma channel_insert_between:
  assumes ch: "channel_between here there key ch" and n: "n \<le> 255"
    and create: "\<And>ids ses' r. create ids (ch_session ch) = (ses', r) \<Longrightarrow> length ids \<le> n \<Longrightarrow>
      session_between here there key ses' \<and> (\<forall>p. r = Inr p \<longrightarrow> addressed here there key p)"
    and ins: "channel_insert n create ch = (ch1, i)"
  shows "channel_between here there key ch1" "\<And>p. i = Inr (Some p) \<Longrightarrow> addressed here there key p"
proof -
  obtain out1 ids where take: "take_acknowledgments n (ch_outgoing ch) = (out1, ids)" by fastforce
  then have few: "length ids \<le> n" by (auto simp: take_acknowledgments_def Let_def)
  obtain ses1 q where made: "create ids (ch_session ch) = (ses1, q)" by fastforce
  note c = create [OF made few]
  have f: "flight_all (addressed here there key) (ch_outgoing ch)" "session_between here there key (ch_session ch)"
    using ch by (simp_all add: channel_between_def)
  obtain out' ses' where i: "insert_outgoing_packet n create (ch_session ch) (ch_outgoing ch) = (out', ses', i)"
      and ch1: "ch1 = ch\<lparr>ch_outgoing := out', ch_session := ses'\<rparr>"
    using ins by (auto simp: channel_insert_def split: prod.splits)
  have "(out' = ch_outgoing ch \<and> ses' = ch_session ch \<or> ses' = ses1) \<and> (\<forall>p. i = Inr (Some p) \<longrightarrow> q = Inr p)"
    using i take made by (auto simp: insert_outgoing_packet_def split: if_splits sum.splits)
  then show "\<And>p. i = Inr (Some p) \<Longrightarrow> addressed here there key p" using c by blast
  have "flight_all (addressed here there key) out'" by (rule flight_all_insert [OF f(1) i]) (use create in blast)
  then show "channel_between here there key ch1"
    using i take made c f(2) by (auto simp: ch1 channel_between_def insert_outgoing_packet_def split: if_splits sum.splits)
qed

subsection \<open>What the sending operations put on the wire\<close>

lemma encode_chain:
  assumes p: "link_ok ps p" "addressed here there key p" and ch: "ch_wrapped_client_key ch = []" "protection_matching cr (ch_protection ch) q"
  obtains prot' out where "encode_link_packet cr unix p ch = (ch\<lparr>ch_protection := prot'\<rparr>, Inr out)"
    "numbered cr ps q (prot_send_state (ch_protection ch)) out p (prot_send_state prot')" "protection_matching cr prot' q"
proof -
  obtain raw where raw: "encode p = Inr raw" using link_encodes [OF p(1)] p(2) by (auto simp: addressed_def)
  obtain prot' out where enc: "protection_encode cr unix raw (ch_protection ch) = (prot', out)" by fastforce
  have "encode_link_packet cr unix p ch = (ch\<lparr>ch_protection := prot'\<rparr>, Inr out)"
    using ch(1) raw enc link_control [OF p(1)] by (simp add: encode_link_packet_def Let_def)
  moreover have "numbered cr ps q (prot_send_state (ch_protection ch)) out p (prot_send_state prot')"
    using p(1) raw ch(2) enc unfolding numbered_def by blast
  ultimately show ?thesis using that protection_encode_matching [OF ch(2) enc] by blast
qed

lemma encodes_chain:
  assumes "\<forall>p \<in> set due. link_ok ps p \<and> addressed here there key p" "ch_wrapped_client_key ch = []"
    "protection_matching cr (ch_protection ch) q"
  shows "\<exists>prot' outs. encode_link_packets cr unix due ch = (ch\<lparr>ch_protection := prot'\<rparr>, Inr outs)
    \<and> chain cr ps q (prot_send_state (ch_protection ch)) outs due (prot_send_state prot') \<and> protection_matching cr prot' q"
  using assms
proof (induction due arbitrary: ch)
  case Nil
  then have "ch = ch\<lparr>ch_protection := ch_protection ch\<rparr>" by simp
  moreover have "chain cr ps q (prot_send_state (ch_protection ch)) [] [] (prot_send_state (ch_protection ch))" by simp
  ultimately show ?case using Nil.prems(3) unfolding encode_link_packets.simps by metis
next
  case (Cons p due)
  obtain prot1 out where one: "encode_link_packet cr unix p ch = (ch\<lparr>ch_protection := prot1\<rparr>, Inr out)"
      "numbered cr ps q (prot_send_state (ch_protection ch)) out p (prot_send_state prot1)" "protection_matching cr prot1 q"
    using encode_chain [of ps p here there key ch cr q unix] Cons.prems by auto
  obtain prot' outs where "encode_link_packets cr unix due (ch\<lparr>ch_protection := prot1\<rparr>)
      = (ch\<lparr>ch_protection := prot1\<rparr>\<lparr>ch_protection := prot'\<rparr>, Inr outs)"
      "chain cr ps q (prot_send_state (ch_protection (ch\<lparr>ch_protection := prot1\<rparr>))) outs due (prot_send_state prot')"
      "protection_matching cr prot' q"
    using Cons.IH [of "ch\<lparr>ch_protection := prot1\<rparr>"] Cons.prems one(3) by auto
  with one show ?case by auto
qed

text \<open>What a sending step adds to the wire, and the channel it leaves.\<close>

definition sends :: "crypto \<Rightarrow> tls_control_protection \<Rightarrow> bytes \<Rightarrow> bytes \<Rightarrow> u8 \<Rightarrow> bytes list \<Rightarrow> bytes list
    \<Rightarrow> control_channel \<Rightarrow> bytes list \<Rightarrow> control_channel \<Rightarrow> bool" where
  "sends cr q here there key ps ps' ch outs ch' \<longleftrightarrow> (\<exists>pks.
     chain cr ps' q (prot_send_state (ch_protection ch)) outs pks (prot_send_state (ch_protection ch'))
     \<and> list_all (addressed here there key) pks \<and> contiguous (length ps) pks = Some (length ps')
     \<and> channel_between here there key ch' \<and> prot_receive_state (ch_protection ch') = prot_receive_state (ch_protection ch))"

lemma sends_nothing:
  assumes "channel_between here there key ch'" "ch_protection ch' = ch_protection ch"
  shows "sends cr q here there key ps ps ch [] ch'"
  using assms unfolding sends_def by (intro exI [of _ "[]"]) simp

lemma encode_link_packet_receive:
  "encode_link_packet cr unix p ch = (ch', r) \<Longrightarrow> prot_receive_state (ch_protection ch') = prot_receive_state (ch_protection ch)"
  by (auto simp: encode_link_packet_def Let_def dest: encode_receive_state split: sum.splits prod.splits if_splits)

lemma encode_link_packets_receive:
  "encode_link_packets cr unix ps ch = (ch', r) \<Longrightarrow> prot_receive_state (ch_protection ch') = prot_receive_state (ch_protection ch)"
proof (induction ps arbitrary: ch ch' r)
  case (Cons p ps)
  obtain ch1 r1 where one: "encode_link_packet cr unix p ch = (ch1, r1)" by fastforce
  obtain ch2 r2 where rest: "encode_link_packets cr unix ps ch1 = (ch2, r2)" by fastforce
  from Cons.prems one rest encode_link_packet_receive [OF one] Cons.IH [OF rest] show ?case by (auto split: sum.splits)
qed simp

lemma sends_packet:
  assumes p: "link_ok ps' p" "addressed here there key p" "contiguous (length ps) [p] = Some (length ps')"
    and ch: "ch_wrapped_client_key ch = []" "protection_matching cr (ch_protection ch) q" "channel_between here there key ch"
    and enc: "encode_link_packet cr unix p ch = (ch', r)"
  shows "\<exists>out. r = Inr out \<and> sends cr q here there key ps ps' ch [out] ch'"
proof -
  obtain prot' out where e: "encode_link_packet cr unix p ch = (ch\<lparr>ch_protection := prot'\<rparr>, Inr out)"
      "numbered cr ps' q (prot_send_state (ch_protection ch)) out p (prot_send_state prot')"
    using encode_chain [OF p(1,2) ch(1,2), of unix] by blast
  have "sends cr q here there key ps ps' ch [out] ch'"
    unfolding sends_def using e enc p(2,3) ch(3) encode_link_packet_receive [OF enc]
    by (intro exI [of _ "[p]"]) (auto simp: channel_between_def)
  then show ?thesis using e enc by simp
qed

lemma sends_after:
  assumes "ch_protection ch1 = ch_protection ch" "sends cr q here there key ps ps' ch1 outs ch'"
  shows "sends cr q here there key ps ps' ch outs ch'"
  using assms by (simp add: sends_def)

lemma packetize_sends:
  assumes ok: "sender_ok ps ch" and btw: "channel_between here there key ch" "key < 8"
    and match: "protection_matching cr (ch_protection ch) q"
    and pack: "packetize_tls_ciphertext cr unix data ch = (ch', r)"
  shows "case r of
      Inr (Some (raw, n)) \<Rightarrow> sends cr q here there key ps (ps @ [take n data]) ch [raw] ch'
    | _ \<Rightarrow> sends cr q here there key ps ps ch [] ch'"
proof (cases "data = []")
  case True
  with pack btw show ?thesis by (auto simp: packetize_tls_ciphertext_def intro: sends_nothing)
next
  case False
  define n where "n = min (length data) (control_payload_size ch)"
  obtain ch1 i where ins: "channel_insert MAXIMUM_ACKNOWLEDGMENTS_PER_PACKET (create_control ControlV1 (take n data)) ch = (ch1, i)"
    by fastforce
  have ses: "session_between here there key (ch_session ch)" using btw(1) by (simp add: channel_between_def)
  note made = create_control_between [OF ses btw(2)]
  have few: "MAXIMUM_ACKNOWLEDGMENTS_PER_PACKET \<le> 255" by (simp add: MAXIMUM_ACKNOWLEDGMENTS_PER_PACKET_def)
  have keep: "session_between here there key ses' \<and> (\<forall>p. r = Inr p \<longrightarrow> addressed here there key p)"
    if "create_control ControlV1 (take n data) ids (ch_session ch) = (ses', r)" "length ids \<le> MAXIMUM_ACKNOWLEDGMENTS_PER_PACKET"
    for ids ses' r
    using made [OF that(1)] that(2) few by fastforce
  have b: "channel_between here there key ch1" "\<And>p. i = Inr (Some p) \<Longrightarrow> addressed here there key p"
    using channel_insert_between [OF btw(1) few _ ins] keep by blast+
  note c = channel_insert_control [OF ok ins]
  show ?thesis
  proof (cases "\<exists>p. i = Inr (Some p)")
    case True
    then obtain p where p: "i = Inr (Some p)" ..
    have link: "sender_ok (ps @ [take n data]) ch1" "link_ok (ps @ [take n data]) p" using c(1) p by auto
    obtain out ses where io: "insert_outgoing_packet MAXIMUM_ACKNOWLEDGMENTS_PER_PACKET (create_control ControlV1 (take n data))
        (ch_session ch) (ch_outgoing ch) = (out, ses, Inr (Some p))"
      using ins p by (auto simp: channel_insert_def split: prod.splits)
    obtain ids where ids: "create_control ControlV1 (take n data) ids (ch_session ch) = (ses, Inr p)" "length ids \<le> MAXIMUM_ACKNOWLEDGMENTS_PER_PACKET"
      using insert_outgoing_acks [OF io] .
    have "pkt_opcode p = ControlV1" "pkt_id p = ses_local_control_packet_id (ch_session ch)"
      using made(2) [OF ids(1)] ids(2) few by auto
    then have con: "contiguous (length ps) [p] = Some (length (ps @ [take n data]))" using ok by (simp add: sender_ok_def)
    obtain ch2 r2 where enc: "encode_link_packet cr unix p ch1 = (ch2, r2)" by fastforce
    have pre: "ch_wrapped_client_key ch1 = []" "protection_matching cr (ch_protection ch1) q"
      using link(1) match c(2) by (simp_all add: sender_ok_def)
    obtain raw where "r2 = Inr raw" "sends cr q here there key ps (ps @ [take n data]) ch1 [raw] ch2"
      using sends_packet [OF link(2) b(2) [OF p] con pre b(1) enc] by blast
    moreover have "ch' = ch2" "r = Inr (Some (raw, n))"
      using pack False ins p enc \<open>r2 = Inr raw\<close> by (auto simp: packetize_tls_ciphertext_def Let_def n_def)
    ultimately show ?thesis using sends_after [OF c(2)] by simp
  next
    case False
    then have "ch' = ch1" "\<nexists>x. r = Inr (Some x)"
      using pack \<open>data \<noteq> []\<close> ins by (auto simp: packetize_tls_ciphertext_def Let_def n_def split: sum.splits option.splits)
    then show ?thesis using sends_nothing [OF b(1) c(2)] by (auto split: sum.splits option.splits)
  qed
qed

lemma reset_sends:
  assumes ok: "sender_ok ps ch" and btw: "channel_between here there key ch" "key < 8"
    and match: "protection_matching cr (ch_protection ch) q" and reset: "send_initial_soft_reset cr unix ch = (ch', r)"
  shows "sends cr q here there key ps ps ch (case r of Inl e \<Rightarrow> [] | Inr raw \<Rightarrow> [raw]) ch'"
proof -
  obtain ch1 i where ins: "channel_insert MAXIMUM_ACKNOWLEDGMENTS_PER_PACKET create_soft_reset ch = (ch1, i)" by fastforce
  have ses: "session_between here there key (ch_session ch)" using btw(1) by (simp add: channel_between_def)
  note made = create_soft_reset_between [OF ses btw(2)]
  have few: "MAXIMUM_ACKNOWLEDGMENTS_PER_PACKET \<le> 255" by (simp add: MAXIMUM_ACKNOWLEDGMENTS_PER_PACKET_def)
  have keep: "session_between here there key ses' \<and> (\<forall>p. r = Inr p \<longrightarrow> addressed here there key p)"
    if "create_soft_reset ids (ch_session ch) = (ses', r)" "length ids \<le> MAXIMUM_ACKNOWLEDGMENTS_PER_PACKET" for ids ses' r
    using made [OF that(1)] that(2) few by fastforce
  have b: "channel_between here there key ch1" "\<And>p. i = Inr (Some p) \<Longrightarrow> addressed here there key p"
    using channel_insert_between [OF btw(1) few _ ins] keep by blast+
  note c = channel_insert_reset [OF ok ins]
  show ?thesis
  proof (cases "\<exists>p. i = Inr (Some p)")
    case True
    then obtain p where p: "i = Inr (Some p)" ..
    have enc: "encode_link_packet cr unix p ch1 = (ch', r)" using reset ins p by (simp add: send_initial_soft_reset_def)
    obtain out ses where io: "insert_outgoing_packet MAXIMUM_ACKNOWLEDGMENTS_PER_PACKET create_soft_reset
        (ch_session ch) (ch_outgoing ch) = (out, ses, Inr (Some p))"
      using ins p by (auto simp: channel_insert_def split: prod.splits)
    obtain ids where ids: "create_soft_reset ids (ch_session ch) = (ses, Inr p)" "length ids \<le> MAXIMUM_ACKNOWLEDGMENTS_PER_PACKET"
      using insert_outgoing_acks [OF io] .
    have con: "contiguous (length ps) [p] = Some (length ps)" using made(2) [OF ids(1)] ids(2) few by simp
    have pre: "ch_wrapped_client_key ch1 = []" "protection_matching cr (ch_protection ch1) q"
      using c(1,3) match by (simp_all add: sender_ok_def)
    show ?thesis using sends_packet [OF c(2) [OF p] b(2) [OF p] con pre b(1) enc] sends_after [OF c(3)] by auto
  next
    case False
    then have "ch' = ch1" "\<exists>e. r = Inl e" using reset ins by (auto simp: send_initial_soft_reset_def split: sum.splits option.splits)
    then show ?thesis using sends_nothing [OF b(1) c(3)] by auto
  qed
qed

lemma ack_sends:
  assumes ok: "sender_ok ps ch" and btw: "channel_between here there key ch" "key < 8"
    and match: "protection_matching cr (ch_protection ch) q" and pending: "0 < pending_acknowledgment_count (ch_outgoing ch)"
    and ack: "channel_acknowledgment_packet cr unix ch = (ch', r)"
  shows "\<exists>raw. r = Inr raw \<and> sends cr q here there key ps ps ch [raw] ch'"
proof -
  obtain out ids where take: "take_acknowledgments ACKNOWLEDGMENT_SET_CAPACITY (ch_outgoing ch) = (out, ids)" by fastforce
  have ids: "ids \<noteq> []" "length ids \<le> 255"
    using take pending by (auto simp: take_acknowledgments_def pending_acknowledgment_count_def ACKNOWLEDGMENT_SET_CAPACITY_def Let_def)
  let ?ch1 = "ch\<lparr>ch_outgoing := out\<rparr>"
  have nokey: "ch_wrapped_client_key ch = []" and sok: "session_ok (ch_session ch)" using ok by (simp_all add: sender_ok_def)
  obtain p where p: "new_acknowledgment_packet (ch_session ch) ids = Inr p" "pkt_opcode p = AcknowledgmentV1" "addressed here there key p"
    using btw ids(2) by (auto simp: new_acknowledgment_packet_def channel_between_def session_between_def addressed_def packet_new_def key_mask)
  have "link_ok ps p"
    using p(1) sok by (auto simp: new_acknowledgment_packet_def link_ok_def packet_wf_def packet_new_def session_ok_def
        opcode_wf_channel key_masked split: option.splits)
  moreover have "contiguous (length ps) [p] = Some (length ps)" using p(2) by simp
  moreover have "channel_between here there key ?ch1"
    using btw(1) flight_all_take [OF _ take] by (auto simp: channel_between_def)
  moreover have "encode_link_packet cr unix p ?ch1 = (ch', r)"
    using ack nokey take p ids(1) by (simp add: channel_acknowledgment_packet_def next_packet_carries_wrapped_client_key_def Let_def)
  ultimately obtain raw where "r = Inr raw" "sends cr q here there key ps ps ?ch1 [raw] ch'"
    using sends_packet [of ps p here there key ps ?ch1 cr q unix] p(3) nokey match by auto
  then show ?thesis using sends_after [of ?ch1 ch] by auto
qed

lemma sends_append:
  assumes "sends cr q here there key ps ps ch outs ch1" "sends cr q here there key ps ps ch1 outs' ch2"
  shows "sends cr q here there key ps ps ch (outs @ outs') ch2"
proof -
  obtain pks pks' where "chain cr ps q (prot_send_state (ch_protection ch)) outs pks (prot_send_state (ch_protection ch1))"
      "list_all (addressed here there key) pks" "contiguous (length ps) pks = Some (length ps)"
      "prot_receive_state (ch_protection ch1) = prot_receive_state (ch_protection ch)"
      "chain cr ps q (prot_send_state (ch_protection ch1)) outs' pks' (prot_send_state (ch_protection ch2))"
      "list_all (addressed here there key) pks'" "contiguous (length ps) pks' = Some (length ps)" "channel_between here there key ch2"
      "prot_receive_state (ch_protection ch2) = prot_receive_state (ch_protection ch1)"
    using assms by (auto simp: sends_def)
  then show ?thesis unfolding sends_def by (intro exI [of _ "pks @ pks'"]) (simp add: chain_append contiguous_append)
qed

lemma poll_sends:
  assumes ok: "sender_ok ps ch" and btw: "channel_between here there key ch" "key < 8"
    and match: "protection_matching cr (ch_protection ch) q" and poll: "channel_packets_ready cr unix now ch = (ch', r)"
  shows "\<exists>raws. r = Inr raws \<and> sends cr q here there key ps ps ch raws ch'"
proof -
  obtain out due where due: "packets_ready_to_send now (ch_outgoing ch) = (out, due)" by fastforce
  let ?ch1 = "ch\<lparr>ch_outgoing := out\<rparr>"
  have f: "flight_all (link_ok ps) (ch_outgoing ch)" "flight_all (addressed here there key) (ch_outgoing ch)"
      and nokey: "ch_wrapped_client_key ch = []"
    using ok btw(1) by (simp_all add: sender_ok_def channel_between_def)
  note l = flight_all_poll [OF f(1) due] and a = flight_all_poll [OF f(2) due]
  have "\<forall>p \<in> set due. link_ok ps p \<and> addressed here there key p" using l(2) a(2) by blast
  then obtain prot outs where enc: "encode_link_packets cr unix due ?ch1 = (?ch1\<lparr>ch_protection := prot\<rparr>, Inr outs)"
      "chain cr ps q (prot_send_state (ch_protection ?ch1)) outs due (prot_send_state prot)" "protection_matching cr prot q"
    using encodes_chain [of due ps here there key ?ch1 cr q unix] nokey match by auto
  let ?ch2 = "?ch1\<lparr>ch_protection := prot\<rparr>"
  have btw2: "channel_between here there key ?ch2" using btw(1) a(1) by (simp add: channel_between_def)
  have sent: "sends cr q here there key ps ps ch outs ?ch2"
    unfolding sends_def using enc(2) a(2) contiguous_old [OF l(2)] btw2 encode_link_packets_receive [OF enc(1)]
    by (intro exI [of _ due]) (simp add: list_all_iff)
  show ?thesis
  proof (cases "0 < pending_acknowledgment_count out")
    case True
    obtain ch3 r3 where ack: "channel_acknowledgment_packet cr unix ?ch2 = (ch3, r3)" by fastforce
    have ok2: "sender_ok ps ?ch2" using ok l(1) by (simp add: sender_ok_def)
    obtain raw where "r3 = Inr raw" "sends cr q here there key ps ps ?ch2 [raw] ch3"
      using ack_sends [OF ok2 btw2 btw(2) _ _ ack] enc(3) True by auto
    then show ?thesis using poll due enc(1) True ack sends_append [OF sent] by (auto simp: channel_packets_ready_def)
  next
    case False
    then show ?thesis using poll due enc(1) sent by (auto simp: channel_packets_ready_def)
  qed
qed

subsection \<open>Receiving in order\<close>

lemma insert_next:
  assumes wf: "inc_wf inc" and empty: "inc_pending inc = []" and id: "unat (pkt_id p) = Suc (unat (inc_last_consumed_id inc))"
  shows "\<exists>inc1. try_insert_incoming_packet p inc = (inc1, True)
    \<and> next_ordered_sequence inc1 = (\<lparr>inc_pending = [], inc_last_consumed_id = pkt_id p\<rparr>, [p])"
proof -
  have less: "inc_last_consumed_id inc < pkt_id p" using id by (simp add: word_less_nat_alt)
  have succ: "inc_last_consumed_id inc + 1 = pkt_id p"
  proof -
    have "inc_last_consumed_id inc \<noteq> - 1" using less word_n1_ge [of "pkt_id p"] by auto
    then show ?thesis using unat_succ [of "inc_last_consumed_id inc"] id by (simp add: word_unat_eq_iff)
  qed
  have "try_insert_incoming_packet p inc = (inc\<lparr>inc_pending := [(pkt_id p, p)]\<rparr>, True)"
    using less id by (simp add: try_insert_cases [OF wf] empty)
  moreover have "next_ordered_sequence (inc\<lparr>inc_pending := [(pkt_id p, p)]\<rparr>) = (\<lparr>inc_pending = [], inc_last_consumed_id = pkt_id p\<rparr>, [p])"
    by (simp add: next_ordered_sequence_def drain_ordered.simps [of _ "inc_last_consumed_id inc"] drain_ordered.simps [of "[]"]
        succ btree_remove_def)
  ultimately show ?thesis by blast
qed

lemma ingest_packet_in_order:
  assumes p: "link_ok ps p" "addressed there here key p"
    and ch: "channel_between here there key ch" "here \<noteq> zero_session" "inc_wf (ch_incoming ch)" "inc_pending (ch_incoming ch) = []"
    and con: "contiguous (unat (inc_last_consumed_id (ch_incoming ch))) [p] = Some l"
    and ing: "ingest_packet (on_wire p) ch = (ch', events)"
  shows "inc_pending (ch_incoming ch') = [] \<and> unat (inc_last_consumed_id (ch_incoming ch')) = l
    \<and> channel_between here there key ch' \<and> ch_protection ch' = ch_protection ch"
proof -
  let ?q = "on_wire p" and ?inc = "ch_incoming ch"
  let ?seen = "ch\<lparr>ch_outgoing := on_incoming_packet ?q (ch_outgoing ch)\<rparr>"
  have q: "pkt_opcode ?q = pkt_opcode p" "pkt_id ?q = pkt_id p" "pkt_key_id ?q = key" by (use p(2) in \<open>auto simp: on_wire_def addressed_def\<close>)
  have valid: "validate_incoming_remote_session_id (ch_session ch) ?q" "validate_incoming_local_session_id (ch_session ch) ?q"
      "ses_key_id (ch_session ch) = key"
    using p(2) ch(1,2) by (auto simp: validate_incoming_remote_session_id_def validate_incoming_local_session_id_def on_wire_def
        addressed_def channel_between_def session_between_def)
  have seen: "channel_between here there key ?seen" using ch(1) by (simp add: channel_between_def flight_all_incoming)
  consider (soft) "pkt_opcode p = ControlSoftResetV1" | (ack) "pkt_opcode p = AcknowledgmentV1" | (control) "pkt_opcode p = ControlV1"
    using p(1) by (auto simp: link_ok_def)
  then show ?thesis
  proof cases
    case soft
    then have "ch' = ch" "l = unat (inc_last_consumed_id ?inc)"
      using ing valid con q by (auto simp: ingest_packet_def is_tls_hard_reset_opcode_def is_data_def Let_def)
    then show ?thesis using ch by simp
  next
    case ack
    then have "ch' = ?seen" "l = unat (inc_last_consumed_id ?inc)"
      using ing valid con q by (auto simp: ingest_packet_def is_tls_hard_reset_opcode_def Let_def)
    then show ?thesis using ch seen by simp
  next
    case control
    then have id: "unat (pkt_id p) \<le> Suc (unat (inc_last_consumed_id ?inc))" "l = max (unat (inc_last_consumed_id ?inc)) (unat (pkt_id p))"
      using con by (auto split: if_splits)
    show ?thesis
    proof (cases "unat (pkt_id p) = Suc (unat (inc_last_consumed_id ?inc))")
      case True
      obtain inc1 where "try_insert_incoming_packet ?q ?inc = (inc1, True)"
          "next_ordered_sequence inc1 = (\<lparr>inc_pending = [], inc_last_consumed_id = pkt_id ?q\<rparr>, [?q])"
        using insert_next [OF ch(3,4), of ?q] True q by auto
      then have "ch' = ?seen\<lparr>ch_incoming := \<lparr>inc_pending = [], inc_last_consumed_id = pkt_id p\<rparr>\<rparr>"
        using ing valid control q by (auto simp: ingest_packet_def is_tls_hard_reset_opcode_def Let_def)
      then show ?thesis using seen id True by (simp add: channel_between_def)
    next
      case False
      then have "\<not> inc_last_consumed_id ?inc < pkt_id p" using id(1) by (simp add: word_less_nat_alt)
      then have "try_insert_incoming_packet ?q ?inc = (?inc, False)" by (simp add: try_insert_cases [OF ch(3)] q)
      then have "ch' = ?seen" using ing valid control q by (auto simp: ingest_packet_def is_tls_hard_reset_opcode_def Let_def)
      then show ?thesis using seen id False ch(4) by (simp add: max_def)
    qed
  qed
qed

lemma ingest_in_order:
  assumes num: "numbered cr ps (ch_protection ch) st out p st'" and p: "addressed there here key p"
    and ch: "channel_between here there key ch" "here \<noteq> zero_session" "inc_wf (ch_incoming ch)" "inc_pending (ch_incoming ch) = []"
    and con: "contiguous (unat (inc_last_consumed_id (ch_incoming ch))) [p] = Some l"
    and seen: "in_step_with (ch_protection ch) st" "pid_next_id st \<noteq> - 1"
    and ing: "ingest_link_packet cr now out ch = (ch', r)"
  shows "inc_pending (ch_incoming ch') = [] \<and> unat (inc_last_consumed_id (ch_incoming ch')) = l \<and> channel_between here there key ch'
    \<and> in_step_with (ch_protection ch') st' \<and> prot_send_state (ch_protection ch') = prot_send_state (ch_protection ch)"
proof -
  obtain raw unix snd snd' where w: "link_ok ps p" "encode p = Inr raw" "protection_matching cr snd (ch_protection ch)"
      "protection_encode cr unix raw snd = (snd', out)" "prot_send_state snd = st" "prot_send_state snd' = st'"
    using num by (auto simp: numbered_def)
  have len: "9 \<le> length raw" and op: "from_wire (drop_bit 3 (hd raw)) = pkt_opcode p" using link_parse [OF w(1,2)] by blast+
  have hd: "hd out = hd raw" by (rule protection_encode_header [OF len w(4)])
  have ctl: "pkt_opcode p \<notin> {ControlHardResetClientV3, ControlWkcV1}" using w(1) by (auto simp: link_ok_def)
  obtain prot d where dec: "protection_decode cr now out (ch_protection ch) = (prot, d)" by fastforce
  have d: "d = Inr raw" "in_step_with prot st'"
    using protection_in_order [OF w(3) len _ w(4) _ _ dec] ctl op w(5,6) seen by simp_all
  have "out \<noteq> []" using dec d by (auto simp: protection_decode_def wrap_consts)
  then have ing1: "\<exists>events. ingest_packet (on_wire p) (ch\<lparr>ch_protection := prot\<rparr>) = (ch', events)"
    using ing dec d link_parse_exact [OF w(1,2)] link_control [OF w(1)] hd op
    by (auto simp: ingest_link_packet_def Let_def split: prod.splits)
  moreover have "channel_between here there key (ch\<lparr>ch_protection := prot\<rparr>)" using ch(1) by (simp add: channel_between_def)
  moreover have "prot_send_state prot = prot_send_state (ch_protection ch)"
    using w(3) by (intro decode_send_state [OF _ dec]) (simp add: protection_matching_def)
  ultimately show ?thesis
    using ingest_packet_in_order [OF w(1) p, of "ch\<lparr>ch_protection := prot\<rparr>" l ch'] ch con d(2) by auto
qed

subsection \<open>A link that keeps the order\<close>

lemma chain_bound: "chain cr ps q st outs pks st' \<Longrightarrow> unat (pid_next_id st') \<le> unat (pid_next_id st) + length outs"
proof (induction cr ps q st outs pks st' rule: chain.induct)
  case (2 cr ps q st out outs p pks st')
  then obtain mid where mid: "numbered cr ps q st out p mid" "chain cr ps q mid outs pks st'" by auto
  obtain raw unix snd snd' where w: "link_ok ps p" "encode p = Inr raw" "protection_encode cr unix raw snd = (snd', out)"
      "prot_send_state snd = st" "prot_send_state snd' = mid"
    using mid(1) by (auto simp: numbered_def)
  have "9 \<le> length raw" using link_parse [OF w(1,2)] by blast
  from encode_send_state [OF this w(3)] have "mid = st \<or> mid = fst (next_packet_id unix st)" using w(4,5) by presburger
  moreover have "unat (pid_next_id (fst (next_packet_id unix st))) \<le> Suc (unat (pid_next_id st))"
    using unat_succ [of "pid_next_id st"] by (simp add: next_packet_id_def Let_def)
  ultimately have "unat (pid_next_id mid) \<le> Suc (unat (pid_next_id st))" by auto
  then show ?case using 2 mid by force
qed auto

text \<open>
  One direction when the first \<open>n\<close> datagrams have been received in order: the receiver holds nothing
  back and has handed on exactly the records in those datagrams.
\<close>

definition delivery_inv :: "crypto \<Rightarrow> bytes \<Rightarrow> bytes \<Rightarrow> u8 \<Rightarrow> nat \<Rightarrow> bytes list \<Rightarrow> packet list \<Rightarrow> packet_id_state \<Rightarrow> endpoint \<Rightarrow> endpoint \<Rightarrow> bool" where
  "delivery_inv cr here there key n ps pks mid x y \<longleftrightarrow>
     direction_inv cr ps x y \<and> channel_between here there key (ep_channel x) \<and> n \<le> length (ep_wire x)
   \<and> chain cr ps (ch_protection (ep_channel y)) packet_id_default (take n (ep_wire x)) (take n pks) mid
   \<and> chain cr ps (ch_protection (ep_channel y)) mid (drop n (ep_wire x)) (drop n pks) (prot_send_state (ch_protection (ep_channel x)))
   \<and> list_all (addressed here there key) pks \<and> contiguous 0 pks = Some (length ps)
   \<and> contiguous 0 (take n pks) = Some (unat (inc_last_consumed_id (ch_incoming (ep_channel y))))
   \<and> inc_pending (ch_incoming (ep_channel y)) = [] \<and> in_step_with (ch_protection (ep_channel y)) mid"

lemma send_step_sends:
  assumes dir: "direction_inv cr ps x y" and btw: "channel_between here there key (ep_channel x)" "key < 8"
    and ev: "\<And>now i. ev \<noteq> Receive now i"
  shows "\<exists>outs. ep_wire (endpoint_step cr peer ev x) = ep_wire x @ outs
    \<and> sends cr (ch_protection (ep_channel y)) here there key ps (records_after cr ev x ps) (ep_channel x) outs
        (ep_channel (endpoint_step cr peer ev x))"
proof -
  have ok: "sender_ok ps (ep_channel x)" "protection_matching cr (ch_protection (ep_channel x)) (ch_protection (ep_channel y))"
    using dir by (simp_all add: direction_inv_def)
  show ?thesis
  proof (cases ev)
    case (SendTls unix data)
    obtain ch r where step: "packetize_tls_ciphertext cr unix data (ep_channel x) = (ch, r)" by fastforce
    show ?thesis using packetize_sends [OF ok(1) btw ok(2) step] step SendTls by (auto split: sum.splits option.splits)
  next
    case (SendReset unix)
    obtain ch r where step: "send_initial_soft_reset cr unix (ep_channel x) = (ch, r)" by fastforce
    show ?thesis using reset_sends [OF ok(1) btw ok(2) step] step SendReset by (auto split: sum.splits)
  next
    case (Poll unix now)
    obtain ch r where step: "channel_packets_ready cr unix now (ep_channel x) = (ch, r)" by fastforce
    show ?thesis using poll_sends [OF ok(1) btw ok(2) step] step Poll by auto
  qed (use ev in blast)
qed

lemma records_after_extends: "\<exists>rest. records_after cr ev x ps = ps @ rest"
  by (cases ev) (auto split: prod.split sum.split option.split)

lemma delivery_sender:
  assumes inv: "delivery_inv cr here there key n ps pks mid x y" "direction_inv cr qs y x" "key < 8"
    and ev: "\<And>now i. ev \<noteq> Receive now i"
  shows "\<exists>pks'. delivery_inv cr here there key n (records_after cr ev x ps) pks' mid (endpoint_step cr (ep_wire y) ev x) y"
proof -
  let ?x = "endpoint_step cr (ep_wire y) ev x" and ?q = "ch_protection (ep_channel y)"
  have i: "direction_inv cr ps x y" "channel_between here there key (ep_channel x)" "n \<le> length (ep_wire x)"
      "chain cr ps ?q packet_id_default (take n (ep_wire x)) (take n pks) mid"
      "chain cr ps ?q mid (drop n (ep_wire x)) (drop n pks) (prot_send_state (ch_protection (ep_channel x)))"
      "list_all (addressed here there key) pks" "contiguous 0 pks = Some (length ps)"
    using inv(1) by (simp_all add: delivery_inv_def)
  obtain outs new where s: "ep_wire ?x = ep_wire x @ outs"
      "chain cr (records_after cr ev x ps) ?q (prot_send_state (ch_protection (ep_channel x))) outs new (prot_send_state (ch_protection (ep_channel ?x)))"
      "list_all (addressed here there key) new" "contiguous (length ps) new = Some (length (records_after cr ev x ps))"
      "channel_between here there key (ep_channel ?x)"
    using send_step_sends [OF i(1,2) inv(3) ev, of "ep_wire y"] by (auto simp: sends_def)
  have len: "length pks = length (ep_wire x)" using chain_length [OF i(4)] chain_length [OF i(5)] i(3) by auto
  obtain rest where rest: "records_after cr ev x ps = ps @ rest"
    using records_after_extends by blast
  have "delivery_inv cr here there key n (records_after cr ev x ps) (pks @ new) mid ?x y"
    unfolding delivery_inv_def
    using inv(1) s i(3) len direction_steps(1) [OF i(1) inv(2), of ev] chain_mono [OF i(4) refl, of rest] rest
      chain_append [OF chain_mono [OF i(5) refl, of rest]] i(6,7)
    by (auto simp: delivery_inv_def contiguous_append)
  then show ?thesis ..
qed

text \<open>A step of the receiver that only sends.\<close>

lemma delivery_receiver_sends:
  assumes inv: "delivery_inv cr here there key n ps pks mid x y" "direction_inv cr qs y x" "channel_between there here key (ep_channel y)" "key < 8"
    and ev: "\<And>now i. ev \<noteq> Receive now i"
  shows "delivery_inv cr here there key n ps pks mid x (endpoint_step cr (ep_wire x) ev y)"
proof -
  let ?y = "endpoint_step cr (ep_wire x) ev y"
  have i: "direction_inv cr ps x y"
      "chain cr ps (ch_protection (ep_channel y)) packet_id_default (take n (ep_wire x)) (take n pks) mid"
      "chain cr ps (ch_protection (ep_channel y)) mid (drop n (ep_wire x)) (drop n pks) (prot_send_state (ch_protection (ep_channel x)))"
    using inv(1) by (simp_all add: delivery_inv_def)
  have keys: "protection_keys (ch_protection (ep_channel ?y)) = protection_keys (ch_protection (ep_channel y))"
    by (rule send_step_keys(1) [OF ev])
  have recv: "prot_receive_state (ch_protection (ep_channel ?y)) = prot_receive_state (ch_protection (ep_channel y))"
    using send_step_sends [OF inv(2,3,4) ev, of "ep_wire x"] by (auto simp: sends_def)
  have "ch_incoming (ep_channel ?y) = ch_incoming (ep_channel y)"
    using inv(2) send_step_incoming [OF ev] unfolding direction_inv_def by blast
  then show ?thesis
    unfolding delivery_inv_def using inv(1) recv direction_steps(2) [OF inv(2) i(1), of ev]
      chain_mono [OF i(2) keys, of "[]"] chain_mono [OF i(3) keys, of "[]"]
    by (simp add: delivery_inv_def in_step_with_def)
qed

lemma receive_step_keys:
  assumes "direction_inv cr ps x y" "direction_inv cr qs y x"
  shows "protection_keys (ch_protection (ep_channel (endpoint_step cr (ep_wire x) (Receive now i) y)))
    = protection_keys (ch_protection (ep_channel y))"
proof (cases "i < length (ep_wire x)")
  case True
  obtain ch r where ing: "ingest_link_packet cr now (ep_wire x ! i) (ep_channel y) = (ch, r)" by fastforce
  have pre: "wire_ok cr ps (ch_protection (ep_channel y)) (ep_wire x ! i)" "sender_ok qs (ep_channel y)"
      "receiver_ok ps (ep_got y) (ch_incoming (ep_channel y))" "prot_crypt_v2_server_key (ch_protection (ep_channel y)) = []"
    using assms True by (simp_all add: direction_inv_def protection_matching_def list_all_length)
  have "protection_keys (ch_protection ch) = protection_keys (ch_protection (ep_channel y))"
    using ingest_wire(3) [OF pre(1-3) ing] decode_keys [OF pre(4) prod.collapse [symmetric]] by auto
  then show ?thesis using True ing by (simp split: sum.split)
qed simp

text \<open>The next datagram arrives.\<close>

lemma delivery_receive:
  assumes inv: "delivery_inv cr here there key n ps pks mid x y" "direction_inv cr qs y x" "channel_between there here key (ep_channel y)"
    and id: "there \<noteq> zero_session" "n < length (ep_wire x)" "length (ep_wire x) < 2 ^ 32"
  shows "\<exists>mid'. delivery_inv cr here there key (Suc n) ps pks mid' x (endpoint_step cr (ep_wire x) (Receive now n) y)"
    "channel_between there here key (ep_channel (endpoint_step cr (ep_wire x) (Receive now n) y))"
    "prot_send_state (ch_protection (ep_channel (endpoint_step cr (ep_wire x) (Receive now n) y))) = prot_send_state (ch_protection (ep_channel y))"
proof -
  let ?y = "endpoint_step cr (ep_wire x) (Receive now n) y" and ?q = "ch_protection (ep_channel y)"
  have i: "direction_inv cr ps x y" "chain cr ps ?q packet_id_default (take n (ep_wire x)) (take n pks) mid"
      "chain cr ps ?q mid (drop n (ep_wire x)) (drop n pks) (prot_send_state (ch_protection (ep_channel x)))"
      "list_all (addressed here there key) pks" "contiguous 0 pks = Some (length ps)"
      "contiguous 0 (take n pks) = Some (unat (inc_last_consumed_id (ch_incoming (ep_channel y))))"
      "inc_pending (ch_incoming (ep_channel y)) = []" "in_step_with ?q mid" "n \<le> length (ep_wire x)" "channel_between here there key (ep_channel x)"
    using inv(1) by (simp_all add: delivery_inv_def)
  have len: "length pks = length (ep_wire x)" using chain_length [OF i(2)] chain_length [OF i(3)] i(9) by auto
  have cut: "drop n (ep_wire x) = ep_wire x ! n # drop (Suc n) (ep_wire x)" "drop n pks = pks ! n # drop (Suc n) pks"
    using id(2) len by (simp_all add: Cons_nth_drop_Suc)
  obtain mid' where num: "numbered cr ps ?q mid (ep_wire x ! n) (pks ! n) mid'"
      "chain cr ps ?q mid' (drop (Suc n) (ep_wire x)) (drop (Suc n) pks) (prot_send_state (ch_protection (ep_channel x)))"
    using i(3) unfolding cut by auto
  obtain l where l: "contiguous (unat (inc_last_consumed_id (ch_incoming (ep_channel y)))) [pks ! n] = Some l"
  proof -
    have "contiguous 0 (take n pks @ pks ! n # drop (Suc n) pks) = Some (length ps)" using i(5) cut(2) by (metis append_take_drop_id)
    then have "contiguous (unat (inc_last_consumed_id (ch_incoming (ep_channel y)))) (pks ! n # drop (Suc n) pks) = Some (length ps)"
      using i(6) by (simp add: contiguous_append)
    then show ?thesis using that by (auto split: if_splits)
  qed
  have adr: "addressed here there key (pks ! n)" using i(4) id(2) len by (simp add: list_all_length)
  have wf: "inc_wf (ch_incoming (ep_channel y))" using i(1) by (simp add: direction_inv_def receiver_ok_def)
  have pid: "pid_next_id mid \<noteq> - 1"
  proof
    assume "pid_next_id mid = - 1"
    then have "unat (pid_next_id mid) = 2 ^ 32 - 1" by (simp add: unsigned_minus_1_eq_mask mask_eq_exp_minus_1)
    then show False using chain_bound [OF i(2)] id(2,3) by (simp add: packet_id_default_def)
  qed
  obtain ch r where ing: "ingest_link_packet cr now (ep_wire x ! n) (ep_channel y) = (ch, r)" by fastforce
  note o = ingest_in_order [OF num(1) adr inv(3) id(1) wf i(7) l i(8) pid ing]
  have y: "ep_channel ?y = ch" using id(2) ing by (simp split: sum.split)
  show "channel_between there here key (ep_channel ?y)"
    "prot_send_state (ch_protection (ep_channel ?y)) = prot_send_state (ch_protection (ep_channel y))"
    using o y by simp_all
  have "chain cr ps ?q packet_id_default (take n (ep_wire x) @ [ep_wire x ! n]) (take n pks @ [pks ! n]) mid'"
    using chain_append [OF i(2), of "[ep_wire x ! n]" "[pks ! n]" mid'] num(1) by simp
  then have head: "chain cr ps ?q packet_id_default (take (Suc n) (ep_wire x)) (take (Suc n) pks) mid'"
    using id(2) len by (simp add: take_Suc_conv_app_nth)
  have "contiguous 0 (take (Suc n) pks) = Some l"
    using i(6) l id(2) len by (simp add: take_Suc_conv_app_nth contiguous_append)
  moreover have keys: "protection_keys (ch_protection (ep_channel ?y)) = protection_keys ?q"
    by (rule receive_step_keys [OF i(1) inv(2)])
  ultimately have "delivery_inv cr here there key (Suc n) ps pks mid' x ?y"
    unfolding delivery_inv_def using inv(1) o y id(2) direction_steps(2) [OF inv(2) i(1), of "Receive now n"] i(4,5,10)
      chain_mono [OF head keys, of "[]"] chain_mono [OF num(2) keys, of "[]"]
    by simp
  then show "\<exists>mid'. delivery_inv cr here there key (Suc n) ps pks mid' x ?y" ..
qed

lemma delivery_sender_receives:
  assumes "delivery_inv cr here there key n ps pks mid x y" "direction_inv cr ps x' y" "ep_wire x' = ep_wire x"
    and "channel_between here there key (ep_channel x')"
    and "prot_send_state (ch_protection (ep_channel x')) = prot_send_state (ch_protection (ep_channel x))"
  shows "delivery_inv cr here there key n ps pks mid x' y"
  using assms by (simp add: delivery_inv_def)

definition fifo_inv :: "crypto \<Rightarrow> bytes \<Rightarrow> bytes \<Rightarrow> u8 \<Rightarrow> nat \<Rightarrow> nat \<Rightarrow> endpoint \<Rightarrow> endpoint \<Rightarrow> bool" where
  "fifo_inv cr a b key m n x y \<longleftrightarrow> (\<exists>ps pks mid. delivery_inv cr a b key n ps pks mid x y)
     \<and> (\<exists>qs qks mid. delivery_inv cr b a key m qs qks mid y x)"

lemma fifo_inv_swap: "fifo_inv cr a b key m n x y \<Longrightarrow> fifo_inv cr b a key n m y x"
  by (auto simp: fifo_inv_def)

lemma delivery_direction: "delivery_inv cr here there key n ps pks mid x y \<Longrightarrow> direction_inv cr ps x y \<and> channel_between here there key (ep_channel x)"
  by (simp add: delivery_inv_def)

lemma fifo_inv_send:
  assumes inv: "fifo_inv cr a b key m n x y" and key: "key < 8" and ev: "\<And>now i. ev \<noteq> Receive now i"
  shows "fifo_inv cr a b key m n (endpoint_step cr (ep_wire y) ev x) y"
proof -
  obtain ps pks mid qs qks mid' where d: "delivery_inv cr a b key n ps pks mid x y" "delivery_inv cr b a key m qs qks mid' y x"
    using inv by (auto simp: fifo_inv_def)
  note x = delivery_direction [OF d(1)] and y = delivery_direction [OF d(2)]
  show ?thesis
    using delivery_sender [OF d(1) conjunct1 [OF y] key ev]
      delivery_receiver_sends [OF d(2) conjunct1 [OF x] conjunct2 [OF x] key ev]
    unfolding fifo_inv_def by blast
qed

lemma fifo_inv_receive:
  assumes inv: "fifo_inv cr a b key m n x y" and ids: "a \<noteq> zero_session" "m < length (ep_wire y)" "length (ep_wire y) < 2 ^ 32"
  shows "fifo_inv cr a b key (Suc m) n (endpoint_step cr (ep_wire y) (Receive now m) x) y"
proof -
  obtain ps pks mid qs qks mid' where d: "delivery_inv cr a b key n ps pks mid x y" "delivery_inv cr b a key m qs qks mid' y x"
    using inv by (auto simp: fifo_inv_def)
  note x = delivery_direction [OF d(1)] and y = delivery_direction [OF d(2)]
  let ?x = "endpoint_step cr (ep_wire y) (Receive now m) x"
  note r = delivery_receive [OF d(2) conjunct1 [OF x] conjunct2 [OF x] ids, of now]
  have "direction_inv cr ps ?x y" using direction_steps(1) [OF conjunct1 [OF x] conjunct1 [OF y], of "Receive now m"] by simp
  moreover have "ep_wire ?x = ep_wire x" by (simp split: prod.split sum.split)
  ultimately have "delivery_inv cr a b key n ps pks mid ?x y" using r(2,3) by (intro delivery_sender_receives [OF d(1)]) auto
  then show ?thesis using r(1) unfolding fifo_inv_def by blast
qed

text \<open>
  The run is one of a link in order and without loss: each side receives the datagrams of the other
  one after the other, each once, and all of them by the end. \<open>m\<close> and \<open>n\<close> count what has been received.
\<close>

fun in_order :: "crypto \<Rightarrow> (bool \<times> link_event) list \<Rightarrow> nat \<Rightarrow> nat \<Rightarrow> endpoint \<times> endpoint \<Rightarrow> bool" where
  "in_order cr [] m n (x, y) \<longleftrightarrow> m = length (ep_wire y) \<and> n = length (ep_wire x)"
| "in_order cr ((True, ev) # events) m n (x, y) \<longleftrightarrow>
     (case ev of
        Receive now i \<Rightarrow> i = m \<and> m < length (ep_wire y) \<and> in_order cr events (Suc m) n (link_step cr (True, ev) (x, y))
      | _ \<Rightarrow> in_order cr events m n (link_step cr (True, ev) (x, y)))"
| "in_order cr ((False, ev) # events) m n (x, y) \<longleftrightarrow>
     (case ev of
        Receive now i \<Rightarrow> i = n \<and> n < length (ep_wire x) \<and> in_order cr events m (Suc n) (link_step cr (False, ev) (x, y))
      | _ \<Rightarrow> in_order cr events m n (link_step cr (False, ev) (x, y)))"

lemma endpoint_wire_grows: "length (ep_wire x) \<le> length (ep_wire (endpoint_step cr peer ev x))"
  by (cases ev) (auto split: prod.split sum.split option.split)

lemma link_wire_grows:
  "length (ep_wire (fst s)) \<le> length (ep_wire (fst (link_run cr events s)))
   \<and> length (ep_wire (snd s)) \<le> length (ep_wire (snd (link_run cr events s)))"
proof (induction events arbitrary: s)
  case (Cons e events)
  obtain b ev x y where e: "e = (b, ev)" "s = (x, y)" by (metis surj_pair)
  have "length (ep_wire x) \<le> length (ep_wire (fst (link_step cr e s))) \<and> length (ep_wire y) \<le> length (ep_wire (snd (link_step cr e s)))"
    using endpoint_wire_grows by (cases b) (simp_all add: e)
  with Cons.IH [of "link_step cr e s"] show ?case by (auto simp: link_run_def e intro: order_trans)
qed (simp add: link_run_def)

lemma in_order_inv:
  assumes "in_order cr events m n (x, y)" "fifo_inv cr a b key m n x y" "key < 8" "a \<noteq> zero_session" "b \<noteq> zero_session"
    and "link_run cr events (x, y) = (x', y')" "length (ep_wire x') < 2 ^ 32" "length (ep_wire y') < 2 ^ 32"
  shows "fifo_inv cr a b key (length (ep_wire y')) (length (ep_wire x')) x' y'"
  using assms
proof (induction events arbitrary: m n x y)
  case Nil
  then show ?case by (simp add: link_run_def)
next
  case (Cons e events)
  obtain side ev where e: "e = (side, ev)" by fastforce
  obtain x1 y1 where step: "link_step cr e (x, y) = (x1, y1)" by fastforce
  have run: "link_run cr events (x1, y1) = (x', y')" using Cons.prems(6) step by (simp add: link_run_def)
  have grows: "length (ep_wire x) < 2 ^ 32" "length (ep_wire y) < 2 ^ 32"
    using link_wire_grows [of "(x, y)" cr "e # events"] Cons.prems(6-8) by auto
  note IH = Cons.IH [OF _ _ Cons.prems(3-5) run Cons.prems(7,8)]
  show ?case
  proof (cases side)
    case True
    have s: "x1 = endpoint_step cr (ep_wire y) ev x" "y1 = y" using step e True by auto
    show ?thesis
    proof (cases "\<exists>now i. ev = Receive now i")
      case True
      then obtain now where "ev = Receive now m" "m < length (ep_wire y)" "in_order cr events (Suc m) n (x1, y1)"
        using Cons.prems(1) step e \<open>side\<close> by auto
      then show ?thesis using IH fifo_inv_receive [OF Cons.prems(2,4) _ grows(2)] s by simp
    next
      case False
      then have "in_order cr events m n (x1, y1)" using Cons.prems(1) step e \<open>side\<close> by (cases ev) auto
      then show ?thesis using IH fifo_inv_send [OF Cons.prems(2,3)] False s by blast
    qed
  next
    case side: False
    have s: "y1 = endpoint_step cr (ep_wire x) ev y" "x1 = x" using step e side by auto
    show ?thesis
    proof (cases "\<exists>now i. ev = Receive now i")
      case True
      then obtain now where "ev = Receive now n" "n < length (ep_wire x)" "in_order cr events m (Suc n) (x1, y1)"
        using Cons.prems(1) step e side by auto
      then show ?thesis using IH fifo_inv_swap [OF fifo_inv_receive [OF fifo_inv_swap [OF Cons.prems(2)] Cons.prems(5) _ grows(1)]] s by simp
    next
      case False
      then have "in_order cr events m n (x1, y1)" using Cons.prems(1) step e side by (cases ev) auto
      then show ?thesis using IH fifo_inv_swap [OF fifo_inv_send [OF fifo_inv_swap [OF Cons.prems(2)] Cons.prems(3)]] False s by blast
    qed
  qed
qed

lemma delivery_start:
  assumes fresh: "fresh_channel p a" "fresh_channel q b" and match: "protection_matching cr p q"
    and ses: "session_between here there key (ch_session a)"
    and start: "prot_send_state p = packet_id_default" "in_step_with q packet_id_default"
  shows "delivery_inv cr here there key 0 [] [] packet_id_default (endpoint_new a) (endpoint_new b)"
proof -
  have "ch_protection a = p" "ch_protection b = q" "ch_outgoing a = outgoing_new" "ch_incoming b = incoming_new"
    using fresh by (auto simp: fresh_channel_def control_channel_new_def)
  then show ?thesis using fresh_direction [OF fresh match] ses start
    by (simp add: delivery_inv_def endpoint_new_def channel_between_def flight_all_new incoming_new_def)
qed

lemma crypt_new_start:
  "control_crypt_new cr key d = Inr c \<Longrightarrow> cy_send_state c = packet_id_default \<and> cy_receive_state c = replay_new control_window"
  by (auto simp: control_crypt_new_def crypt_from_material_def Let_def split: option.splits prod.splits)

lemma auth_new_start:
  "control_auth_new cr key d name = Inr c \<Longrightarrow> au_send_state c = packet_id_default \<and> au_receive_state c = replay_new control_window"
  by (auto simp: control_auth_new_def Let_def split: option.splits prod.splits if_splits)

lemma peer_protections_start:
  assumes "peer_protections cr key name da db pa pb"
  shows "prot_send_state pa = packet_id_default" "in_step_with pa st" "prot_send_state pb = packet_id_default" "in_step_with pb st"
  using assms crypt_new_start auth_new_start
  by (auto simp: peer_protections_def protection_default_def prot_send_state_def in_step_with_def prot_receive_state_def
      split: sum.splits)

lemma delivered_all:
  assumes "delivery_inv cr here there key (length (ep_wire x)) ps pks mid x y"
  shows "ep_got y = ep_sent x"
proof -
  have i: "direction_inv cr ps x y" "chain cr ps (ch_protection (ep_channel y)) packet_id_default (ep_wire x) (take (length (ep_wire x)) pks) mid"
      "chain cr ps (ch_protection (ep_channel y)) mid [] (drop (length (ep_wire x)) pks) (prot_send_state (ch_protection (ep_channel x)))"
      "contiguous 0 pks = Some (length ps)"
      "contiguous 0 (take (length (ep_wire x)) pks) = Some (unat (inc_last_consumed_id (ch_incoming (ep_channel y))))"
    using assms by (simp_all add: delivery_inv_def)
  have "drop (length (ep_wire x)) pks = []" using chain_length [OF i(3)] by simp
  then have "take (length (ep_wire x)) pks = pks" by simp
  then have "unat (inc_last_consumed_id (ch_incoming (ep_channel y))) = length ps" using i(4,5) by simp
  then show ?thesis using i(1) by (simp add: direction_inv_def receiver_ok_def)
qed

text \<open>
  Property C2. Delivery. When the link between two fresh channels of one session keeps the order and
  loses nothing, every TLS byte a channel has taken over has been handed to the other side's TLS
  engine once all datagrams have arrived, in both directions and under every interleaving of writes,
  soft resets, polls and deliveries, with or without \<open>tls-crypt\<close> and \<open>tls-auth\<close>.
\<close>

theorem control_stream_delivered:
  assumes cr: "crypto_ok cr" "opposite da db" "peer_protections cr key name da db pa pb"
    and fresh: "fresh_channel pa a" "fresh_channel pb b"
    and paired: "session_between ida idb k (ch_session a)" "session_between idb ida k (ch_session b)"
      "k < 8" "ida \<noteq> zero_session" "idb \<noteq> zero_session"
    and run: "link_run cr events (endpoint_new a, endpoint_new b) = (x, y)" "in_order cr events 0 0 (endpoint_new a, endpoint_new b)"
    and few: "length (ep_wire x) < 2 ^ 32" "length (ep_wire y) < 2 ^ 32"
  shows "ep_got y = ep_sent x \<and> ep_got x = ep_sent y"
proof -
  note match = peer_protections_match [OF cr]
    peer_protections_match [OF cr(1) opposite_swap [OF cr(2)] peer_protections_swap [OF cr(3)]]
  note start = peer_protections_start [OF cr(3)]
  have "fifo_inv cr ida idb k 0 0 (endpoint_new a) (endpoint_new b)"
    using delivery_start [OF fresh match(1) paired(1) start(1,4)] delivery_start [OF fresh(2,1) match(2) paired(2) start(3,2)]
    unfolding fifo_inv_def by blast
  then have "fifo_inv cr ida idb k (length (ep_wire y)) (length (ep_wire x)) x y"
    using in_order_inv [OF run(2) _ paired(3-5) run(1) few] by blast
  then show ?thesis using delivered_all unfolding fifo_inv_def by blast
qed

text \<open>The acknowledgments of a record travel in the other direction as part of a record.\<close>

definition sample_events :: "(bool \<times> link_event) list" where
  "sample_events = [(True, SendTls 1000 [1, 2, 3]), (True, SendTls 1000 [4]), (False, Receive 5 0), (False, SendTls 1000 [9]),
     (False, Receive 6 1), (True, Receive 7 0), (True, SendTls 1000 [5]), (False, Receive 8 2)]"

lemma sample_in_order:
  "in_order plain_crypto sample_events 0 0 (endpoint_new (sample_channel ''clientid'' ''serverid''), endpoint_new (sample_channel ''serverid'' ''clientid''))
   \<and> (case link_run plain_crypto sample_events
        (endpoint_new (sample_channel ''clientid'' ''serverid''), endpoint_new (sample_channel ''serverid'' ''clientid'')) of
      (x, y) \<Rightarrow> length (ep_wire x) = 3 \<and> length (ep_wire y) = 1 \<and> ep_sent x = [1, 2, 3, 4, 5])"
  by code_simp

theorem control_stream_delivered_witness:
  "case link_run plain_crypto sample_events
      (endpoint_new (sample_channel ''clientid'' ''serverid''), endpoint_new (sample_channel ''serverid'' ''clientid'')) of
    (x, y) \<Rightarrow> ep_got y = [1, 2, 3, 4, 5]"
proof -
  let ?s = "(endpoint_new (sample_channel ''clientid'' ''serverid''), endpoint_new (sample_channel ''serverid'' ''clientid''))"
  obtain x y where run: "link_run plain_crypto sample_events ?s = (x, y)" by fastforce
  have peers: "opposite 0 1" "peer_protections plain_crypto [] [] 0 1 protection_default protection_default"
    by (simp_all add: opposite_def peer_protections_def)
  have ses: "session_between (ascii_bytes ''clientid'') (ascii_bytes ''serverid'') 0 (ch_session (sample_channel ''clientid'' ''serverid''))"
      "session_between (ascii_bytes ''serverid'') (ascii_bytes ''clientid'') 0 (ch_session (sample_channel ''serverid'' ''clientid''))"
      "(0 :: u8) < 8"
    by (simp_all add: session_between_def sample_channel_def control_channel_new_def set_remote_session_id_def with_local_id_def)
  have ids: "ascii_bytes ''clientid'' \<noteq> zero_session" "ascii_bytes ''serverid'' \<noteq> zero_session" by code_simp+
  have "in_order plain_crypto sample_events 0 0 ?s" "length (ep_wire x) < 2 ^ 32" "length (ep_wire y) < 2 ^ 32" "ep_sent x = [1, 2, 3, 4, 5]"
    using sample_in_order unfolding run by simp_all
  then show ?thesis
    using control_stream_delivered [OF plain_crypto_ok peers sample_fresh ses ids run] by (simp only: run case_prod_conv)
qed

end
