(* ===== verification/Ovpn_Mux.thy ===== *)
theory Ovpn_Mux
  imports Ovpn_Link
begin

text \<open>
  The demultiplexer of the control channels (\<open>protocol/openvpn/control_mux.rs\<close>) and the driver that
  feeds it (\<open>control_io.rs\<close>: the incoming loop of \<open>spawn_tls_control_channel\<close> and
  \<open>register_renegotiation_channel\<close>). The hash maps are maps; the order in which a hash map is iterated
  is an argument. The queues to the TLS engines, to the data plane and to the reset handler are logs
  of what was sent, with a flag telling whether the receiver still exists.
\<close>

definition MAXIMUM_PENDING_PACKETS_PER_KEY_STATE :: nat where "MAXIMUM_PENDING_PACKETS_PER_KEY_STATE = 8"

datatype control_mux_error =
    MuxEmptyPacket | InvalidRenegotiationKeyId | DuplicateKeyId u8 | UnknownKeyId u8 | WrongInitialResetKeyId
  | MuxChannel control_channel_error

record routed_control_events =
  routed_key_id :: u8
  routed_events :: "incoming_control_event list"

record control_mux =
  mux_primary_key_id :: u8
  mux_channels :: "u8 \<rightharpoonup> control_channel"
  mux_pending :: "u8 \<rightharpoonup> bytes list"

definition mux_new :: "control_channel \<Rightarrow> control_mux" where
  "mux_new primary =
     (let primary_key_id = ses_key_id (ch_session primary)
      in \<lparr>mux_primary_key_id = primary_key_id, mux_channels = [primary_key_id \<mapsto> primary], mux_pending = Map.empty\<rparr>)"

definition mux_contains :: "u8 \<Rightarrow> control_mux \<Rightarrow> bool" where
  "mux_contains key_id mux \<longleftrightarrow> mux_channels mux key_id \<noteq> None"

text \<open>The loop over the buffered packets of a new channel.\<close>

fun ingest_all ::
  "crypto \<Rightarrow> (instant \<times> bytes) list \<Rightarrow> control_channel \<Rightarrow> control_channel_error + control_channel \<times> incoming_control_event list" where
  "ingest_all cr [] ch = Inr (ch, [])"
| "ingest_all cr ((now, raw) # rest) ch =
     (case ingest_link_packet cr now raw ch of
        (_, Inl e) \<Rightarrow> Inl e
      | (ch1, Inr events) \<Rightarrow>
          (case ingest_all cr rest ch1 of
             Inl e \<Rightarrow> Inl e
           | Inr (ch2, later) \<Rightarrow> Inr (ch2, events @ later)))"

text \<open>Each packet is decoded at its own clock reading.\<close>

definition stamped :: "(nat \<Rightarrow> instant) \<Rightarrow> bytes list \<Rightarrow> (instant \<times> bytes) list" where
  "stamped clock raws = zip (map clock [0 ..< length raws]) raws"

definition install_channel ::
  "crypto \<Rightarrow> (nat \<Rightarrow> instant) \<Rightarrow> u8 \<Rightarrow> control_channel \<Rightarrow> control_mux
    \<Rightarrow> control_mux \<times> (control_mux_error + incoming_control_event list)" where
  "install_channel cr clock key_id ch mux =
     (case ingest_all cr (stamped clock (case mux_pending mux key_id of None \<Rightarrow> [] | Some pending \<Rightarrow> pending)) ch of
        Inl e \<Rightarrow> (mux\<lparr>mux_pending := (mux_pending mux)(key_id := None)\<rparr>, Inl (MuxChannel e))
      | Inr (ch', events) \<Rightarrow>
          (mux\<lparr>mux_pending := (mux_pending mux)(key_id := None), mux_channels := (mux_channels mux)(key_id \<mapsto> ch')\<rparr>, Inr events))"

definition mux_register ::
  "crypto \<Rightarrow> (nat \<Rightarrow> instant) \<Rightarrow> control_channel \<Rightarrow> packet option \<Rightarrow> control_mux
    \<Rightarrow> control_mux \<times> (control_mux_error + incoming_control_event list)" where
  "mux_register cr clock ch initial_soft_reset mux =
     (let key_id = ses_key_id (ch_session ch)
      in if key_id = 0 then (mux, Inl InvalidRenegotiationKeyId)
         else if mux_contains key_id mux then (mux, Inl (DuplicateKeyId key_id))
         else case initial_soft_reset of
           Some p \<Rightarrow>
             if pkt_key_id p \<noteq> key_id then (mux, Inl WrongInitialResetKeyId)
             else install_channel cr clock key_id (seed_incoming_packet p ch) mux
         | None \<Rightarrow> install_channel cr clock key_id ch mux)"

definition mux_promote :: "u8 \<Rightarrow> control_mux \<Rightarrow> control_mux \<times> (control_mux_error + unit)" where
  "mux_promote key_id mux =
     (if \<not> mux_contains key_id mux then (mux, Inl (UnknownKeyId key_id))
      else (mux\<lparr>mux_primary_key_id := key_id\<rparr>, Inr ()))"

definition mux_unregister :: "u8 \<Rightarrow> control_mux \<Rightarrow> control_mux \<times> bool" where
  "mux_unregister key_id mux =
     (if key_id = mux_primary_key_id mux then (mux, False)
      else (mux\<lparr>mux_pending := (mux_pending mux)(key_id := None), mux_channels := (mux_channels mux)(key_id := None)\<rparr>,
            mux_contains key_id mux))"

definition buffer_packet :: "bytes \<Rightarrow> bytes list \<Rightarrow> bytes list" where
  "buffer_packet raw pending =
     (if length pending \<ge> MAXIMUM_PENDING_PACKETS_PER_KEY_STATE then tl pending else pending) @ [raw]"

definition mux_ingest ::
  "crypto \<Rightarrow> instant \<Rightarrow> bytes \<Rightarrow> control_mux \<Rightarrow> control_mux \<times> (control_mux_error + routed_control_events)" where
  "mux_ingest cr now raw_packet mux =
     (if raw_packet = [] then (mux, Inl MuxEmptyPacket)
      else
        let announced_key_id = hd raw_packet AND 7; op = from_wire (drop_bit 3 (hd raw_packet))
        in if \<not> mux_contains announced_key_id mux \<and> op \<noteq> ControlSoftResetV1
           then (mux\<lparr>mux_pending := (mux_pending mux)(announced_key_id \<mapsto>
                   buffer_packet raw_packet (case mux_pending mux announced_key_id of None \<Rightarrow> [] | Some pending \<Rightarrow> pending))\<rparr>,
                 Inr \<lparr>routed_key_id = announced_key_id, routed_events = []\<rparr>)
           else
             let key_id = (if mux_contains announced_key_id mux then announced_key_id else mux_primary_key_id mux)
             in case mux_channels mux key_id of
                  None \<Rightarrow> (mux, Inl (UnknownKeyId key_id))
                | Some ch \<Rightarrow>
                    (case ingest_link_packet cr now raw_packet ch of
                       (ch', r) \<Rightarrow>
                         (mux\<lparr>mux_channels := (mux_channels mux)(key_id \<mapsto> ch')\<rparr>,
                          case r of
                            Inl e \<Rightarrow> Inl (MuxChannel e)
                          | Inr events \<Rightarrow> Inr \<lparr>routed_key_id = key_id, routed_events = events\<rparr>)))"

definition mux_packetize ::
  "crypto \<Rightarrow> u32 \<Rightarrow> u8 \<Rightarrow> bytes \<Rightarrow> control_mux \<Rightarrow> control_mux \<times> (control_mux_error + (bytes \<times> nat) option)" where
  "mux_packetize cr unix key_id ciphertext mux =
     (case mux_channels mux key_id of
        None \<Rightarrow> (mux, Inl (UnknownKeyId key_id))
      | Some ch \<Rightarrow>
          (case packetize_tls_ciphertext cr unix ciphertext ch of
             (ch', r) \<Rightarrow>
               (mux\<lparr>mux_channels := (mux_channels mux)(key_id \<mapsto> ch')\<rparr>,
                case r of Inl e \<Rightarrow> Inl (MuxChannel e) | Inr packet \<Rightarrow> Inr packet)))"

definition mux_send_initial_soft_reset ::
  "crypto \<Rightarrow> u32 \<Rightarrow> u8 \<Rightarrow> control_mux \<Rightarrow> control_mux \<times> (control_mux_error + bytes)" where
  "mux_send_initial_soft_reset cr unix key_id mux =
     (case mux_channels mux key_id of
        None \<Rightarrow> (mux, Inl (UnknownKeyId key_id))
      | Some ch \<Rightarrow>
          (case send_initial_soft_reset cr unix ch of
             (ch', r) \<Rightarrow>
               (mux\<lparr>mux_channels := (mux_channels mux)(key_id \<mapsto> ch')\<rparr>,
                case r of Inl e \<Rightarrow> Inl (MuxChannel e) | Inr packet \<Rightarrow> Inr packet)))"

text \<open>\<open>order\<close> lists the keys in the order the hash map yields them.\<close>

fun mux_packets_ready ::
  "crypto \<Rightarrow> u32 \<Rightarrow> instant \<Rightarrow> u8 list \<Rightarrow> control_mux \<Rightarrow> control_mux \<times> (control_mux_error + bytes list)" where
  "mux_packets_ready cr unix now [] mux = (mux, Inr [])"
| "mux_packets_ready cr unix now (key_id # order) mux =
     (case mux_channels mux key_id of
        None \<Rightarrow> mux_packets_ready cr unix now order mux
      | Some ch \<Rightarrow>
          (case channel_packets_ready cr unix now ch of
             (ch', r) \<Rightarrow>
               let mux1 = mux\<lparr>mux_channels := (mux_channels mux)(key_id \<mapsto> ch')\<rparr>
               in case r of
                    Inl e \<Rightarrow> (mux1, Inl (MuxChannel e))
                  | Inr packets \<Rightarrow>
                      (case mux_packets_ready cr unix now order mux1 of
                         (mux2, Inl e) \<Rightarrow> (mux2, Inl e)
                       | (mux2, Inr later) \<Rightarrow> (mux2, Inr (packets @ later)))))"

subsection \<open>The driver\<close>

datatype driver_error = ProtocolError control_mux_error | UnexpectedBufferedEvent | BrokenPipe

record driver =
  dr_mux :: control_mux
  dr_tls_writers :: "u8 \<rightharpoonup> bool"
  dr_data_open :: bool
  dr_resets_open :: bool
  dr_tls :: "(u8 \<times> bytes) list"
  dr_data :: "packet list"
  dr_resets :: "incoming_control_event list"

definition driver_new :: "control_channel \<Rightarrow> driver" where
  "driver_new ch = \<lparr>dr_mux = mux_new ch, dr_tls_writers = [ses_key_id (ch_session ch) \<mapsto> True], dr_data_open = True,
     dr_resets_open = True, dr_tls = [], dr_data = [], dr_resets = []\<rparr>"

fun dispatch_event :: "u8 \<Rightarrow> socket_addr option \<Rightarrow> incoming_control_event \<Rightarrow> driver \<Rightarrow> driver_error + driver" where
  "dispatch_event key_id source (TlsCiphertext ciphertext) d =
     (case dr_tls_writers d key_id of
        None \<Rightarrow> Inr d
      | Some receiving \<Rightarrow> if receiving then Inr (d\<lparr>dr_tls := dr_tls d @ [(key_id, ciphertext)]\<rparr>) else Inl BrokenPipe)"
| "dispatch_event key_id source (DataPacket p) d =
     (if dr_data_open d then Inr (d\<lparr>dr_data := dr_data d @ [p\<lparr>pkt_link_source := source\<rparr>]\<rparr>) else Inl BrokenPipe)"
| "dispatch_event key_id source (HardReset p) d =
     (if dr_resets_open d then Inr (d\<lparr>dr_resets := dr_resets d @ [HardReset p]\<rparr>) else Inl BrokenPipe)"
| "dispatch_event key_id source (SoftReset p) d =
     (if dr_resets_open d then Inr (d\<lparr>dr_resets := dr_resets d @ [SoftReset p]\<rparr>) else Inl BrokenPipe)"

fun dispatch_events :: "u8 \<Rightarrow> socket_addr option \<Rightarrow> incoming_control_event list \<Rightarrow> driver \<Rightarrow> driver_error + driver" where
  "dispatch_events key_id source [] d = Inr d"
| "dispatch_events key_id source (e # es) d =
     (case dispatch_event key_id source e d of
        Inl err \<Rightarrow> Inl err
      | Inr d' \<Rightarrow> dispatch_events key_id source es d')"

text \<open>The incoming loop on the datagrams it reads: the first error ends it, and with it the driver.\<close>

fun incoming_loop :: "crypto \<Rightarrow> (instant \<times> bytes \<times> socket_addr option) list \<Rightarrow> driver \<Rightarrow> driver_error + driver" where
  "incoming_loop cr [] d = Inr d"
| "incoming_loop cr ((now, raw, source) # rest) d =
     (case mux_ingest cr now raw (dr_mux d) of
        (mux, Inl e) \<Rightarrow> Inl (ProtocolError e)
      | (mux, Inr routed) \<Rightarrow>
          (case dispatch_events (routed_key_id routed) source (routed_events routed) (d\<lparr>dr_mux := mux\<rparr>) of
             Inl e \<Rightarrow> Inl e
           | Inr d' \<Rightarrow> incoming_loop cr rest d'))"

text \<open>The loop of \<open>register_renegotiation_channel\<close> over the events of the buffered packets.\<close>

fun replay_events :: "u8 \<Rightarrow> incoming_control_event list \<Rightarrow> driver \<Rightarrow> driver \<times> (driver_error + unit)" where
  "replay_events key_id [] d = (d, Inr ())"
| "replay_events key_id (TlsCiphertext ciphertext # es) d =
     replay_events key_id es (d\<lparr>dr_tls := dr_tls d @ [(key_id, ciphertext)]\<rparr>)"
| "replay_events key_id (SoftReset p # es) d = replay_events key_id es d"
| "replay_events key_id (HardReset p # es) d =
     (d\<lparr>dr_tls_writers := (dr_tls_writers d)(key_id := None), dr_mux := fst (mux_unregister key_id (dr_mux d))\<rparr>,
      Inl UnexpectedBufferedEvent)"
| "replay_events key_id (DataPacket p # es) d =
     (d\<lparr>dr_tls_writers := (dr_tls_writers d)(key_id := None), dr_mux := fst (mux_unregister key_id (dr_mux d))\<rparr>,
      Inl UnexpectedBufferedEvent)"

definition register_renegotiation_channel ::
  "crypto \<Rightarrow> (nat \<Rightarrow> instant) \<Rightarrow> control_channel \<Rightarrow> packet option \<Rightarrow> driver \<Rightarrow> driver \<times> (driver_error + unit)" where
  "register_renegotiation_channel cr clock ch initial_soft_reset d =
     (let key_id = ses_key_id (ch_session ch); d1 = d\<lparr>dr_tls_writers := (dr_tls_writers d)(key_id \<mapsto> True)\<rparr>
      in case mux_register cr clock ch initial_soft_reset (dr_mux d1) of
           (mux, Inl e) \<Rightarrow> (d1\<lparr>dr_mux := mux, dr_tls_writers := (dr_tls_writers d1)(key_id := None)\<rparr>, Inl (ProtocolError e))
         | (mux, Inr events) \<Rightarrow> replay_events key_id events (d1\<lparr>dr_mux := mux\<rparr>))"

text \<open>The end of a renegotiation channel's task, and its retirement.\<close>

definition retire_channel :: "u8 \<Rightarrow> driver \<Rightarrow> driver" where
  "retire_channel key_id d =
     d\<lparr>dr_tls_writers := (dr_tls_writers d)(key_id := None), dr_mux := fst (mux_unregister key_id (dr_mux d))\<rparr>"

definition promote_renegotiation_channel :: "u8 \<Rightarrow> driver \<Rightarrow> driver \<times> (driver_error + unit)" where
  "promote_renegotiation_channel key_id d =
     (case mux_promote key_id (dr_mux d) of
        (mux, r) \<Rightarrow> (d\<lparr>dr_mux := mux\<rparr>, case r of Inl e \<Rightarrow> Inl (ProtocolError e) | Inr _ \<Rightarrow> Inr ()))"

subsection \<open>A channel keeps its key id\<close>

lemma ingest_session: "ingest_link_packet cr now raw ch = (ch', r) \<Longrightarrow> ch_session ch' = ch_session ch"
  by (auto simp: ingest_link_packet_def ingest_packet_def Let_def split: if_splits prod.splits sum.splits bool.splits)

lemma encode_session: "encode_link_packet cr unix p ch = (ch', r) \<Longrightarrow> ch_session ch' = ch_session ch"
  by (auto simp: encode_link_packet_def Let_def split: if_splits prod.splits sum.splits)

lemma encodes_session: "encode_link_packets cr unix ps ch = (ch', r) \<Longrightarrow> ch_session ch' = ch_session ch"
proof (induction ps arbitrary: ch ch' r)
  case (Cons p ps)
  obtain ch1 r1 where one: "encode_link_packet cr unix p ch = (ch1, r1)" by fastforce
  obtain ch2 r2 where rest: "encode_link_packets cr unix ps ch1 = (ch2, r2)" by fastforce
  from Cons.prems one rest encode_session [OF one] Cons.IH [OF rest] show ?case by (auto split: sum.splits)
qed simp

text \<open>A packet constructor that leaves the key id alone.\<close>

definition keeps_key :: "(u32 list \<Rightarrow> session \<Rightarrow> session \<times> (session_error + packet)) \<Rightarrow> bool" where
  "keeps_key create \<longleftrightarrow> (\<forall>ids ses. ses_key_id (fst (create ids ses)) = ses_key_id ses)"

lemma keeps_key_create: "keeps_key (create_control op payload)" "keeps_key create_soft_reset"
  by (auto simp: keeps_key_def create_control_def create_soft_reset_def new_control_packet_def
      split: sum.splits prod.splits if_splits)

lemma channel_insert_key:
  assumes "keeps_key create" "channel_insert n create ch = (ch', r)"
  shows "ses_key_id (ch_session ch') = ses_key_id (ch_session ch)"
proof -
  have "ses_key_id ses' = ses_key_id (ch_session ch)" if "create ids (ch_session ch) = (ses', q)" for ids ses' q
    using assms(1) that unfolding keeps_key_def by (metis fst_conv)
  with assms(2) show ?thesis
    by (auto simp: channel_insert_def insert_outgoing_packet_def split: prod.splits if_splits sum.splits)
qed

lemma packetize_key:
  assumes "packetize_tls_ciphertext cr unix data ch = (ch', r)"
  shows "ses_key_id (ch_session ch') = ses_key_id (ch_session ch)"
  using assms
  by (auto simp: packetize_tls_ciphertext_def Let_def split: if_splits prod.splits sum.splits option.splits
      dest!: channel_insert_key [OF keeps_key_create(1)] encode_session)

lemma soft_reset_key:
  assumes "send_initial_soft_reset cr unix ch = (ch', r)"
  shows "ses_key_id (ch_session ch') = ses_key_id (ch_session ch)"
  using assms
  by (auto simp: send_initial_soft_reset_def split: prod.splits sum.splits option.splits
      dest!: channel_insert_key [OF keeps_key_create(2)] encode_session)

lemma ack_key:
  assumes "channel_acknowledgment_packet cr unix ch = (ch', r)"
  shows "ses_key_id (ch_session ch') = ses_key_id (ch_session ch)"
  using assms
  by (auto simp: channel_acknowledgment_packet_def Let_def split: if_splits prod.splits sum.splits option.splits
      dest!: channel_insert_key [OF keeps_key_create(1)] encode_session)

lemma poll_key:
  assumes "channel_packets_ready cr unix now ch = (ch', r)"
  shows "ses_key_id (ch_session ch') = ses_key_id (ch_session ch)"
proof -
  obtain out due where due: "packets_ready_to_send now (ch_outgoing ch) = (out, due)" by fastforce
  obtain ch1 r1 where enc: "encode_link_packets cr unix due (ch\<lparr>ch_outgoing := out\<rparr>) = (ch1, r1)" by fastforce
  obtain ch2 r2 where ack: "channel_acknowledgment_packet cr unix ch1 = (ch2, r2)" by fastforce
  from assms due enc ack encodes_session [OF enc] ack_key [OF ack] show ?thesis
    by (auto simp: channel_packets_ready_def split: sum.splits if_splits)
qed

lemma ingest_all_session: "ingest_all cr ds ch = Inr (ch', events) \<Longrightarrow> ch_session ch' = ch_session ch"
  by (induction ds arbitrary: ch ch' events) (auto dest: ingest_session split: prod.splits sum.splits)

lemma seed_session [simp]: "ch_session (seed_incoming_packet p ch) = ch_session ch"
  by (simp add: seed_incoming_packet_def)

subsection \<open>The demultiplexer's invariant\<close>

definition announced :: "bytes \<Rightarrow> u8" where
  "announced raw = hd raw AND 7"

definition buffered_for :: "u8 \<Rightarrow> bytes \<Rightarrow> bool" where
  "buffered_for k raw \<longleftrightarrow> raw \<noteq> [] \<and> announced raw = k \<and> from_wire (drop_bit 3 (hd raw)) \<noteq> ControlSoftResetV1"

definition mux_wf :: "control_mux \<Rightarrow> bool" where
  "mux_wf mux \<longleftrightarrow> mux_contains (mux_primary_key_id mux) mux
     \<and> (\<forall>k ch. mux_channels mux k = Some ch \<longrightarrow> ses_key_id (ch_session ch) = k)
     \<and> (\<forall>k raws. mux_pending mux k = Some raws \<longrightarrow> \<not> mux_contains k mux \<and> list_all (buffered_for k) raws
          \<and> length raws \<le> MAXIMUM_PENDING_PACKETS_PER_KEY_STATE)"

datatype mux_event =
    MuxRegister "nat \<Rightarrow> instant" control_channel "packet option" | MuxPromote u8 | MuxUnregister u8
  | MuxIngest instant bytes | MuxPacketize u32 u8 bytes | MuxSoftReset u32 u8 | MuxPoll u32 instant "u8 list"

fun mux_step :: "crypto \<Rightarrow> mux_event \<Rightarrow> control_mux \<Rightarrow> control_mux" where
  "mux_step cr (MuxRegister clock ch reset) mux = fst (mux_register cr clock ch reset mux)"
| "mux_step cr (MuxPromote k) mux = fst (mux_promote k mux)"
| "mux_step cr (MuxUnregister k) mux = fst (mux_unregister k mux)"
| "mux_step cr (MuxIngest now raw) mux = fst (mux_ingest cr now raw mux)"
| "mux_step cr (MuxPacketize unix k data) mux = fst (mux_packetize cr unix k data mux)"
| "mux_step cr (MuxSoftReset unix k) mux = fst (mux_send_initial_soft_reset cr unix k mux)"
| "mux_step cr (MuxPoll unix now order) mux = fst (mux_packets_ready cr unix now order mux)"

lemma mux_wf_new: "mux_wf (mux_new ch)"
  by (simp add: mux_wf_def mux_new_def mux_contains_def Let_def)

text \<open>Replacing the state of a registered channel.\<close>

lemma mux_wf_update:
  assumes "mux_wf mux" "mux_channels mux k = Some ch" "ses_key_id (ch_session ch') = ses_key_id (ch_session ch)"
  shows "mux_wf (mux\<lparr>mux_channels := (mux_channels mux)(k \<mapsto> ch')\<rparr>)"
proof -
  have "mux_pending mux k = None"
    using assms(1,2) unfolding mux_wf_def mux_contains_def by (metis option.distinct(1) option.exhaust)
  with assms show ?thesis by (auto simp: mux_wf_def mux_contains_def)
qed

lemma mux_wf_install:
  assumes "mux_wf mux" "ses_key_id (ch_session ch) = k" "install_channel cr clock k ch mux = (mux', r)"
  shows "mux_wf mux'"
proof -
  have "mux_wf (mux\<lparr>mux_pending := (mux_pending mux)(k := None)\<rparr>)" using assms(1) by (auto simp: mux_wf_def mux_contains_def)
  moreover have "mux_wf (mux\<lparr>mux_pending := (mux_pending mux)(k := None), mux_channels := (mux_channels mux)(k \<mapsto> ch')\<rparr>)"
    if "ch_session ch' = ch_session ch" for ch'
    using assms(1,2) that by (auto simp: mux_wf_def mux_contains_def)
  ultimately show ?thesis using assms(3) by (auto simp: install_channel_def dest: ingest_all_session split: sum.splits prod.splits)
qed

lemma mux_wf_register: "mux_wf mux \<Longrightarrow> mux_wf (fst (mux_register cr clock ch reset mux))"
  using mux_wf_install [OF _ _ surjective_pairing] by (simp add: mux_register_def Let_def split: option.split)

lemma buffer_packet_ok:
  assumes "list_all P raws" "P raw" "length raws \<le> MAXIMUM_PENDING_PACKETS_PER_KEY_STATE"
  shows "list_all P (buffer_packet raw raws) \<and> length (buffer_packet raw raws) \<le> MAXIMUM_PENDING_PACKETS_PER_KEY_STATE"
  using assms by (cases raws) (auto simp: buffer_packet_def MAXIMUM_PENDING_PACKETS_PER_KEY_STATE_def)

lemma mux_wf_ingest:
  assumes wf: "mux_wf mux"
  shows "mux_wf (fst (mux_ingest cr now raw mux))"
proof (cases "raw = []")
  case False
  define k where "k = announced raw"
  show ?thesis
  proof (cases "\<not> mux_contains k mux \<and> from_wire (drop_bit 3 (hd raw)) \<noteq> ControlSoftResetV1")
    case True
    let ?old = "case mux_pending mux k of None \<Rightarrow> [] | Some pending \<Rightarrow> pending"
    have "list_all (buffered_for k) ?old" "length ?old \<le> MAXIMUM_PENDING_PACKETS_PER_KEY_STATE"
      using wf by (auto simp: mux_wf_def split: option.split)
    moreover have "buffered_for k raw" using True False by (simp add: buffered_for_def k_def)
    ultimately show ?thesis using True False wf buffer_packet_ok [of "buffered_for k" ?old raw]
      by (auto simp: mux_ingest_def mux_wf_def mux_contains_def k_def announced_def Let_def)
  next
    case routed: False
    let ?k = "if mux_contains k mux then k else mux_primary_key_id mux"
    obtain ch where ch: "mux_channels mux ?k = Some ch"
      using wf by (cases "mux_contains k mux") (auto simp: mux_wf_def mux_contains_def)
    obtain ch' r where ing: "ingest_link_packet cr now raw ch = (ch', r)" by fastforce
    have "fst (mux_ingest cr now raw mux) = mux\<lparr>mux_channels := (mux_channels mux)(?k \<mapsto> ch')\<rparr>"
      using False routed ch ing by (auto simp: mux_ingest_def k_def announced_def Let_def)
    then show ?thesis using mux_wf_update [OF wf ch] ingest_session [OF ing] by simp
  qed
qed (use wf in \<open>simp add: mux_ingest_def\<close>)

lemma mux_wf_poll: "mux_wf mux \<Longrightarrow> mux_wf (fst (mux_packets_ready cr unix now order mux))"
proof (induction order arbitrary: mux)
  case (Cons k order)
  show ?case
  proof (cases "mux_channels mux k")
    case None
    then show ?thesis using Cons by simp
  next
    case (Some ch)
    obtain ch' r where poll: "channel_packets_ready cr unix now ch = (ch', r)" by fastforce
    have "mux_wf (mux\<lparr>mux_channels := (mux_channels mux)(k \<mapsto> ch')\<rparr>)"
      using mux_wf_update [OF Cons.prems Some] poll_key [OF poll] by simp
    note this Cons.IH [OF this]
    then show ?thesis using Some poll by (cases r) (simp_all add: Let_def case_prod_beta split: sum.split)
  qed
qed simp

lemma mux_wf_promote: "mux_wf mux \<Longrightarrow> mux_wf (fst (mux_promote k mux))"
  by (auto simp: mux_promote_def mux_wf_def mux_contains_def)

lemma mux_wf_unregister: "mux_wf mux \<Longrightarrow> mux_wf (fst (mux_unregister k mux))"
  by (auto simp: mux_unregister_def mux_wf_def mux_contains_def)

lemma mux_wf_packetize:
  assumes wf: "mux_wf mux"
  shows "mux_wf (fst (mux_packetize cr unix k data mux))"
proof (cases "mux_channels mux k")
  case (Some ch)
  obtain ch' r where "packetize_tls_ciphertext cr unix data ch = (ch', r)" by fastforce
  with Some mux_wf_update [OF wf Some] packetize_key show ?thesis by (simp add: mux_packetize_def)
qed (use wf in \<open>simp add: mux_packetize_def\<close>)

lemma mux_wf_soft_reset:
  assumes wf: "mux_wf mux"
  shows "mux_wf (fst (mux_send_initial_soft_reset cr unix k mux))"
proof (cases "mux_channels mux k")
  case (Some ch)
  obtain ch' r where "send_initial_soft_reset cr unix ch = (ch', r)" by fastforce
  with Some mux_wf_update [OF wf Some] soft_reset_key show ?thesis by (simp add: mux_send_initial_soft_reset_def)
qed (use wf in \<open>simp add: mux_send_initial_soft_reset_def\<close>)

lemma mux_wf_step: "mux_wf mux \<Longrightarrow> mux_wf (mux_step cr ev mux)"
  by (cases ev) (simp_all add: mux_wf_register mux_wf_promote mux_wf_unregister mux_wf_ingest mux_wf_packetize
      mux_wf_soft_reset mux_wf_poll)

interpretation control_muxes: event_system "mux_new ch" "mux_step cr" mux_wf for cr ch
  by unfold_locales (rule mux_wf_new, rule mux_wf_step)

subsection \<open>Each channel sees its own packets\<close>

text \<open>Datagrams delivered one after the other, with the events and the key they were routed to.\<close>

fun mux_deliver ::
  "crypto \<Rightarrow> (instant \<times> bytes) list \<Rightarrow> control_mux \<Rightarrow> control_mux_error + control_mux \<times> (u8 \<times> incoming_control_event) list" where
  "mux_deliver cr [] mux = Inr (mux, [])"
| "mux_deliver cr ((now, raw) # rest) mux =
     (case mux_ingest cr now raw mux of
        (_, Inl e) \<Rightarrow> Inl e
      | (mux1, Inr routed) \<Rightarrow>
          (case mux_deliver cr rest mux1 of
             Inl e \<Rightarrow> Inl e
           | Inr (mux2, later) \<Rightarrow> Inr (mux2, map (Pair (routed_key_id routed)) (routed_events routed) @ later)))"

definition routes_to :: "u8 \<Rightarrow> u8 set \<Rightarrow> u8 \<Rightarrow> bytes \<Rightarrow> bool" where
  "routes_to primary keys k raw \<longleftrightarrow>
     (if announced raw \<in> keys then announced raw = k
      else from_wire (drop_bit 3 (hd raw)) = ControlSoftResetV1 \<and> primary = k)"

lemma mux_ingest_routed:
  assumes "mux_ingest cr now raw mux = (mux', Inr routed)"
  shows "raw \<noteq> []" "mux_primary_key_id mux' = mux_primary_key_id mux" "dom (mux_channels mux') = dom (mux_channels mux)"
  using assms by (auto simp: mux_ingest_def Let_def mux_contains_def split: if_splits option.splits prod.splits sum.splits)

lemma mux_ingest_channel:
  assumes ing: "mux_ingest cr now raw mux = (mux', Inr routed)" and ch: "mux_channels mux k = Some ch"
  shows "if routes_to (mux_primary_key_id mux) (dom (mux_channels mux)) k raw
    then \<exists>ch'. ingest_link_packet cr now raw ch = (ch', Inr (routed_events routed)) \<and> mux_channels mux' k = Some ch'
      \<and> routed_key_id routed = k
    else mux_channels mux' k = Some ch \<and> (routed_events routed = [] \<or> routed_key_id routed \<noteq> k)"
proof (cases "announced raw \<in> dom (mux_channels mux) \<or> from_wire (drop_bit 3 (hd raw)) = ControlSoftResetV1")
  case True
  define k' where "k' = (if announced raw \<in> dom (mux_channels mux) then announced raw else mux_primary_key_id mux)"
  have known: "announced raw \<in> dom (mux_channels mux) \<longleftrightarrow> mux_contains (announced raw) mux" by (simp add: mux_contains_def domIff)
  have "mux_ingest cr now raw mux = (case mux_channels mux k' of
      None \<Rightarrow> (mux, Inl (UnknownKeyId k'))
    | Some ch \<Rightarrow> (case ingest_link_packet cr now raw ch of (ch', r) \<Rightarrow>
        (mux\<lparr>mux_channels := (mux_channels mux)(k' \<mapsto> ch')\<rparr>,
         case r of Inl e \<Rightarrow> Inl (MuxChannel e) | Inr events \<Rightarrow> Inr \<lparr>routed_key_id = k', routed_events = events\<rparr>)))"
    using True mux_ingest_routed(1) [OF ing]
    by (cases "mux_contains (announced raw) mux") (simp_all add: mux_ingest_def Let_def k'_def known split: option.split prod.split sum.split flip: announced_def)
  with ing obtain ch1 ch2 where step: "mux_channels mux k' = Some ch1"
      "ingest_link_packet cr now raw ch1 = (ch2, Inr (routed_events routed))"
      "mux' = mux\<lparr>mux_channels := (mux_channels mux)(k' \<mapsto> ch2)\<rparr>" "routed_key_id routed = k'"
    by (auto split: option.splits prod.splits sum.splits)
  moreover have "routes_to (mux_primary_key_id mux) (dom (mux_channels mux)) k raw \<longleftrightarrow> k' = k"
    using True by (auto simp: routes_to_def k'_def)
  ultimately show ?thesis using ch by auto
next
  case False
  then have "mux_channels mux' = mux_channels mux" "routed_events routed = []"
    using ing by (auto simp: mux_ingest_def announced_def mux_contains_def Let_def split: if_splits)
  with False ch show ?thesis by (auto simp: routes_to_def)
qed

text \<open>
  Property C9. Demultiplexing. After any sequence of datagrams that the demultiplexer takes in, every
  registered channel has the state, and the events routed to its key are the events, that the channel
  would have produced alone on the datagrams announcing its key, in their order; the primary channel
  also gets the soft resets for keys that are not registered.
\<close>

theorem mux_demultiplexes:
  assumes "mux_deliver cr ds mux = Inr (mux', log)" "mux_channels mux k = Some ch"
  shows "\<exists>ch'. mux_channels mux' k = Some ch'
    \<and> ingest_all cr (filter (routes_to (mux_primary_key_id mux) (dom (mux_channels mux)) k \<circ> snd) ds) ch
        = Inr (ch', map snd (filter (\<lambda>(j, _). j = k) log))"
  using assms
proof (induction ds arbitrary: mux ch log)
  case (Cons d ds)
  obtain now raw where d: "d = (now, raw)" by fastforce
  obtain mux1 routed later where step: "mux_ingest cr now raw mux = (mux1, Inr routed)"
      and rest: "mux_deliver cr ds mux1 = Inr (mux', later)" and log: "log = map (Pair (routed_key_id routed)) (routed_events routed) @ later"
    using Cons.prems(1) by (auto simp: d split: prod.splits sum.splits)
  let ?r = "routes_to (mux_primary_key_id mux) (dom (mux_channels mux)) k"
  note same = mux_ingest_routed(2,3) [OF step]
  show ?case
  proof (cases "?r raw")
    case True
    then obtain ch1 where one: "ingest_link_packet cr now raw ch = (ch1, Inr (routed_events routed))"
        "mux_channels mux1 k = Some ch1" "routed_key_id routed = k"
      using mux_ingest_channel [OF step Cons.prems(2)] by auto
    obtain ch' where "mux_channels mux' k = Some ch'"
        "ingest_all cr (filter (?r \<circ> snd) ds) ch1 = Inr (ch', map snd (filter (\<lambda>(j, _). j = k) later))"
      using Cons.IH [OF rest one(2)] unfolding same by blast
    then show ?thesis using one True by (simp add: d log comp_def filter_map)
  next
    case False
    then have one: "mux_channels mux1 k = Some ch" "routed_events routed = [] \<or> routed_key_id routed \<noteq> k"
      using mux_ingest_channel [OF step Cons.prems(2)] by auto
    have "filter (\<lambda>(j, _). j = k) (map (Pair (routed_key_id routed)) (routed_events routed)) = []"
      using one(2) by (auto simp: filter_empty_conv)
    then show ?thesis using Cons.IH [OF rest one(1)] same False by (simp add: d log)
  qed
qed simp

text \<open>A data packet for the primary channel, and a control packet for the key of a renegotiation.\<close>

definition sample_mux :: control_mux where
  "sample_mux = mux_new (sample_channel ''serverid'' ''clientid'')"

lemma sample_deliver:
  "map_sum id snd (mux_deliver plain_crypto [(5, [48, 1]), (6, [49, 2])] sample_mux) = Inr [(0, DataPacket (packet_new DataV1 0 [1]))]"
  by code_simp

theorem mux_demultiplexes_witness:
  "\<exists>mux' ch'. mux_deliver plain_crypto [(5, [48, 1]), (6, [49, 2])] sample_mux = Inr (mux', [(0, DataPacket (packet_new DataV1 0 [1]))])
    \<and> mux_channels mux' 0 = Some ch'
    \<and> ingest_all plain_crypto [(5, [48, 1])] (sample_channel ''serverid'' ''clientid'') = Inr (ch', [DataPacket (packet_new DataV1 0 [1])])"
proof -
  obtain mux' where deliver: "mux_deliver plain_crypto [(5, [48, 1]), (6, [49, 2])] sample_mux = Inr (mux', [(0, DataPacket (packet_new DataV1 0 [1]))])"
    using sample_deliver by (cases "mux_deliver plain_crypto [(5, [48, 1]), (6, [49, 2])] sample_mux") auto
  have chan: "mux_channels sample_mux 0 = Some (sample_channel ''serverid'' ''clientid'')"
      "mux_primary_key_id sample_mux = 0" "dom (mux_channels sample_mux) = {0}"
    by (simp_all add: sample_mux_def mux_new_def sample_channel_def control_channel_new_def set_remote_session_id_def with_local_id_def Let_def)
  have "routes_to 0 {0} 0 [48, 1]" "\<not> routes_to 0 {0} 0 [49, 2]"
    by (simp_all add: routes_to_def announced_def from_wire_def)
  then show ?thesis
    using mux_demultiplexes [OF deliver chan(1)] chan(2,3) deliver by (auto simp del: ingest_all.simps mux_deliver.simps)
qed

subsection \<open>Late registration\<close>

definition last_packets :: "nat \<Rightarrow> bytes list \<Rightarrow> bytes list" where
  "last_packets n raws = drop (length raws - n) raws"

lemma buffer_packet_last:
  assumes "raws = last_packets 8 all"
  shows "buffer_packet raw raws = last_packets 8 (all @ [raw])"
proof (cases "length all < 8")
  case True
  then show ?thesis using assms
    by (auto simp: buffer_packet_def last_packets_def MAXIMUM_PENDING_PACKETS_PER_KEY_STATE_def Suc_le_eq)
next
  case False
  then have "Suc (length all) - 8 = Suc (length all - 8)" by simp
  then show ?thesis using assms False
    by (simp add: buffer_packet_def last_packets_def MAXIMUM_PENDING_PACKETS_PER_KEY_STATE_def drop_Suc tl_drop)
qed

lemma mux_deliver_buffers:
  assumes "\<not> mux_contains k mux" "\<forall>(now, raw) \<in> set ds. buffered_for k raw"
    and "mux_pending mux k = (if all = [] then None else Some (last_packets 8 all))"
  shows "mux_deliver cr ds mux = Inr (mux\<lparr>mux_pending := (mux_pending mux)(k :=
      if all @ map snd ds = [] then None else Some (last_packets 8 (all @ map snd ds)))\<rparr>, [])"
  using assms
proof (induction ds arbitrary: mux all)
  case Nil
  then have "(mux_pending mux)(k := if all = [] then None else Some (last_packets 8 all)) = mux_pending mux" by (auto simp: fun_eq_iff)
  then show ?case by (simp only: mux_deliver.simps list.map append_Nil2) simp
next
  case (Cons d ds)
  obtain now raw where d: "d = (now, raw)" by fastforce
  have raw: "raw \<noteq> []" "hd raw AND 7 = k" "from_wire (drop_bit 3 (hd raw)) \<noteq> ControlSoftResetV1"
    using Cons.prems(2) by (auto simp: d buffered_for_def announced_def)
  have old: "(case mux_pending mux k of None \<Rightarrow> [] | Some pending \<Rightarrow> pending) = last_packets 8 all"
    using Cons.prems(3) by (simp add: last_packets_def)
  let ?mux = "mux\<lparr>mux_pending := (mux_pending mux)(k \<mapsto> last_packets 8 (all @ [raw]))\<rparr>"
  have "mux_ingest cr now raw mux = (?mux, Inr \<lparr>routed_key_id = k, routed_events = []\<rparr>)"
    using raw Cons.prems(1) buffer_packet_last [OF refl, of raw all] old by (simp add: mux_ingest_def Let_def)
  moreover have "mux_deliver cr ds ?mux = Inr (?mux\<lparr>mux_pending := (mux_pending ?mux)(k :=
      if (all @ [raw]) @ map snd ds = [] then None else Some (last_packets 8 ((all @ [raw]) @ map snd ds)))\<rparr>, [])"
    using Cons.prems(1,2) by (intro Cons.IH) (auto simp: mux_contains_def)
  ultimately show ?case by (simp add: d fun_upd_def cong: if_cong)
qed

text \<open>
  Property C19. Late registration. Packets of a key that is not registered yet are held back, and
  registering the channel afterwards gives the channel, the events and the demultiplexer that
  ingesting the last eight of those packets into the new channel directly gives; an error while
  doing so drops the channel and the buffer and changes nothing else.
\<close>

theorem late_registration:
  assumes "ses_key_id (ch_session ch) = k" "k \<noteq> 0" "\<not> mux_contains k mux" "mux_pending mux k = None"
    and "\<forall>(now, raw) \<in> set ds. buffered_for k raw" "\<forall>p. reset = Some p \<longrightarrow> pkt_key_id p = k"
  shows "\<exists>mux1. mux_deliver cr ds mux = Inr (mux1, [])
    \<and> mux_register cr clock ch reset mux1 =
        (case ingest_all cr (stamped clock (last_packets MAXIMUM_PENDING_PACKETS_PER_KEY_STATE (map snd ds)))
               (case reset of None \<Rightarrow> ch | Some p \<Rightarrow> seed_incoming_packet p ch) of
           Inl e \<Rightarrow> (mux, Inl (MuxChannel e))
         | Inr (ch', events) \<Rightarrow> (mux\<lparr>mux_channels := (mux_channels mux)(k \<mapsto> ch')\<rparr>, Inr events))"
proof -
  let ?raws = "last_packets 8 (map snd ds)"
  let ?mux1 = "mux\<lparr>mux_pending := (mux_pending mux)(k := if map snd ds = [] then None else Some ?raws)\<rparr>"
  have deliver: "mux_deliver cr ds mux = Inr (?mux1, [])"
    using mux_deliver_buffers [of k mux ds "[]"] assms(3-5) by simp
  have pending: "(case mux_pending ?mux1 k of None \<Rightarrow> [] | Some pending \<Rightarrow> pending) = ?raws"
    by (simp add: last_packets_def)
  have restored: "(mux_pending mux)(k := None) = mux_pending mux" using assms(4) by (auto simp: fun_eq_iff)
  have install: "install_channel cr clock k c ?mux1 = (case ingest_all cr (stamped clock ?raws) c of
      Inl e \<Rightarrow> (mux, Inl (MuxChannel e))
    | Inr (ch', events) \<Rightarrow> (mux\<lparr>mux_channels := (mux_channels mux)(k \<mapsto> ch')\<rparr>, Inr events))" for c
    using restored by (simp only: install_channel_def pending) (simp split: sum.split prod.split)
  have "mux_register cr clock ch reset ?mux1 = install_channel cr clock k
      (case reset of None \<Rightarrow> ch | Some p \<Rightarrow> seed_incoming_packet p ch) ?mux1"
    using assms(1-3,6) by (auto simp: mux_register_def mux_contains_def Let_def split: option.split)
  then show ?thesis using deliver unfolding install MAXIMUM_PENDING_PACKETS_PER_KEY_STATE_def by blast
qed

definition sample_renegotiation :: control_channel where
  "sample_renegotiation = (sample_channel ''serverid'' ''clientid'')
     \<lparr>ch_session := renegotiation (ch_session (sample_channel ''serverid'' ''clientid'')) 1\<rparr>"

definition sample_control :: bytes where
  "sample_control = 33 # ascii_bytes ''clientid'' @ [0, 0, 0, 0, 1, 7]"

lemma sample_late: "map_sum id snd (ingest_all plain_crypto [(5, sample_control)] sample_renegotiation) = Inr [TlsCiphertext [7]]"
  by code_simp

theorem late_registration_witness:
  "\<exists>mux1 mux2. mux_deliver plain_crypto [(4, sample_control)] sample_mux = Inr (mux1, [])
    \<and> mux_register plain_crypto (\<lambda>_. 5) sample_renegotiation None mux1 = (mux2, Inr [TlsCiphertext [7]])"
proof -
  obtain ch where "ingest_all plain_crypto [(5, sample_control)] sample_renegotiation = Inr (ch, [TlsCiphertext [7]])"
    using sample_late by (cases "ingest_all plain_crypto [(5, sample_control)] sample_renegotiation") auto
  moreover have "buffered_for 1 sample_control" by (simp add: buffered_for_def sample_control_def announced_def from_wire_def)
  moreover have "ses_key_id (ch_session sample_renegotiation) = 1" by (simp add: sample_renegotiation_def renegotiation_def)
  moreover have "\<not> mux_contains 1 sample_mux" "mux_pending sample_mux 1 = None"
    by (simp_all add: sample_mux_def mux_new_def mux_contains_def sample_channel_def control_channel_new_def
        set_remote_session_id_def with_local_id_def Let_def)
  ultimately show ?thesis
    using late_registration [of sample_renegotiation 1 sample_mux "[(4, sample_control)]" None plain_crypto "\<lambda>_. 5"]
    by (auto simp: stamped_def last_packets_def MAXIMUM_PENDING_PACKETS_PER_KEY_STATE_def simp del: ingest_all.simps mux_deliver.simps)
qed

subsection \<open>What ends the driver or a renegotiation\<close>

lemma accept_control_twice:
  assumes "replay_wf control_window r" "accept_control_packet_id pid t1 r = (r', Inr u)"
  shows "\<exists>r''. accept_control_packet_id pid t2 r' = (r'', Inl ReplayedPacket)"
proof -
  let ?key = "(of_be32 (slice 4 8 pid), of_be32 (take 4 pid))"
  have one: "long_form control_window (?key, t1) r = (r', True)"
    using assms(2) by (auto simp: accept_control_packet_id_def long_form_def split: prod.splits if_splits)
  obtain r'' b where two: "long_form control_window (?key, t2) r' = (r'', b)" by fastforce
  have "?key \<in> long_blocked control_window r'" using long_window.accept_blocks [OF assms(1) one] by simp
  then have "\<not> b" using long_window.accept_fresh [OF long_window.wf_accept [OF assms(1) one], of "(?key, t2)" r''] two by auto
  then show ?thesis using two by (simp add: accept_control_packet_id_def long_form_def)
qed

text \<open>A codec opens no datagram twice.\<close>

lemma crypt_decode_twice:
  assumes wf: "replay_wf control_window (cy_receive_state c)" and dec: "crypt_decode cr t1 raw c = (c', Inr x)"
  shows "\<exists>c''. crypt_decode cr t2 raw c' = (c'', Inl ReplayedPacket)"
proof -
  obtain candidate r u where one: "\<not> length raw < TLS_CONTROL_HEADER_LENGTH + TLS_CONTROL_PACKET_ID_LENGTH + TLS_CRYPT_TAG_LENGTH"
      "find (\<lambda>candidate. verify cr Sha256 (cc_auth_key candidate)
         (take TLS_CONTROL_HEADER_LENGTH raw @ slice TLS_CONTROL_HEADER_LENGTH (TLS_CONTROL_HEADER_LENGTH + TLS_CONTROL_PACKET_ID_LENGTH) raw
          @ crypt_plaintext cr candidate
              (slice (TLS_CONTROL_HEADER_LENGTH + TLS_CONTROL_PACKET_ID_LENGTH)
                 (TLS_CONTROL_HEADER_LENGTH + TLS_CONTROL_PACKET_ID_LENGTH + TLS_CRYPT_TAG_LENGTH) raw)
              (drop (TLS_CONTROL_HEADER_LENGTH + TLS_CONTROL_PACKET_ID_LENGTH + TLS_CRYPT_TAG_LENGTH) raw))
         (slice (TLS_CONTROL_HEADER_LENGTH + TLS_CONTROL_PACKET_ID_LENGTH)
            (TLS_CONTROL_HEADER_LENGTH + TLS_CONTROL_PACKET_ID_LENGTH + TLS_CRYPT_TAG_LENGTH) raw))
       (cy_receive_candidates c) = Some candidate"
      "accept_control_packet_id (slice TLS_CONTROL_HEADER_LENGTH (TLS_CONTROL_HEADER_LENGTH + TLS_CONTROL_PACKET_ID_LENGTH) raw) t1
         (cy_receive_state c) = (r, Inr u)" "c' = c\<lparr>cy_receive_state := r\<rparr>"
    using dec unfolding crypt_decode_def Let_def by (auto split: if_splits option.splits prod.splits sum.splits)
  obtain r' where "accept_control_packet_id (slice TLS_CONTROL_HEADER_LENGTH (TLS_CONTROL_HEADER_LENGTH + TLS_CONTROL_PACKET_ID_LENGTH) raw) t2 r
      = (r', Inl ReplayedPacket)"
    using accept_control_twice [OF wf one(3)] by blast
  with one show ?thesis by (simp add: crypt_decode_def Let_def)
qed

lemma auth_decode_twice:
  assumes wf: "replay_wf control_window (au_receive_state c)" and dec: "auth_decode cr t1 raw c = (c', Inr x)"
  shows "\<exists>c''. auth_decode cr t2 raw c' = (c'', Inl ReplayedPacket)"
proof -
  define start where "start = TLS_CONTROL_HEADER_LENGTH + output_size (au_auth c)"
  define pid where "pid = slice start (start + TLS_CONTROL_PACKET_ID_LENGTH) raw"
  obtain key r u where one: "\<not> length raw < start + TLS_CONTROL_PACKET_ID_LENGTH"
      "find (\<lambda>key. verify cr (au_auth c) key (pid @ take TLS_CONTROL_HEADER_LENGTH raw @ drop (start + TLS_CONTROL_PACKET_ID_LENGTH) raw)
         (slice TLS_CONTROL_HEADER_LENGTH start raw)) (au_receive_keys c) = Some key"
      "accept_control_packet_id pid t1 (au_receive_state c) = (r, Inr u)" "c' = c\<lparr>au_receive_state := r\<rparr>"
    using dec unfolding auth_decode_def Let_def start_def pid_def by (auto split: if_splits option.splits prod.splits sum.splits)
  obtain r' where "accept_control_packet_id pid t2 r = (r', Inl ReplayedPacket)"
    using accept_control_twice [OF wf one(3)] by blast
  with one show ?thesis by (simp add: auth_decode_def Let_def start_def pid_def)
qed

text \<open>A channel with \<open>tls-crypt\<close> or \<open>tls-auth\<close>.\<close>

definition replay_protected :: "tls_control_protection \<Rightarrow> bool" where
  "replay_protected p \<longleftrightarrow> prot_crypt_v2_server_key p = []
     \<and> (case prot_crypt p of
          Some c \<Rightarrow> replay_wf control_window (cy_receive_state c)
        | None \<Rightarrow> (case prot_auth p of Some a \<Rightarrow> replay_wf control_window (au_receive_state a) | None \<Rightarrow> False))"

lemma protection_decode_twice:
  assumes p: "replay_protected p" and dec: "protection_decode cr t1 raw p = (p', Inr x)"
  shows "\<exists>p'' e. protection_decode cr t2 raw p' = (p'', Inl e)"
proof -
  have "extract_tls_crypt_v2_client_key cr raw p = (p, Inl MissingServerKey)"
    using p by (simp add: extract_tls_crypt_v2_client_key_def replay_protected_def)
  then have plain: "\<not> length raw < TLS_CONTROL_HEADER_LENGTH" "from_wire (drop_bit 3 (hd raw)) \<notin> {ControlHardResetClientV3, ControlWkcV1}"
    using dec by (auto simp: protection_decode_def Let_def split: if_splits)
  show ?thesis
  proof (cases "prot_crypt p")
    case (Some c)
    then obtain c' where c: "crypt_decode cr t1 raw c = (c', Inr x)" "p' = p\<lparr>prot_crypt := Some c'\<rparr>"
      using dec plain by (auto simp: protection_decode_def Let_def split: prod.splits)
    have "replay_wf control_window (cy_receive_state c)" using p Some by (simp add: replay_protected_def)
    from crypt_decode_twice [OF this c(1), of t2] show ?thesis using c(2) plain by (auto simp: protection_decode_def Let_def)
  next
    case None
    then obtain a where a: "prot_auth p = Some a" "replay_wf control_window (au_receive_state a)"
      using p by (auto simp: replay_protected_def split: option.splits)
    then obtain a' where c: "auth_decode cr t1 raw a = (a', Inr x)" "p' = p\<lparr>prot_auth := Some a'\<rparr>"
      using dec plain None by (auto simp: protection_decode_def Let_def split: prod.splits)
    from auth_decode_twice [OF a(2) c(1), of t2] show ?thesis using c(2) plain None by (auto simp: protection_decode_def Let_def)
  qed
qed

lemma dispatch_events_mux: "dispatch_events k src es d = Inr d' \<Longrightarrow> dr_mux d' = dr_mux d"
proof (induction es arbitrary: d)
  case (Cons e es)
  have "dispatch_event k src e d = Inr d1 \<Longrightarrow> dr_mux d1 = dr_mux d" for d1
    by (cases e) (auto split: option.splits if_splits)
  with Cons show ?case by (fastforce split: sum.splits)
qed simp

text \<open>
  The incoming loop passes on every error of the demultiplexer. On a protected channel a datagram the
  network repeats is such an error, so the second copy ends the driver.
\<close>

lemma duplicate_datagram_ends_driver:
  assumes ch: "mux_channels (dr_mux d) (announced raw) = Some ch" and p: "replay_protected (ch_protection ch)"
    and op: "raw \<noteq> []" "is_control_or_acknowledgment (from_wire (drop_bit 3 (hd raw)))"
  shows "\<exists>e. incoming_loop cr [(t1, raw, s1), (t2, raw, s2)] d = Inl e"
proof -
  obtain ch1 r1 where one: "ingest_link_packet cr t1 raw ch = (ch1, r1)" by fastforce
  let ?mux = "(dr_mux d)\<lparr>mux_channels := (mux_channels (dr_mux d))(announced raw \<mapsto> ch1)\<rparr>"
  have first: "mux_ingest cr t1 raw (dr_mux d) = (?mux, case r1 of Inl e \<Rightarrow> Inl (MuxChannel e)
      | Inr events \<Rightarrow> Inr \<lparr>routed_key_id = announced raw, routed_events = events\<rparr>)"
    using ch one op(1) by (simp add: mux_ingest_def mux_contains_def Let_def flip: announced_def)
  show ?thesis
  proof (cases r1)
    case (Inl e)
    then show ?thesis using first by simp
  next
    case (Inr events)
    obtain prot x where dec: "protection_decode cr t1 raw (ch_protection ch) = (prot, Inr x)" "ch_protection ch1 = prot"
      using one op Inr
      by (auto simp: ingest_link_packet_def ingest_packet_def Let_def split: prod.splits sum.splits if_splits bool.splits)
    obtain prot' e where "protection_decode cr t2 raw (ch_protection ch1) = (prot', Inl e)"
      using protection_decode_twice [OF p dec(1)] dec(2) by blast
    then have "ingest_link_packet cr t2 raw ch1 = (ch1\<lparr>ch_protection := prot'\<rparr>, Inl (ChannelProtection e))"
      using op by (simp add: ingest_link_packet_def Let_def)
    then have "\<exists>m. mux_ingest cr t2 raw ?mux = (m, Inl (MuxChannel (ChannelProtection e)))"
      using op(1) by (simp add: mux_ingest_def mux_contains_def Let_def flip: announced_def)
    then show ?thesis using first Inr dispatch_events_mux
      by (fastforce split: sum.split)
  qed
qed

text \<open>
  Data packets of a key without a channel are held back like control packets. When the key is
  registered later, the driver refuses the buffered data packet and takes the new channel down; any
  datagram with a data opcode will do, since nothing is authenticated before it is buffered.
\<close>

lemma buffered_data_fails_registration:
  assumes k: "\<not> mux_contains k (dr_mux d)" "mux_pending (dr_mux d) k = None" "ses_key_id (ch_session ch) = k" "k \<noteq> 0"
    and raw: "raw \<noteq> []" "announced raw = k" "from_wire (drop_bit 3 (hd raw)) = DataV1"
    and reset: "\<forall>p. reset = Some p \<longrightarrow> pkt_key_id p = k" and primary: "mux_primary_key_id (dr_mux d) \<noteq> k"
  shows "\<exists>d1 d2. incoming_loop cr [(t, raw, s)] d = Inr d1
    \<and> register_renegotiation_channel cr clock ch reset d1 = (d2, Inl UnexpectedBufferedEvent)
    \<and> \<not> mux_contains k (dr_mux d2)"
proof -
  obtain body where body: "raw = hd raw # body" using raw(1) by (cases raw) auto
  have "\<exists>p. parse raw = Inr p \<and> pkt_opcode p = DataV1"
    by (subst body) (simp add: parse_def parse_body_def raw(3) packet_new_def)
  then obtain p where p: "parse raw = Inr p" "pkt_opcode p = DataV1" by blast
  let ?mux = "(dr_mux d)\<lparr>mux_pending := (mux_pending (dr_mux d))(k \<mapsto> [raw])\<rparr>"
  let ?ch = "case reset of None \<Rightarrow> ch | Some p \<Rightarrow> seed_incoming_packet p ch"
  let ?mux2 = "(dr_mux d)\<lparr>mux_pending := (mux_pending (dr_mux d))(k := None), mux_channels := (mux_channels (dr_mux d))(k \<mapsto> ?ch)\<rparr>"
  have "mux_ingest cr t raw (dr_mux d) = (?mux, Inr \<lparr>routed_key_id = k, routed_events = []\<rparr>)"
    using k(1,2) raw by (simp add: mux_ingest_def buffer_packet_def MAXIMUM_PENDING_PACKETS_PER_KEY_STATE_def Let_def flip: announced_def)
  then have "incoming_loop cr [(t, raw, s)] d = Inr (d\<lparr>dr_mux := ?mux\<rparr>)" by simp
  moreover have "ingest_link_packet cr now raw c = (c, Inr [DataPacket p])" for now c
    using raw(1) by (simp add: ingest_link_packet_def raw(3) p ingest_packet_def is_control_or_acknowledgment_def Let_def)
  then have "install_channel cr clock k ?ch ?mux = (?mux2, Inr [DataPacket p])"
    by (simp add: install_channel_def stamped_def)
  then have "mux_register cr clock ch reset ?mux = (?mux2, Inr [DataPacket p])"
    using k reset by (cases reset) (auto simp: mux_register_def mux_contains_def Let_def)
  then have "register_renegotiation_channel cr clock ch reset (d\<lparr>dr_mux := ?mux\<rparr>) =
      (d\<lparr>dr_mux := fst (mux_unregister k ?mux2), dr_tls_writers := (dr_tls_writers d)(k := None)\<rparr>, Inl UnexpectedBufferedEvent)"
    using k(3) by (simp add: register_renegotiation_channel_def)
  moreover have "\<not> mux_contains k (fst (mux_unregister k ?mux2))" if "mux_primary_key_id (dr_mux d) \<noteq> k"
    using that by (simp add: mux_unregister_def mux_contains_def)
  ultimately show ?thesis using primary by auto
qed

text \<open>
  Registering a key that is alive replaces its writer before the demultiplexer refuses, and removes
  it afterwards: from then on the ciphertext of the living channel is dropped.
\<close>

lemma duplicate_registration_cuts_writer:
  assumes "mux_contains k (dr_mux d)" "ses_key_id (ch_session ch) = k" "k \<noteq> 0"
  shows "\<exists>d'. register_renegotiation_channel cr clock ch reset d = (d', Inl (ProtocolError (DuplicateKeyId k)))
    \<and> dr_mux d' = dr_mux d \<and> dispatch_event k source (TlsCiphertext ciphertext) d' = Inr d'"
  using assms by (simp add: register_renegotiation_channel_def mux_register_def Let_def)

text \<open>
  A renegotiation starts with \<open>new_session_protection\<close>: the same keys and a fresh packet-id counter
  with a newer time stamp. Its soft reset goes through the primary channel's replay window, which
  from then on refuses the primary channel's own packets.
\<close>

lemma newer_session_blocks_older:
  assumes match: "crypt_matching cr c d" and len: "9 \<le> length reset" "9 \<le> length raw"
    and old: "pid_timestamp (cy_send_state c) = t0" "t0 \<noteq> 0" "pid_next_id (cy_send_state c) \<noteq> - 1" "t0 < t1"
    and reset: "crypt_encode cr t1 reset (crypt_new_session_codec c) = (c1, out1)" "crypt_decode cr now1 out1 d = (d1, Inr x)"
    and later: "crypt_encode cr t2 raw c = (c2, out2)"
  shows "\<exists>d2. crypt_decode cr now2 out2 d1 = (d2, Inl ReplayedPacket)"
proof -
  have match1: "crypt_matching cr (crypt_new_session_codec c) d" using match by (simp add: crypt_matching_def crypt_new_session_codec_def)
  have send1: "cy_send_state c1 = \<lparr>pid_next_id = 1, pid_timestamp = max 0 t1\<rparr>"
    using tls_crypt.enc_numbers [OF len(1) reset(1)]
    by (simp add: crypt_new_session_codec_def packet_id_default_def next_packet_id_def Let_def)
  have "(cy_receive_state d1, True) = fresh_id (sent_key (cy_send_state c1)) now1 (cy_receive_state d)"
    using tls_crypt.dec_receive [OF match1 len(1) reset] by simp
  then have "ri_initialized (cy_receive_state d1) \<and> ri_highest_timestamp (cy_receive_state d1) = t1"
    by (auto simp: fresh_id_def sent_key_def send1 accept_long_form_at_def accept_locked_def initialize_def Let_def reap_fields
        split: if_splits)
  moreover have "sent_key (cy_send_state c2) = (t0, pid_next_id (cy_send_state c2))"
    using tls_crypt.enc_numbers [OF len(2) later] old by (simp add: sent_key_def next_packet_id_def Let_def)
  ultimately have "\<not> snd (fresh_id (sent_key (cy_send_state c2)) now2 (cy_receive_state d1))"
    using old(4) by (simp add: fresh_id_def accept_long_form_at_def)
  moreover have "crypt_matching cr c d1" using tls_crypt.dec_matching [OF match reset(2)] .
  then obtain others where "crypto_ok cr" "cy_receive_candidates d1 = cy_send c # others" by (auto simp: crypt_matching_def)
  ultimately show ?thesis using crypt_decode_encode [OF _ len(2) _ later, of d1 others now2] by (auto split: prod.splits)
qed

end
