(* ===== verification/Zay_Text.thy ===== *)
theory Zay_Text
  imports Zay_Prelude "HOL-Library.Sublist"
begin

text \<open>
  Text handling of the standard library that the routing code uses. A string is the list of its
  UTF-8 bytes, so \<open>len\<close> is the length of the list and all searched-for characters are ASCII.
  The second half is the text form of \<open>std::net::IpAddr\<close>: the parser behind \<open>str::parse\<close>
  (which reads greedily, bounds the digits of each group and accepts an embedded IPv4 tail) and the
  \<open>Display\<close> form (which compresses the first longest run of zero groups and prints IPv4-mapped
  addresses in dotted form).
\<close>

subsection \<open>Results\<close>

text \<open>The \<open>?\<close> operator, and \<open>collect::<Result<Vec<_>, _>>()\<close>, where the first error wins.\<close>

fun and_then :: "'e + 'a \<Rightarrow> ('a \<Rightarrow> 'e + 'b) \<Rightarrow> 'e + 'b" where
  "and_then (Inl e) f = Inl e"
| "and_then (Inr x) f = f x"

fun collect_results :: "('a \<Rightarrow> 'e + 'b) \<Rightarrow> 'a list \<Rightarrow> 'e + 'b list" where
  "collect_results f [] = Inr []"
| "collect_results f (x # xs) = and_then (f x) (\<lambda>y. and_then (collect_results f xs) (\<lambda>ys. Inr (y # ys)))"

lemma and_then_Inr: "and_then r f = Inr y \<longleftrightarrow> (\<exists>x. r = Inr x \<and> f x = Inr y)"
  by (cases r) auto

lemma collect_results_Inr:
  "collect_results f xs = Inr ys \<longleftrightarrow> list_all2 (\<lambda>x y. f x = Inr y) xs ys"
  by (induction xs arbitrary: ys) (auto simp: and_then_Inr list_all2_Cons1)

subsection \<open>Strings\<close>

definition trim_start_matches :: "char \<Rightarrow> string \<Rightarrow> string" where
  "trim_start_matches c s = dropWhile (\<lambda>x. x = c) s"

definition trim_end_matches :: "char \<Rightarrow> string \<Rightarrow> string" where
  "trim_end_matches c s = rev (dropWhile (\<lambda>x. x = c) (rev s))"

definition eq_ignore_ascii_case :: "string \<Rightarrow> string \<Rightarrow> bool" where
  "eq_ignore_ascii_case a b \<longleftrightarrow> to_ascii_lowercase a = to_ascii_lowercase b"

definition str_contains :: "string \<Rightarrow> string \<Rightarrow> bool" where
  "str_contains hay needle \<longleftrightarrow> list_ex (prefix needle) (suffixes hay)"

definition strip_prefix :: "'a list \<Rightarrow> 'a list \<Rightarrow> 'a list option" where
  "strip_prefix p s = (if prefix p s then Some (drop (length p) s) else None)"

definition strip_suffix :: "'a list \<Rightarrow> 'a list \<Rightarrow> 'a list option" where
  "strip_suffix p s = (if suffix p s then Some (take (length s - length p) s) else None)"

fun split_on :: "'a \<Rightarrow> 'a list \<Rightarrow> 'a list list" where
  "split_on c [] = [[]]"
| "split_on c (x # xs) =
     (if x = c then [] # split_on c xs
      else case split_on c xs of [] \<Rightarrow> [[x]] | g # gs \<Rightarrow> (x # g) # gs)"

fun join_with :: "'a list \<Rightarrow> 'a list list \<Rightarrow> 'a list" where
  "join_with sep [] = []"
| "join_with sep [g] = g"
| "join_with sep (g # gs) = g @ sep @ join_with sep gs"

text \<open>\<open>chunks_exact(2)\<close>: whole pairs only.\<close>

fun chunks_exact2 :: "'a list \<Rightarrow> 'a list list" where
  "chunks_exact2 (a # b # xs) = [a, b] # chunks_exact2 xs"
| "chunks_exact2 _ = []"

lemma to_lower_idem [simp]: "ascii_lower (ascii_lower c) = ascii_lower c"
  by (auto simp: ascii_lower_def Let_def)

lemma lowercase_idem [simp]: "to_ascii_lowercase (to_ascii_lowercase s) = to_ascii_lowercase s"
  by (simp add: to_ascii_lowercase_def comp_def)

lemma lower_dot [simp]: "ascii_lower c = CHR ''.'' \<longleftrightarrow> c = CHR ''.''"
proof
  assume "ascii_lower c = CHR ''.''"
  then show "c = CHR ''.''"
    by (cases "65 \<le> (of_char c :: nat) \<and> (of_char c :: nat) \<le> 90")
      (auto simp: ascii_lower_def Let_def dest: arg_cong [where f = "of_char :: char \<Rightarrow> nat"])
qed (simp add: ascii_lower_def)

lemma str_contains_iff: "str_contains hay needle \<longleftrightarrow> sublist needle hay"
  by (auto simp: str_contains_def list_ex_iff sublist_altdef')

lemma strip_suffix_iff: "strip_suffix p s = Some r \<longleftrightarrow> s = r @ p"
  by (auto simp: strip_suffix_def suffix_def)

lemma split_on_ne [simp]: "split_on c s \<noteq> []"
  by (induction s) (auto split: list.splits)

lemma join_split: "join_with [c] (split_on c s) = s"
proof (induction s)
  case (Cons x xs)
  obtain g gs where g: "split_on c xs = g # gs" by (cases "split_on c xs") auto
  with Cons show ?case by (cases gs) auto
qed simp

subsection \<open>Numbers in text\<close>

definition digit_value :: "nat \<Rightarrow> char \<Rightarrow> nat option" where
  "digit_value radix c =
     (let n = of_char c :: nat;
          d = (if 48 \<le> n \<and> n \<le> 57 then Some (n - 48)
               else if 97 \<le> n \<and> n \<le> 122 then Some (n - 87)
               else if 65 \<le> n \<and> n \<le> 90 then Some (n - 55) else None)
      in case d of None \<Rightarrow> None | Some v \<Rightarrow> if v < radix then Some v else None)"

definition is_digit :: "nat \<Rightarrow> char \<Rightarrow> bool" where
  "is_digit radix c \<longleftrightarrow> digit_value radix c \<noteq> None"

definition digits_value :: "nat \<Rightarrow> string \<Rightarrow> nat" where
  "digits_value radix s = foldl (\<lambda>n c. n * radix + the (digit_value radix c)) 0 s"

text \<open>\<open>u8::from_str_radix(s, 16)\<close>: an optional plus sign, then hexadecimal digits.\<close>

definition u8_from_hex :: "string \<Rightarrow> u8 option" where
  "u8_from_hex s =
     (let ds = (case s of c # d # r \<Rightarrow> if c = CHR ''+'' then d # r else s | _ \<Rightarrow> s)
      in if ds \<noteq> [] \<and> list_all (is_digit 16) ds \<and> digits_value 16 ds < 256
         then Some (of_nat (digits_value 16 ds)) else None)"

text \<open>\<open>str::parse::<u16>()\<close>: an optional plus sign, then decimal digits.\<close>

definition parse_u16 :: "string \<Rightarrow> u16 option" where
  "parse_u16 s =
     (let ds = (case s of c # d # r \<Rightarrow> if c = CHR ''+'' then d # r else s | _ \<Rightarrow> s)
      in if ds \<noteq> [] \<and> list_all (is_digit 10) ds \<and> digits_value 10 ds < 65536
         then Some (of_nat (digits_value 10 ds)) else None)"

definition digit_char :: "nat \<Rightarrow> char" where
  "digit_char d = char_of (if d < 10 then 48 + d else 87 + d)"

function radix_string :: "nat \<Rightarrow> nat \<Rightarrow> string" where
  "radix_string b n = (if b < 2 \<or> n < b then [digit_char n] else radix_string b (n div b) @ [digit_char (n mod b)])"
  by auto
termination
  by (relation "measure snd") auto

declare radix_string.simps [simp del]

subsection \<open>The text form of IP addresses\<close>

definition read_number :: "nat \<Rightarrow> nat \<Rightarrow> bool \<Rightarrow> nat \<Rightarrow> string \<Rightarrow> (nat \<times> string) option" where
  "read_number radix max_digits allow_zero_prefix bound s =
     (let ds = takeWhile (is_digit radix) s
      in if ds = [] \<or> max_digits < length ds then None
         else if \<not> allow_zero_prefix \<and> hd ds = CHR ''0'' \<and> 1 < length ds then None
         else if digits_value radix ds < bound
         then Some (digits_value radix ds, dropWhile (is_digit radix) s) else None)"

definition read_separator :: "char \<Rightarrow> bool \<Rightarrow> (string \<Rightarrow> ('a \<times> string) option) \<Rightarrow> string \<Rightarrow> ('a \<times> string) option" where
  "read_separator sep first inner s =
     (if first then inner s
      else case s of [] \<Rightarrow> None | c # r \<Rightarrow> if c = sep then inner r else None)"

fun read_octets :: "nat \<Rightarrow> bool \<Rightarrow> string \<Rightarrow> (nat list \<times> string) option" where
  "read_octets 0 first s = Some ([], s)"
| "read_octets (Suc n) first s =
     (case read_separator CHR ''.'' first (read_number 10 3 False 256) s of
        None \<Rightarrow> None
      | Some (o1, s1) \<Rightarrow>
          (case read_octets n False s1 of None \<Rightarrow> None | Some (os, s2) \<Rightarrow> Some (o1 # os, s2)))"

definition read_ipv4_addr :: "string \<Rightarrow> (nat list \<times> string) option" where
  "read_ipv4_addr s = read_octets 4 True s"

fun read_groups :: "nat \<Rightarrow> bool \<Rightarrow> string \<Rightarrow> nat list \<times> bool \<times> string" where
  "read_groups 0 first s = ([], False, s)"
| "read_groups (Suc r) first s =
     (case (if 1 \<le> r then read_separator CHR '':'' first read_ipv4_addr s else None) of
        Some (os, s') \<Rightarrow> ([os ! 0 * 256 + os ! 1, os ! 2 * 256 + os ! 3], True, s')
      | None \<Rightarrow>
          (case read_separator CHR '':'' first (read_number 16 4 True 65536) s of
             None \<Rightarrow> ([], False, s)
           | Some (g, s') \<Rightarrow>
               (case read_groups r False s' of (gs, v4, s'') \<Rightarrow> (g # gs, v4, s''))))"

definition read_ipv6_addr :: "string \<Rightarrow> (nat list \<times> string) option" where
  "read_ipv6_addr s =
     (case read_groups 8 True s of (h, head_ipv4, s1) \<Rightarrow>
        if length h = 8 then Some (h, s1)
        else if head_ipv4 then None
        else case s1 of
               c # d # s2 \<Rightarrow>
                 if c = CHR '':'' \<and> d = CHR '':''
                 then (case read_groups (8 - (length h + 1)) True s2 of (t, _, s3) \<Rightarrow>
                         Some (h @ replicate (8 - length h - length t) 0 @ t, s3))
                 else None
             | _ \<Rightarrow> None)"

definition of_digits :: "nat \<Rightarrow> nat list \<Rightarrow> nat" where
  "of_digits b ds = foldl (\<lambda>n d. n * b + d) 0 ds"

definition parse_ip :: "string \<Rightarrow> ip_addr option" where
  "parse_ip s =
     (case read_ipv4_addr s of
        Some (os, r) \<Rightarrow> if r = [] then Some (V4 (of_nat (of_digits 256 os))) else None
      | None \<Rightarrow>
          (case read_ipv6_addr s of
             Some (gs, r) \<Rightarrow> if r = [] then Some (V6 (of_nat (of_digits 65536 gs))) else None
           | None \<Rightarrow> None))"

definition ipv4_octets :: "u32 \<Rightarrow> nat list" where
  "ipv4_octets a = map (\<lambda>k. unat (drop_bit (8 * k) a) mod 256) [3, 2, 1, 0]"

definition ipv6_segments :: "u128 \<Rightarrow> nat list" where
  "ipv6_segments a = map (\<lambda>k. unat (drop_bit (16 * k) a) mod 65536) [7, 6, 5, 4, 3, 2, 1, 0]"

definition ipv4_to_string :: "u32 \<Rightarrow> string" where
  "ipv4_to_string a = join_with ''.'' (map (radix_string 10) (ipv4_octets a))"

definition to_ipv4_mapped :: "u128 \<Rightarrow> u32 option" where
  "to_ipv4_mapped a = (if drop_bit 32 a = 0xffff then Some (ucast a) else None)"

text \<open>The first longest run of zero segments, as start and length.\<close>

fun longest_zeros :: "nat \<Rightarrow> nat \<times> nat \<Rightarrow> nat \<times> nat \<Rightarrow> nat list \<Rightarrow> nat \<times> nat" where
  "longest_zeros i current longest [] = longest"
| "longest_zeros i current longest (g # gs) =
     (if g = 0
      then let start = (if snd current = 0 then i else fst current);
               current' = (start, Suc (snd current))
           in longest_zeros (Suc i) current' (if snd current' > snd longest then current' else longest) gs
      else longest_zeros (Suc i) (0, 0) longest gs)"

definition ipv6_to_string :: "u128 \<Rightarrow> string" where
  "ipv6_to_string a =
     (case to_ipv4_mapped a of
        Some v4 \<Rightarrow> ''::ffff:'' @ ipv4_to_string v4
      | None \<Rightarrow>
          (let gs = ipv6_segments a; run = longest_zeros 0 (0, 0) (0, 0) gs;
               show_groups = (\<lambda>xs. join_with '':'' (map (radix_string 16) xs))
           in if snd run > 1
              then show_groups (take (fst run) gs) @ ''::'' @ show_groups (drop (fst run + snd run) gs)
              else show_groups gs))"

fun ip_to_string :: "ip_addr \<Rightarrow> string" where
  "ip_to_string (V4 a) = ipv4_to_string a"
| "ip_to_string (V6 a) = ipv6_to_string a"

end
