(* ===== verification/Ovpn_Data_Codec.thy ===== *)
theory Ovpn_Data_Codec
  imports Ovpn_Wrap Zay_Text
begin

text \<open>
  The ciphers of the OpenVPN data channel (\<open>protocol/openvpn/data.rs\<close>, \<open>data_aead.rs\<close>, \<open>data_cbc.rs\<close>,
  \<open>data_stream.rs\<close>, \<open>data_static.rs\<close> and the cipher tables of \<open>data_crypto.rs\<close>): the four codecs
  behind the trait \<open>OpenVpnDataCodec\<close> with their key slots, wire layouts and replay windows.

  The block ciphers, their modes and the AEAD constructions belong to other crates and are the
  fields of \<open>data_crypto\<close>; \<open>data_crypto_ok\<close> states what their documentation promises. \<open>getrandom\<close>
  is the argument \<open>random\<close>, which maps a number of bytes to the bytes or to a failure; clock
  readings are arguments.
\<close>

subsection \<open>Ciphers\<close>

datatype data_codec_error =
    InvalidKeyMaterial | UnsupportedCipher string | UnsupportedAuth string | InvalidPacketId
  | InvalidAeadPayload | AuthenticationFailed | HmacVerificationFailed | InvalidEncryptedPayload
  | InvalidPadding | RandomFailed | ReplayedPacket

datatype aead_cipher = Aes128Gcm | Aes192Gcm | Aes256Gcm | ChaCha20Poly1305

datatype cbc_cipher =
    NoCipher | Blowfish | Des | TripleDesEde2 | TripleDesEde3 | Cast5 | Aes128 | Aes192 | Aes256
  | Aria128 | Aria192 | Aria256 | Camellia128 | Camellia192 | Camellia256 | Seed | Sm4

datatype stream_mode = Cfb | Ofb

text \<open>
  The primitives: \<open>None\<close> is an error of the crate (a key or an initialisation vector of the wrong
  size when encrypting, a message that does not authenticate or unpad when decrypting).
\<close>

record data_crypto =
  dc_mac :: crypto
  aead_encrypt :: "aead_cipher \<Rightarrow> bytes \<Rightarrow> bytes \<Rightarrow> bytes \<Rightarrow> bytes \<Rightarrow> bytes option"
  aead_decrypt :: "aead_cipher \<Rightarrow> bytes \<Rightarrow> bytes \<Rightarrow> bytes \<Rightarrow> bytes \<Rightarrow> bytes option"
  block_init :: "cbc_cipher \<Rightarrow> bytes \<Rightarrow> bytes \<Rightarrow> bool"
  cbc_encrypt :: "cbc_cipher \<Rightarrow> bytes \<Rightarrow> bytes \<Rightarrow> bytes \<Rightarrow> bytes"
  cbc_decrypt :: "cbc_cipher \<Rightarrow> bytes \<Rightarrow> bytes \<Rightarrow> bytes \<Rightarrow> bytes option"
  stream_crypt :: "stream_mode \<Rightarrow> cbc_cipher \<Rightarrow> bytes \<Rightarrow> bytes \<Rightarrow> bytes \<Rightarrow> bool \<Rightarrow> bytes"

definition from_name :: "string \<Rightarrow> data_codec_error + cbc_cipher" where
  "from_name name =
     (if name = ''NONE'' then Inr NoCipher
      else if name = ''BF-CBC'' then Inr Blowfish
      else if name = ''DES-CBC'' then Inr Des
      else if name = ''DES-EDE-CBC'' then Inr TripleDesEde2
      else if name = ''DES-EDE3-CBC'' then Inr TripleDesEde3
      else if name = ''CAST5-CBC'' then Inr Cast5
      else if name = ''AES-128-CBC'' then Inr Aes128
      else if name = ''AES-192-CBC'' then Inr Aes192
      else if name = ''AES-256-CBC'' then Inr Aes256
      else if name = ''ARIA-128-CBC'' then Inr Aria128
      else if name = ''ARIA-192-CBC'' then Inr Aria192
      else if name = ''ARIA-256-CBC'' then Inr Aria256
      else if name = ''CAMELLIA-128-CBC'' then Inr Camellia128
      else if name = ''CAMELLIA-192-CBC'' then Inr Camellia192
      else if name = ''CAMELLIA-256-CBC'' then Inr Camellia256
      else if name = ''SEED-CBC'' then Inr Seed
      else if name = ''SM4-CBC'' then Inr Sm4
      else Inl (UnsupportedCipher name))"

fun key_size :: "cbc_cipher \<Rightarrow> nat" where
  "key_size NoCipher = 0"
| "key_size Des = 8"
| "key_size Blowfish = 16"
| "key_size TripleDesEde2 = 16"
| "key_size Cast5 = 16"
| "key_size Aes128 = 16"
| "key_size Aria128 = 16"
| "key_size Camellia128 = 16"
| "key_size Seed = 16"
| "key_size Sm4 = 16"
| "key_size TripleDesEde3 = 24"
| "key_size Aes192 = 24"
| "key_size Aria192 = 24"
| "key_size Camellia192 = 24"
| "key_size Aes256 = 32"
| "key_size Aria256 = 32"
| "key_size Camellia256 = 32"

definition block_size :: "cbc_cipher \<Rightarrow> nat" where
  "block_size c =
     (if c = NoCipher then 0
      else if c \<in> {Blowfish, Des, TripleDesEde2, TripleDesEde3, Cast5} then 8
      else 16)"

definition cipher_encrypt :: "data_crypto \<Rightarrow> cbc_cipher \<Rightarrow> bytes \<Rightarrow> bytes \<Rightarrow> bytes \<Rightarrow> data_codec_error + bytes" where
  "cipher_encrypt cr c key iv plaintext =
     (if c = NoCipher then Inr plaintext
      else if \<not> block_init cr c (take (key_size c) key) iv then Inl InvalidKeyMaterial
      else Inr (cbc_encrypt cr c (take (key_size c) key) iv plaintext))"

definition cipher_decrypt :: "data_crypto \<Rightarrow> cbc_cipher \<Rightarrow> bytes \<Rightarrow> bytes \<Rightarrow> bytes \<Rightarrow> data_codec_error + bytes" where
  "cipher_decrypt cr c key iv ciphertext =
     (if c = NoCipher then Inr ciphertext
      else if \<not> block_init cr c (take (key_size c) key) iv then Inl InvalidKeyMaterial
      else case cbc_decrypt cr c (take (key_size c) key) iv ciphertext of
             None \<Rightarrow> Inl InvalidPadding
           | Some plaintext \<Rightarrow> Inr plaintext)"

definition crypt_stream :: "data_crypto \<Rightarrow> cbc_cipher \<Rightarrow> stream_mode \<Rightarrow> bytes \<Rightarrow> bytes \<Rightarrow> bytes \<Rightarrow> bool \<Rightarrow> data_codec_error + bytes" where
  "crypt_stream cr c mode key iv payload encrypting =
     (if c = NoCipher then Inl (UnsupportedCipher ''NONE stream mode'')
      else if \<not> block_init cr c (take (key_size c) key) iv then Inl InvalidKeyMaterial
      else Inr (stream_crypt cr mode c (take (key_size c) key) iv payload encrypting))"

definition openvpn_stream_cipher_spec :: "string \<Rightarrow> data_codec_error + stream_mode \<times> cbc_cipher" where
  "openvpn_stream_cipher_spec name =
     (case (case strip_suffix ''-CFB'' name of
              Some base \<Rightarrow> Some (base, Cfb)
            | None \<Rightarrow> (case strip_suffix ''-OFB'' name of Some base \<Rightarrow> Some (base, Ofb) | None \<Rightarrow> None)) of
        None \<Rightarrow> Inl (UnsupportedCipher name)
      | Some (base, mode) \<Rightarrow>
          (case from_name (base @ ''-CBC'') of
             Inl e \<Rightarrow> Inl e
           | Inr cipher \<Rightarrow> if cipher = NoCipher then Inl (UnsupportedCipher name) else Inr (mode, cipher)))"

definition auth_of_name :: "string \<Rightarrow> data_codec_error + auth_digest" where
  "auth_of_name name = (case auth_from_name name of None \<Rightarrow> Inl (UnsupportedAuth name) | Some d \<Rightarrow> Inr d)"

subsection \<open>Key slots and replay parameters\<close>

definition tls_data_key_slots :: "static_key_slot \<times> static_key_slot \<Rightarrow> bool \<Rightarrow> static_key_slot \<times> static_key_slot" where
  "tls_data_key_slots slots server = (if server then (snd slots, fst slots) else slots)"

definition DEFAULT_REPLAY_WINDOW_SIZE :: u32 where "DEFAULT_REPLAY_WINDOW_SIZE = 64"
definition DEFAULT_REPLAY_WINDOW_TIME :: duration where "DEFAULT_REPLAY_WINDOW_TIME = secs 15"

definition data_replay_window_parameters :: "u32 \<Rightarrow> duration \<Rightarrow> replay_window" where
  "data_replay_window_parameters window_size window_time =
     \<lparr>rw_window_size = (if window_size = 0 then DEFAULT_REPLAY_WINDOW_SIZE else window_size),
      rw_time_window = (if window_time = 0 then DEFAULT_REPLAY_WINDOW_TIME else window_time)\<rparr>"

subsection \<open>The AEAD codec\<close>

definition AEAD_TAG_SIZE :: nat where "AEAD_TAG_SIZE = 16"
definition PACKET_ID_SIZE :: nat where "PACKET_ID_SIZE = 4"
definition AEAD_OVERHEAD :: nat where "AEAD_OVERHEAD = PACKET_ID_SIZE + AEAD_TAG_SIZE"

lemmas aead_consts = AEAD_TAG_SIZE_def PACKET_ID_SIZE_def AEAD_OVERHEAD_def

text \<open>\<open>AeadCipher\<close> is the algorithm with its key.\<close>

definition aead_cipher_new :: "string \<Rightarrow> bytes \<Rightarrow> data_codec_error + aead_cipher \<times> bytes" where
  "aead_cipher_new name key_material =
     (if name = ''AES-128-GCM'' then Inr (Aes128Gcm, take 16 key_material)
      else if name = ''AES-192-GCM'' then Inr (Aes192Gcm, take 24 key_material)
      else if name = ''AES-256-GCM'' then Inr (Aes256Gcm, take 32 key_material)
      else if name = ''CHACHA20-POLY1305'' then Inr (ChaCha20Poly1305, take 32 key_material)
      else Inl (UnsupportedCipher name))"

record tls_aead_codec =
  ae_send_cipher :: "aead_cipher \<times> bytes"
  ae_send_iv_suffix :: bytes
  ae_receive_cipher :: "aead_cipher \<times> bytes"
  ae_receive_iv_suffix :: bytes
  ae_window :: replay_window
  ae_replay :: replay_inner

definition aead_new :: "bytes \<Rightarrow> bool \<Rightarrow> string \<Rightarrow> u32 \<Rightarrow> duration \<Rightarrow> data_codec_error + tls_aead_codec" where
  "aead_new key_material server cipher_name window_size window_time =
     (case split_static_key_material key_material of
        None \<Rightarrow> Inl InvalidKeyMaterial
      | Some slots \<Rightarrow>
          (case tls_data_key_slots slots server of (send_slot, receive_slot) \<Rightarrow>
            let W = data_replay_window_parameters window_size window_time
            in case aead_cipher_new cipher_name (cipher_key send_slot) of
                 Inl e \<Rightarrow> Inl e
               | Inr send_cipher \<Rightarrow>
                   (case aead_cipher_new cipher_name (cipher_key receive_slot) of
                      Inl e \<Rightarrow> Inl e
                    | Inr receive_cipher \<Rightarrow>
                        Inr \<lparr>ae_send_cipher = send_cipher, ae_send_iv_suffix = take 8 (hmac_key send_slot),
                             ae_receive_cipher = receive_cipher, ae_receive_iv_suffix = take 8 (hmac_key receive_slot),
                             ae_window = W, ae_replay = replay_new W\<rparr>)))"

definition aead_nonce :: "u32 \<Rightarrow> bytes \<Rightarrow> bytes" where
  "aead_nonce packet_id iv_suffix = be32 packet_id @ iv_suffix"

definition aead_aad :: "bytes \<Rightarrow> bytes \<Rightarrow> bytes" where
  "aead_aad aad_prefix packet_id = aad_prefix @ packet_id"

definition aead_encoded_length :: "nat \<Rightarrow> nat" where
  "aead_encoded_length payload_length = AEAD_OVERHEAD + payload_length"

definition aead_encode :: "data_crypto \<Rightarrow> u32 \<Rightarrow> bytes \<Rightarrow> bytes \<Rightarrow> tls_aead_codec \<Rightarrow> data_codec_error + bytes" where
  "aead_encode cr packet_id aad_prefix payload c =
     (if packet_id = 0 then Inl InvalidPacketId
      else
        let nonce = aead_nonce packet_id (ae_send_iv_suffix c);
            aad = aead_aad aad_prefix (be32 packet_id);
            (alg, key) = ae_send_cipher c
        in case aead_encrypt cr alg key nonce aad payload of
             None \<Rightarrow> Inl AuthenticationFailed
           | Some sealed \<Rightarrow>
               if length sealed < AEAD_TAG_SIZE then Inl InvalidAeadPayload
               else let encrypted_length = length sealed - AEAD_TAG_SIZE
                    in Inr (be32 packet_id @ drop encrypted_length sealed @ take encrypted_length sealed))"

definition aead_decode ::
  "data_crypto \<Rightarrow> instant \<Rightarrow> bytes \<Rightarrow> bytes \<Rightarrow> tls_aead_codec \<Rightarrow> tls_aead_codec \<times> (data_codec_error + u32 \<times> bytes)" where
  "aead_decode cr now aad_prefix payload c =
     (if length payload < AEAD_OVERHEAD then (c, Inl InvalidAeadPayload)
      else
        let packet_id = of_be32 (take 4 payload);
            tag = slice 4 AEAD_OVERHEAD payload;
            encrypted = drop AEAD_OVERHEAD payload;
            nonce = aead_nonce packet_id (ae_receive_iv_suffix c);
            aad = aead_aad aad_prefix (take 4 payload);
            (alg, key) = ae_receive_cipher c
        in case aead_decrypt cr alg key nonce aad (encrypted @ tag) of
             None \<Rightarrow> (c, Inl AuthenticationFailed)
           | Some plaintext \<Rightarrow>
               (case accept_at (ae_window c) packet_id now (ae_replay c) of
                  (replay, accepted) \<Rightarrow>
                    (c\<lparr>ae_replay := replay\<rparr>, if accepted then Inr (packet_id, plaintext) else Inl ReplayedPacket)))"

subsection \<open>The block-cipher codec\<close>

text \<open>
  The layout both block-cipher codecs share: the authentication code over the protected part, which
  is the initialisation vector with the ciphertext, or the plaintext under the cipher \<open>NONE\<close>.
\<close>

definition seal :: "data_crypto \<Rightarrow> cbc_cipher \<Rightarrow> auth_digest \<Rightarrow> bytes \<Rightarrow> bytes \<Rightarrow> bytes \<Rightarrow> bytes \<Rightarrow> data_codec_error + bytes" where
  "seal cr cipher auth ckey hkey iv plaintext =
     (case (if cipher = NoCipher then Inr plaintext
            else case cipher_encrypt cr cipher ckey iv plaintext of
                   Inl e \<Rightarrow> Inl e
                 | Inr ciphertext \<Rightarrow> Inr (iv @ ciphertext)) of
        Inl e \<Rightarrow> Inl e
      | Inr protected \<Rightarrow> Inr (sign (dc_mac cr) auth hkey protected @ protected))"

definition unseal :: "data_crypto \<Rightarrow> cbc_cipher \<Rightarrow> auth_digest \<Rightarrow> bytes \<Rightarrow> bytes \<Rightarrow> bytes \<Rightarrow> data_codec_error + bytes" where
  "unseal cr cipher auth ckey hkey payload =
     (let hmac_size = output_size auth
      in if length payload < hmac_size then Inl InvalidEncryptedPayload
         else
           let received_hmac = take hmac_size payload; protected = drop hmac_size payload
           in if \<not> verify (dc_mac cr) auth hkey protected received_hmac then Inl HmacVerificationFailed
              else if cipher = NoCipher then Inr protected
              else if length protected < block_size cipher * 2 \<or> length protected mod block_size cipher \<noteq> 0
              then Inl InvalidEncryptedPayload
              else cipher_decrypt cr cipher ckey (take (block_size cipher) protected) (drop (block_size cipher) protected))"

definition sealed_length :: "cbc_cipher \<Rightarrow> auth_digest \<Rightarrow> nat \<Rightarrow> nat" where
  "sealed_length cipher auth plaintext_length =
     output_size auth +
     (if block_size cipher = 0 then plaintext_length
      else block_size cipher + (plaintext_length div block_size cipher + 1) * block_size cipher)"

record tls_cbc_codec =
  cb_send_cipher :: cbc_cipher
  cb_send_cipher_key :: bytes
  cb_send_hmac_key :: bytes
  cb_receive_cipher :: cbc_cipher
  cb_receive_cipher_key :: bytes
  cb_receive_hmac_key :: bytes
  cb_auth :: auth_digest
  cb_window :: replay_window
  cb_replay :: replay_inner

definition cbc_new :: "bytes \<Rightarrow> bool \<Rightarrow> string \<Rightarrow> string \<Rightarrow> u32 \<Rightarrow> duration \<Rightarrow> data_codec_error + tls_cbc_codec" where
  "cbc_new key_material server cipher_name auth_name window_size window_time =
     (case split_static_key_material key_material of
        None \<Rightarrow> Inl InvalidKeyMaterial
      | Some slots \<Rightarrow>
          (case tls_data_key_slots slots server of (send_slot, receive_slot) \<Rightarrow>
            (case from_name cipher_name of
               Inl e \<Rightarrow> Inl e
             | Inr cipher \<Rightarrow>
                 (case auth_of_name auth_name of
                    Inl e \<Rightarrow> Inl e
                  | Inr auth \<Rightarrow>
                      let W = data_replay_window_parameters window_size window_time
                      in Inr \<lparr>cb_send_cipher = cipher, cb_send_cipher_key = take (key_size cipher) (cipher_key send_slot),
                           cb_send_hmac_key = take (output_size auth) (hmac_key send_slot),
                           cb_receive_cipher = cipher, cb_receive_cipher_key = take (key_size cipher) (cipher_key receive_slot),
                           cb_receive_hmac_key = take (output_size auth) (hmac_key receive_slot),
                           cb_auth = auth, cb_window = W, cb_replay = replay_new W\<rparr>))))"

definition cbc_encode_with_iv :: "data_crypto \<Rightarrow> u32 \<Rightarrow> bytes \<Rightarrow> bytes \<Rightarrow> tls_cbc_codec \<Rightarrow> data_codec_error + bytes" where
  "cbc_encode_with_iv cr packet_id payload iv c =
     (if packet_id = 0 then Inl InvalidPacketId
      else seal cr (cb_send_cipher c) (cb_auth c) (cb_send_cipher_key c) (cb_send_hmac_key c) iv (be32 packet_id @ payload))"

definition cbc_encoded_length :: "tls_cbc_codec \<Rightarrow> nat \<Rightarrow> nat" where
  "cbc_encoded_length c payload_length = sealed_length (cb_send_cipher c) (cb_auth c) (4 + payload_length)"

definition cbc_encode ::
  "data_crypto \<Rightarrow> (nat \<Rightarrow> bytes option) \<Rightarrow> u32 \<Rightarrow> bytes \<Rightarrow> tls_cbc_codec \<Rightarrow> data_codec_error + bytes" where
  "cbc_encode cr random packet_id payload c =
     (case random (block_size (cb_send_cipher c)) of
        None \<Rightarrow> Inl RandomFailed
      | Some iv \<Rightarrow> cbc_encode_with_iv cr packet_id payload iv c)"

definition cbc_decode ::
  "data_crypto \<Rightarrow> instant \<Rightarrow> bytes \<Rightarrow> tls_cbc_codec \<Rightarrow> tls_cbc_codec \<times> (data_codec_error + u32 \<times> bytes)" where
  "cbc_decode cr now payload c =
     (case unseal cr (cb_receive_cipher c) (cb_auth c) (cb_receive_cipher_key c) (cb_receive_hmac_key c) payload of
        Inl e \<Rightarrow> (c, Inl e)
      | Inr plaintext \<Rightarrow>
          if length plaintext < 4 then (c, Inl InvalidEncryptedPayload)
          else
            let packet_id = of_be32 (take 4 plaintext)
            in case accept_at (cb_window c) packet_id now (cb_replay c) of
                 (replay, accepted) \<Rightarrow>
                   (c\<lparr>cb_replay := replay\<rparr>, if accepted then Inr (packet_id, drop 4 plaintext) else Inl ReplayedPacket))"

subsection \<open>The stream-mode codec\<close>

record tls_stream_codec =
  sr_mode :: stream_mode
  sr_send_cipher :: cbc_cipher
  sr_send_cipher_key :: bytes
  sr_send_hmac_key :: bytes
  sr_receive_cipher :: cbc_cipher
  sr_receive_cipher_key :: bytes
  sr_receive_hmac_key :: bytes
  sr_auth :: auth_digest
  sr_send_timestamp :: u32
  sr_window :: replay_window
  sr_replay :: replay_inner

definition stream_new_at ::
  "bytes \<Rightarrow> bool \<Rightarrow> string \<Rightarrow> string \<Rightarrow> u32 \<Rightarrow> duration \<Rightarrow> u32 \<Rightarrow> data_codec_error + tls_stream_codec" where
  "stream_new_at key_material server cipher_name auth_name window_size window_time send_timestamp =
     (case split_static_key_material key_material of
        None \<Rightarrow> Inl InvalidKeyMaterial
      | Some slots \<Rightarrow>
          (case tls_data_key_slots slots server of (send_slot, receive_slot) \<Rightarrow>
            (case openvpn_stream_cipher_spec cipher_name of
               Inl e \<Rightarrow> Inl e
             | Inr (mode, cipher) \<Rightarrow>
                 (case auth_of_name auth_name of
                    Inl e \<Rightarrow> Inl e
                  | Inr auth \<Rightarrow>
                      let W = data_replay_window_parameters window_size window_time
                      in Inr \<lparr>sr_mode = mode, sr_send_cipher = cipher,
                           sr_send_cipher_key = take (key_size cipher) (cipher_key send_slot),
                           sr_send_hmac_key = take (output_size auth) (hmac_key send_slot),
                           sr_receive_cipher = cipher, sr_receive_cipher_key = take (key_size cipher) (cipher_key receive_slot),
                           sr_receive_hmac_key = take (output_size auth) (hmac_key receive_slot),
                           sr_auth = auth, sr_send_timestamp = send_timestamp, sr_window = W, sr_replay = replay_new W\<rparr>))))"

definition stream_encoded_length :: "tls_stream_codec \<Rightarrow> nat \<Rightarrow> nat" where
  "stream_encoded_length c payload_length = output_size (sr_auth c) + block_size (sr_send_cipher c) + payload_length"

definition stream_encode :: "data_crypto \<Rightarrow> u32 \<Rightarrow> bytes \<Rightarrow> tls_stream_codec \<Rightarrow> data_codec_error + bytes" where
  "stream_encode cr packet_id payload c =
     (if packet_id = 0 then Inl InvalidPacketId
      else
        let iv = be32 packet_id @ be32 (sr_send_timestamp c) @ replicate (block_size (sr_send_cipher c) - 8) 0
        in case crypt_stream cr (sr_send_cipher c) (sr_mode c) (sr_send_cipher_key c) iv payload True of
             Inl e \<Rightarrow> Inl e
           | Inr ciphertext \<Rightarrow> Inr (sign (dc_mac cr) (sr_auth c) (sr_send_hmac_key c) (iv @ ciphertext) @ iv @ ciphertext))"

definition stream_decode ::
  "data_crypto \<Rightarrow> instant \<Rightarrow> bytes \<Rightarrow> tls_stream_codec \<Rightarrow> tls_stream_codec \<times> (data_codec_error + u32 \<times> bytes)" where
  "stream_decode cr now payload c =
     (let hmac_size = output_size (sr_auth c)
      in if length payload < hmac_size then (c, Inl InvalidEncryptedPayload)
         else
           let received_hmac = take hmac_size payload; protected = drop hmac_size payload;
               block = block_size (sr_receive_cipher c)
           in if \<not> verify (dc_mac cr) (sr_auth c) (sr_receive_hmac_key c) protected received_hmac
              then (c, Inl HmacVerificationFailed)
              else if length protected \<le> block then (c, Inl InvalidEncryptedPayload)
              else
                let iv = take block protected; ciphertext = drop block protected;
                    packet_id = of_be32 (take 4 iv); timestamp = of_be32 (slice 4 8 iv)
                in case crypt_stream cr (sr_receive_cipher c) (sr_mode c) (sr_receive_cipher_key c) iv ciphertext False of
                     Inl e \<Rightarrow> (c, Inl e)
                   | Inr plaintext \<Rightarrow>
                       (case accept_long_form_at (sr_window c) packet_id timestamp now (sr_replay c) of
                          (replay, accepted) \<Rightarrow>
                            (c\<lparr>sr_replay := replay\<rparr>, if accepted then Inr (packet_id, plaintext) else Inl ReplayedPacket)))"

subsection \<open>The static-key codec\<close>

record static_candidate =
  sc_cipher_key :: bytes
  sc_hmac_key :: bytes

record static_codec =
  st_cipher :: cbc_cipher
  st_send_cipher_key :: bytes
  st_send_hmac_key :: bytes
  st_receive_candidates :: "static_candidate list"
  st_auth :: auth_digest
  st_send_timestamp :: u32
  st_window :: replay_window
  st_replay :: replay_inner


definition static_encode_with_iv :: "data_crypto \<Rightarrow> u32 \<Rightarrow> bytes \<Rightarrow> bytes \<Rightarrow> static_codec \<Rightarrow> data_codec_error + bytes" where
  "static_encode_with_iv cr packet_id payload iv c =
     (if packet_id = 0 then Inl InvalidPacketId
      else seal cr (st_cipher c) (st_auth c) (st_send_cipher_key c) (st_send_hmac_key c) iv
             (be32 packet_id @ be32 (st_send_timestamp c) @ payload))"

definition static_encoded_length :: "static_codec \<Rightarrow> nat \<Rightarrow> nat" where
  "static_encoded_length c payload_length = sealed_length (st_cipher c) (st_auth c) (8 + payload_length)"

definition static_encode ::
  "data_crypto \<Rightarrow> (nat \<Rightarrow> bytes option) \<Rightarrow> u32 \<Rightarrow> bytes \<Rightarrow> static_codec \<Rightarrow> data_codec_error + bytes" where
  "static_encode cr random packet_id payload c =
     (case random (block_size (st_cipher c)) of
        None \<Rightarrow> Inl RandomFailed
      | Some iv \<Rightarrow> static_encode_with_iv cr packet_id payload iv c)"

definition decode_candidate ::
  "data_crypto \<Rightarrow> bytes \<Rightarrow> static_codec \<Rightarrow> static_candidate \<Rightarrow> data_codec_error + u32 \<times> u32 \<times> bytes" where
  "decode_candidate cr payload c candidate =
     (case unseal cr (st_cipher c) (st_auth c) (sc_cipher_key candidate) (sc_hmac_key candidate) payload of
        Inl e \<Rightarrow> Inl e
      | Inr plaintext \<Rightarrow>
          if length plaintext < 8 then Inl InvalidEncryptedPayload
          else let packet_id = of_be32 (take 4 plaintext)
               in if packet_id = 0 then Inl InvalidPacketId
                  else Inr (packet_id, of_be32 (slice 4 8 plaintext), drop 8 plaintext))"

fun try_candidates ::
  "data_crypto \<Rightarrow> instant \<Rightarrow> bytes \<Rightarrow> static_codec \<Rightarrow> data_codec_error \<Rightarrow> static_candidate list
    \<Rightarrow> static_codec \<times> (data_codec_error + u32 \<times> bytes)" where
  "try_candidates cr now payload c last_error [] = (c, Inl last_error)"
| "try_candidates cr now payload c last_error (candidate # rest) =
     (case decode_candidate cr payload c candidate of
        Inr (packet_id, timestamp, plaintext) \<Rightarrow>
          (case accept_long_form_at (st_window c) packet_id timestamp now (st_replay c) of
             (replay, accepted) \<Rightarrow>
               (c\<lparr>st_replay := replay\<rparr>, if accepted then Inr (packet_id, plaintext) else Inl ReplayedPacket))
      | Inl e \<Rightarrow> try_candidates cr now payload c e rest)"

definition static_decode ::
  "data_crypto \<Rightarrow> instant \<Rightarrow> bytes \<Rightarrow> static_codec \<Rightarrow> static_codec \<times> (data_codec_error + u32 \<times> bytes)" where
  "static_decode cr now payload c = try_candidates cr now payload c InvalidEncryptedPayload (st_receive_candidates c)"

subsection \<open>The codec interface\<close>

datatype data_codec = Aead tls_aead_codec | Cbc tls_cbc_codec | Streaming tls_stream_codec | Static static_codec

definition new_tls_data_codec ::
  "bytes \<Rightarrow> bool \<Rightarrow> string \<Rightarrow> string \<Rightarrow> u32 \<Rightarrow> duration \<Rightarrow> u32 \<Rightarrow> data_codec_error + data_codec" where
  "new_tls_data_codec key_material server cipher_name auth_name window_size window_time timestamp =
     (if cipher_name \<in> {''AES-128-GCM'', ''AES-192-GCM'', ''AES-256-GCM'', ''CHACHA20-POLY1305''}
      then map_sum id Aead (aead_new key_material server cipher_name window_size window_time)
      else if \<not> isl (openvpn_stream_cipher_spec cipher_name)
      then map_sum id Streaming (stream_new_at key_material server cipher_name auth_name window_size window_time timestamp)
      else map_sum id Cbc (cbc_new key_material server cipher_name auth_name window_size window_time))"

fun encoded_length :: "data_codec \<Rightarrow> nat \<Rightarrow> nat" where
  "encoded_length (Aead c) n = aead_encoded_length n"
| "encoded_length (Cbc c) n = cbc_encoded_length c n"
| "encoded_length (Streaming c) n = stream_encoded_length c n"
| "encoded_length (Static c) n = static_encoded_length c n"

fun data_encode ::
  "data_crypto \<Rightarrow> (nat \<Rightarrow> bytes option) \<Rightarrow> u32 \<Rightarrow> bytes \<Rightarrow> bytes \<Rightarrow> data_codec \<Rightarrow> data_codec_error + bytes" where
  "data_encode cr random packet_id aad payload (Aead c) = aead_encode cr packet_id aad payload c"
| "data_encode cr random packet_id aad payload (Cbc c) = cbc_encode cr random packet_id payload c"
| "data_encode cr random packet_id aad payload (Streaming c) = stream_encode cr packet_id payload c"
| "data_encode cr random packet_id aad payload (Static c) = static_encode cr random packet_id payload c"

fun data_decode ::
  "data_crypto \<Rightarrow> instant \<Rightarrow> bytes \<Rightarrow> bytes \<Rightarrow> data_codec \<Rightarrow> data_codec \<times> (data_codec_error + u32 \<times> bytes)" where
  "data_decode cr now aad payload (Aead c) = map_prod Aead id (aead_decode cr now aad payload c)"
| "data_decode cr now aad payload (Cbc c) = map_prod Cbc id (cbc_decode cr now payload c)"
| "data_decode cr now aad payload (Streaming c) = map_prod Streaming id (stream_decode cr now payload c)"
| "data_decode cr now aad payload (Static c) = map_prod Static id (static_decode cr now payload c)"

subsection \<open>Opening what was sealed\<close>

text \<open>
  What the crates document: decryption inverts encryption under the same key, nonce and associated
  data; the AEAD tag has 16 bytes; PKCS#7 pads to the next full block; the stream modes keep the
  length.
\<close>

definition data_crypto_ok :: "data_crypto \<Rightarrow> bool" where
  "data_crypto_ok cr \<longleftrightarrow> crypto_ok (dc_mac cr)
   \<and> (\<forall>a k n aad p c. aead_encrypt cr a k n aad p = Some c \<longrightarrow> length c = length p + 16 \<and> aead_decrypt cr a k n aad c = Some p)
   \<and> (\<forall>c k iv p. c \<noteq> NoCipher \<longrightarrow> block_init cr c k iv \<longrightarrow>
        length (cbc_encrypt cr c k iv p) = (length p div block_size c + 1) * block_size c
        \<and> cbc_decrypt cr c k iv (cbc_encrypt cr c k iv p) = Some p)
   \<and> (\<forall>m c k iv p. stream_crypt cr m c k iv (stream_crypt cr m c k iv p True) False = p
        \<and> length (stream_crypt cr m c k iv p True) = length p)"

definition random_ok :: "(nat \<Rightarrow> bytes option) \<Rightarrow> bool" where
  "random_ok random \<longleftrightarrow> (\<forall>n b. random n = Some b \<longrightarrow> length b = n)"

lemma data_crypto_okD:
  assumes "data_crypto_ok cr"
  shows "crypto_ok (dc_mac cr)"
    and "aead_encrypt cr a k n aad p = Some c \<Longrightarrow> length c = length p + 16 \<and> aead_decrypt cr a k n aad c = Some p"
    and "ci \<noteq> NoCipher \<Longrightarrow> block_init cr ci k iv \<Longrightarrow> length (cbc_encrypt cr ci k iv p) = (length p div block_size ci + 1) * block_size ci"
    and "ci \<noteq> NoCipher \<Longrightarrow> block_init cr ci k iv \<Longrightarrow> cbc_decrypt cr ci k iv (cbc_encrypt cr ci k iv p) = Some p"
    and "stream_crypt cr m ci k iv (stream_crypt cr m ci k iv p True) False = p"
    and "length (stream_crypt cr m ci k iv p True) = length p"
  using assms unfolding data_crypto_ok_def by blast+

lemma block_size_bounds: "ci \<noteq> NoCipher \<Longrightarrow> 8 \<le> block_size ci" "block_size ci = 0 \<longleftrightarrow> ci = NoCipher"
  by (auto simp: block_size_def)


text \<open>What the codecs have in common: the replay window and the number a packet is tracked by.\<close>

fun codec_window :: "data_codec \<Rightarrow> replay_window" where
  "codec_window (Aead c) = ae_window c"
| "codec_window (Cbc c) = cb_window c"
| "codec_window (Streaming c) = sr_window c"
| "codec_window (Static c) = st_window c"

fun codec_replay :: "data_codec \<Rightarrow> replay_inner" where
  "codec_replay (Aead c) = ae_replay c"
| "codec_replay (Cbc c) = cb_replay c"
| "codec_replay (Streaming c) = sr_replay c"
| "codec_replay (Static c) = st_replay c"

fun with_replay :: "replay_inner \<Rightarrow> data_codec \<Rightarrow> data_codec" where
  "with_replay r (Aead c) = Aead (c\<lparr>ae_replay := r\<rparr>)"
| "with_replay r (Cbc c) = Cbc (c\<lparr>cb_replay := r\<rparr>)"
| "with_replay r (Streaming c) = Streaming (c\<lparr>sr_replay := r\<rparr>)"
| "with_replay r (Static c) = Static (c\<lparr>st_replay := r\<rparr>)"

fun long_numbers :: "data_codec \<Rightarrow> bool" where
  "long_numbers (Aead c) = False"
| "long_numbers (Cbc c) = False"
| "long_numbers (Streaming c) = True"
| "long_numbers (Static c) = True"

fun packet_key :: "data_codec \<Rightarrow> u32 \<Rightarrow> u32 \<times> u32" where
  "packet_key (Aead c) i = (0, i)"
| "packet_key (Cbc c) i = (0, i)"
| "packet_key (Streaming c) i = (sr_send_timestamp c, i)"
| "packet_key (Static c) i = (st_send_timestamp c, i)"





text \<open>A codec that sends with the keys another one receives with.\<close>

fun seals_for :: "data_codec \<Rightarrow> data_codec \<Rightarrow> bool" where
  "seals_for (Aead c) (Aead d) \<longleftrightarrow>
     ae_receive_cipher d = ae_send_cipher c \<and> ae_receive_iv_suffix d = ae_send_iv_suffix c"
| "seals_for (Cbc c) (Cbc d) \<longleftrightarrow>
     cb_receive_cipher d = cb_send_cipher c \<and> cb_receive_cipher_key d = cb_send_cipher_key c
     \<and> cb_receive_hmac_key d = cb_send_hmac_key c \<and> cb_auth d = cb_auth c"
| "seals_for (Streaming c) (Streaming d) \<longleftrightarrow>
     sr_mode d = sr_mode c \<and> sr_receive_cipher d = sr_send_cipher c \<and> sr_receive_cipher_key d = sr_send_cipher_key c
     \<and> sr_receive_hmac_key d = sr_send_hmac_key c \<and> sr_auth d = sr_auth c"
| "seals_for (Static c) (Static d) \<longleftrightarrow>
     st_cipher d = st_cipher c \<and> st_auth d = st_auth c
     \<and> (\<exists>rest. st_receive_candidates d = \<lparr>sc_cipher_key = st_send_cipher_key c, sc_hmac_key = st_send_hmac_key c\<rparr> # rest)"
| "seals_for _ _ \<longleftrightarrow> False"

text \<open>The stream-mode decoder refuses a packet without payload.\<close>

fun carries :: "data_codec \<Rightarrow> bytes \<Rightarrow> bool" where
  "carries (Streaming c) p \<longleftrightarrow> p \<noteq> []"
| "carries _ p \<longleftrightarrow> True"








subsection \<open>The contract of a data codec\<close>




definition sealed :: "data_crypto \<Rightarrow> data_codec \<Rightarrow> u32 \<times> bytes \<times> bytes \<times> bytes \<Rightarrow> bool" where
  "sealed cr c e = (case e of (i, aad, p, out) \<Rightarrow>
     carries c p \<and> (\<exists>random. random_ok random \<and> data_encode cr random i aad p c = Inr out))"



lemma with_replay_simps [simp]:
  "codec_replay (with_replay r d) = r" "codec_window (with_replay r d) = codec_window d"
  "long_numbers (with_replay r d) = long_numbers d" "seals_for c (with_replay r d) = seals_for c d"
  "packet_key (with_replay r d) i = packet_key d i" "encoded_length (with_replay r d) n = encoded_length d n"
  by (cases d; cases c; simp add: cbc_encoded_length_def stream_encoded_length_def static_encoded_length_def)+

lemma with_replay_same [simp]: "with_replay (codec_replay d) d = d"
  by (cases d) auto

text \<open>A packet that is not authentic leaves the codec as it was; nothing but the window ever changes.\<close>

lemma try_candidates_state:
  "try_candidates cr now payload c e cs = (c', r) \<Longrightarrow>
     (\<exists>s. c' = c\<lparr>st_replay := s\<rparr>) \<and> (c' = c \<or> \<not> isl r \<or> r = Inl ReplayedPacket)
     \<and> (c' \<noteq> c \<or> \<not> isl r \<longrightarrow> (\<exists>k \<in> set cs. \<not> isl (decode_candidate cr payload c k)))"
proof (induction cs arbitrary: e)
  case Nil
  then have "c' = c\<lparr>st_replay := st_replay c\<rparr>" "r = Inl e" "c' = c" by simp_all
  then show ?case by fastforce
next
  case (Cons k cs)
  show ?case
  proof (cases "decode_candidate cr payload c k")
    case (Inl e')
    then show ?thesis using Cons by (simp; blast)
  next
    case (Inr x)
    then show ?thesis using Cons.prems by (auto split: prod.splits if_splits)
  qed
qed

lemma data_decode_state:
  assumes "data_decode cr now aad out d = (d', r)"
  shows "\<exists>s. d' = with_replay s d" "d' = d \<or> \<not> isl r \<or> r = Inl ReplayedPacket"
proof -
  have "(\<exists>s. d' = with_replay s d) \<and> (d' = d \<or> \<not> isl r \<or> r = Inl ReplayedPacket)"
  proof (cases d)
    case (Aead c)
    then show ?thesis using assms
      by (auto simp: aead_decode_def Let_def split: if_splits option.splits prod.splits intro: exI [of _ "ae_replay c"])
  next
    case (Cbc c)
    then show ?thesis using assms
      by (auto simp: cbc_decode_def Let_def split: if_splits sum.splits prod.splits intro: exI [of _ "cb_replay c"])
  next
    case (Streaming c)
    then show ?thesis using assms
      by (auto simp: stream_decode_def Let_def split: if_splits sum.splits prod.splits intro: exI [of _ "sr_replay c"])
  next
    case (Static c)
    then obtain c' where "try_candidates cr now out c InvalidEncryptedPayload (st_receive_candidates c) = (c', r)" "d' = Static c'"
      using assms
      by (cases "try_candidates cr now out c InvalidEncryptedPayload (st_receive_candidates c)") (auto simp: static_decode_def)
    then show ?thesis using Static try_candidates_state by fastforce
  qed
  then show "\<exists>s. d' = with_replay s d" "d' = d \<or> \<not> isl r \<or> r = Inl ReplayedPacket" by blast+
qed


subsection \<open>Peers\<close>










subsection \<open>Packets in order\<close>

text \<open>A number ahead of everything the window has seen is admitted.\<close>

definition ahead :: "bool \<Rightarrow> replay_inner \<Rightarrow> u32 \<times> u32 \<Rightarrow> bool" where
  "ahead long s k \<longleftrightarrow> snd k \<noteq> 0 \<and> (\<not> ri_initialized s
     \<or> (if long then ri_highest_timestamp s < fst k \<or> ri_highest_timestamp s = fst k \<and> ri_highest_id s < snd k
        else ri_highest_id s < snd k))"

lemma ahead_new [simp]: "ahead long (replay_new W) k \<longleftrightarrow> snd k \<noteq> 0"
  by (simp add: ahead_def replay_new_def)





subsection \<open>Only authentic packets count\<close>

text \<open>A packet that carries the authentication code of the receive key.\<close>

definition signed :: "data_crypto \<Rightarrow> auth_digest \<Rightarrow> bytes \<Rightarrow> bytes \<Rightarrow> bool" where
  "signed cr auth hkey out \<longleftrightarrow> (\<exists>protected. out = sign (dc_mac cr) auth hkey protected @ protected)"

fun authentic :: "data_crypto \<Rightarrow> data_codec \<Rightarrow> bytes \<Rightarrow> bytes \<Rightarrow> bool" where
  "authentic cr (Aead c) aad out \<longleftrightarrow> (\<exists>i tag x. out = be32 i @ tag @ x \<and> length tag = 16
     \<and> aead_decrypt cr (fst (ae_receive_cipher c)) (snd (ae_receive_cipher c)) (be32 i @ ae_receive_iv_suffix c) (aad @ be32 i) (x @ tag) \<noteq> None)"
| "authentic cr (Cbc c) aad out \<longleftrightarrow> signed cr (cb_auth c) (cb_receive_hmac_key c) out"
| "authentic cr (Streaming c) aad out \<longleftrightarrow> signed cr (sr_auth c) (sr_receive_hmac_key c) out"
| "authentic cr (Static c) aad out \<longleftrightarrow> (\<exists>k \<in> set (st_receive_candidates c). signed cr (st_auth c) (sc_hmac_key k) out)"

lemma signed_verify:
  assumes "crypto_ok (dc_mac cr)" "verify (dc_mac cr) a hk (drop (output_size a) out) (take (output_size a) out)"
  shows "signed cr a hk out"
  unfolding signed_def using assms by (metis append_take_drop_id verify_sign)

lemma unseal_signed: "crypto_ok (dc_mac cr) \<Longrightarrow> unseal cr ci a ck hk out = Inr p \<Longrightarrow> signed cr a hk out"
  by (auto simp: unseal_def Let_def split: if_splits intro: signed_verify)

lemma aead_decode_authentic:
  assumes "aead_decode cr now aad out c = (c', r)" "c' \<noteq> c \<or> \<not> isl r"
  shows "authentic cr (Aead c) aad out"
proof -
  obtain alg key where k: "ae_receive_cipher c = (alg, key)" by fastforce
  have len: "20 \<le> length out"
    and dec: "aead_decrypt cr alg key (aead_nonce (of_be32 (take 4 out)) (ae_receive_iv_suffix c)) (aead_aad aad (take 4 out))
        (drop 20 out @ slice 4 20 out) \<noteq> None"
    using assms k by (auto simp: aead_decode_def aead_consts Let_def split: if_splits option.splits)
  let ?i = "of_be32 (take 4 out)"
  have i: "be32 ?i = take 4 out" using len by (intro be32_of_be32) simp
  have "out = take 4 out @ slice 4 20 out @ drop 20 out"
    using append_take_drop_id [of 16 "drop 4 out"] by (simp add: slice_def)
  then have "out = be32 ?i @ slice 4 20 out @ drop 20 out" by (simp only: i)
  moreover have "length (slice 4 20 out) = 16" using len by (simp add: slice_def)
  moreover have "aead_decrypt cr alg key (be32 ?i @ ae_receive_iv_suffix c) (aad @ be32 ?i) (drop 20 out @ slice 4 20 out) \<noteq> None"
    using dec i by (simp add: aead_nonce_def aead_aad_def)
  ultimately show ?thesis unfolding authentic.simps k fst_conv snd_conv by blast
qed

text \<open>
  Property C10. Forged data packets. Whatever bytes arrive, a data codec of any of the four kinds
  changes nothing but its replay window; and it changes that window or hands out a payload only for
  a packet that carries a valid authentication code or tag under one of its receive keys. A packet
  that fails leaves every later decision as it was.
\<close>

theorem forged_data_ignored:
  assumes "data_crypto_ok cr" "data_decode cr now aad out d = (d', r)"
  shows "(\<exists>s. d' = with_replay s d) \<and> (d' \<noteq> d \<or> \<not> isl r \<longrightarrow> authentic cr d aad out)"
proof (rule conjI)
  show "\<exists>s. d' = with_replay s d" using data_decode_state(1) [OF assms(2)] .
  note mac = data_crypto_okD(1) [OF assms(1)]
  show "d' \<noteq> d \<or> \<not> isl r \<longrightarrow> authentic cr d aad out"
  proof
    assume changed: "d' \<noteq> d \<or> \<not> isl r"
    show "authentic cr d aad out"
    proof (cases d)
      case (Aead c)
      then show ?thesis
        using assms(2) changed aead_decode_authentic by (cases "aead_decode cr now aad out c") fastforce
    next
      case (Cbc c)
      then show ?thesis using assms(2) changed unseal_signed [OF mac]
        by (auto simp: cbc_decode_def split: sum.splits)
    next
      case (Streaming c)
      then show ?thesis using assms(2) changed signed_verify [OF mac]
        by (auto simp: stream_decode_def Let_def split: if_splits)
    next
      case (Static c)
      then obtain c' where "try_candidates cr now out c InvalidEncryptedPayload (st_receive_candidates c) = (c', r)" "d' = Static c'"
        using assms(2)
        by (cases "try_candidates cr now out c InvalidEncryptedPayload (st_receive_candidates c)") (auto simp: static_decode_def)
      then have "\<exists>k \<in> set (st_receive_candidates c). \<not> isl (decode_candidate cr out c k)"
        using try_candidates_state changed Static by blast
      then obtain k x where k: "k \<in> set (st_receive_candidates c)" "decode_candidate cr out c k = Inr x"
        by (metis isl_def sum.exhaust)
      then obtain p where "unseal cr (st_cipher c) (st_auth c) (sc_cipher_key k) (sc_hmac_key k) out = Inr p"
        by (auto simp: decode_candidate_def split: sum.splits)
      with k(1) show ?thesis unfolding Static authentic.simps using unseal_signed [OF mac] by blast
    qed
  qed
qed


text \<open>A stand-in for the crates that keeps their contract.\<close>

definition plain_data_crypto :: data_crypto where
  "plain_data_crypto = \<lparr>dc_mac = plain_crypto,
     aead_encrypt = (\<lambda>a k n aad p. Some (p @ replicate 16 0)),
     aead_decrypt = (\<lambda>a k n aad c. if drop (length c - 16) c = replicate 16 0 then Some (take (length c - 16) c) else None),
     block_init = (\<lambda>c k iv. length iv = block_size c),
     cbc_encrypt = (\<lambda>c k iv p. let n = block_size c - length p mod block_size c in p @ replicate n (of_nat n)),
     cbc_decrypt = (\<lambda>c k iv x. if x = [] then None else Some (take (length x - unat (last x)) x)),
     stream_crypt = (\<lambda>m c k iv p e. p)\<rparr>"

lemma plain_data_crypto_ok: "data_crypto_ok plain_data_crypto"
proof -
  have len: "length p + (block_size c - length p mod block_size c) = block_size c + length p div block_size c * block_size c"
    if "c \<noteq> NoCipher" for c and p :: bytes
  proof -
    have "length p mod block_size c \<le> block_size c" using that block_size_bounds(2) [of c] by (simp add: less_imp_le)
    then show ?thesis using div_mult_mod_eq [of "length p" "block_size c"] by linarith
  qed
  have inv: "cbc_decrypt plain_data_crypto c k iv (cbc_encrypt plain_data_crypto c k iv p) = Some p" if "c \<noteq> NoCipher" for c k iv p
  proof -
    define n where "n = block_size c - length p mod block_size c"
    have n: "n \<le> 16" "n \<noteq> 0" using that by (auto simp: n_def block_size_def)
    then have "last (p @ replicate n (of_nat n :: u8)) = of_nat n" by (simp add: last_append)
    moreover have "unat (of_nat n :: u8) = n" using n by (simp add: unat_of_nat)
    ultimately show ?thesis using n by (simp add: plain_data_crypto_def Let_def flip: n_def)
  qed
  have "length (cbc_encrypt plain_data_crypto c k iv p) = (length p div block_size c + 1) * block_size c" if "c \<noteq> NoCipher" for c k iv p
    using len [OF that, of p] by (simp add: plain_data_crypto_def Let_def)
  moreover have "crypto_ok (dc_mac plain_data_crypto)"
    "aead_encrypt plain_data_crypto a k n aad p = Some c \<Longrightarrow> length c = length p + 16 \<and> aead_decrypt plain_data_crypto a k n aad c = Some p"
    "stream_crypt plain_data_crypto m ci k iv x e = x" for a k n aad p c m ci iv x e
    using plain_crypto_ok by (auto simp: plain_data_crypto_def)
  ultimately show ?thesis using inv unfolding data_crypto_ok_def by auto
qed

definition sample_material :: bytes where "sample_material = map of_nat [0 ..< 256]"

lemma sample_codecs:
  "\<exists>c d. new_tls_data_codec sample_material False ''AES-256-GCM'' [] 0 0 0 = Inr c
    \<and> new_tls_data_codec sample_material True ''AES-256-GCM'' [] 0 0 0 = Inr d"
  by (simp add: new_tls_data_codec_def aead_new_def split_static_key_material_def TLS_KEY_MATERIAL_LENGTH_def
      sample_material_def tls_data_key_slots_def aead_cipher_new_def Let_def)



theorem forged_data_ignored_witness:
  "\<exists>d d' r. data_decode plain_data_crypto 5 [] (replicate 20 1) d = (d', r) \<and> isl r \<and> (\<exists>s. d' = with_replay s d)
    \<and> \<not> (d' \<noteq> d \<or> \<not> isl r)"
proof -
  obtain d where "new_tls_data_codec sample_material True ''AES-256-GCM'' [] 0 0 0 = Inr d"
    using sample_codecs by blast
  then obtain x where d: "d = Aead x" by (auto simp: new_tls_data_codec_def map_sum_def split: sum.splits)
  have dec: "data_decode plain_data_crypto 5 [] (replicate 20 1) d = (d, Inl AuthenticationFailed)"
    by (simp add: d aead_decode_def plain_data_crypto_def aead_consts slice_def Let_def numeral_eq_Suc split: prod.split)
  from forged_data_ignored [OF plain_data_crypto_ok dec] dec show ?thesis by (intro exI [of _ d] exI) auto
qed

end
