(* ===== verification/Ovpn_Compression.thy ===== *)
theory Ovpn_Compression
  imports Ovpn_Fragment
begin

text \<open>
  Compression framing of the OpenVPN data channel (\<open>protocol/openvpn/compression.rs\<close>): the
  compression settings and the policy that guards them, the stub, LZO and LZ4 frames of both
  generations, adaptive LZO, and \<open>DataChannelFraming\<close>, which puts fragmentation around them.

  The LZO and LZ4 algorithms belong to other crates and are the fields of \<open>compressors\<close>;
  \<open>compressors_ok\<close> states their documented round trip. The byte counters of the adaptive mode are
  64-bit words, whose subtraction wraps as it does in a release build.
\<close>

subsection \<open>Settings and policy\<close>

definition OPENVPN_LZO_COMPRESS_BYTE :: u8 where "OPENVPN_LZO_COMPRESS_BYTE = 0x66"
definition OPENVPN_LZ4_COMPRESS_BYTE :: u8 where "OPENVPN_LZ4_COMPRESS_BYTE = 0x69"
definition OPENVPN_NO_COMPRESS_BYTE :: u8 where "OPENVPN_NO_COMPRESS_BYTE = 0xfa"
definition OPENVPN_NO_COMPRESS_BYTE_SWAP :: u8 where "OPENVPN_NO_COMPRESS_BYTE_SWAP = 0xfb"
definition OPENVPN_COMPRESS_V2_INDICATOR_BYTE :: u8 where "OPENVPN_COMPRESS_V2_INDICATOR_BYTE = 0x50"
definition OPENVPN_COMPRESS_V2_SUBTYPE_NONE :: u8 where "OPENVPN_COMPRESS_V2_SUBTYPE_NONE = 0"
definition OPENVPN_COMPRESS_V2_SUBTYPE_LZ4 :: u8 where "OPENVPN_COMPRESS_V2_SUBTYPE_LZ4 = 1"
definition OPENVPN_MAX_DECOMPRESSED_SIZE :: nat where "OPENVPN_MAX_DECOMPRESSED_SIZE = 65536"
definition OPENVPN_COMPRESSION_THRESHOLD :: nat where "OPENVPN_COMPRESSION_THRESHOLD = 100"
definition LZO_ADAPTIVE_SAMPLE_DURATION :: duration where "LZO_ADAPTIVE_SAMPLE_DURATION = secs 2"
definition LZO_ADAPTIVE_OFF_DURATION :: duration where "LZO_ADAPTIVE_OFF_DURATION = secs 60"
definition LZO_ADAPTIVE_MINIMUM_BYTES :: u64 where "LZO_ADAPTIVE_MINIMUM_BYTES = 1000"
definition LZO_ADAPTIVE_SAVE_PERCENT :: u64 where "LZO_ADAPTIVE_SAVE_PERCENT = 5"

lemmas marker_bytes = OPENVPN_LZO_COMPRESS_BYTE_def OPENVPN_LZ4_COMPRESS_BYTE_def OPENVPN_NO_COMPRESS_BYTE_def
  OPENVPN_NO_COMPRESS_BYTE_SWAP_def OPENVPN_COMPRESS_V2_INDICATOR_BYTE_def OPENVPN_COMPRESS_V2_SUBTYPE_NONE_def
  OPENVPN_COMPRESS_V2_SUBTYPE_LZ4_def

datatype compression_algorithm = NoCompression | Stub | Lzo | Lz4 | StubV2 | Lz4V2

record compression_settings =
  cs_algorithm :: compression_algorithm
  cs_swap :: bool
  cs_adaptive :: bool
  cs_asymmetric :: bool

definition compression_default :: compression_settings where
  "compression_default = \<lparr>cs_algorithm = NoCompression, cs_swap = False, cs_adaptive = False, cs_asymmetric = False\<rparr>"

datatype compression_error =
    Unsupported string | InvalidAllowPolicy | AllowPolicyConflict | MissingMarker | InvalidMarker
  | TruncatedFrame | InvalidV2Subtype u8 | CompressedV2NotSupported | DecompressionFailed
  | Fragment fragment_error

datatype compression_directive = Compress string | CompLzo string

fun compression_apply :: "compression_directive \<Rightarrow> compression_settings \<Rightarrow> compression_error + compression_settings" where
  "compression_apply (Compress value) s =
     (let v = trim value in
      if v = '''' \<or> v = ''stub'' then Inr (s\<lparr>cs_algorithm := Stub, cs_swap := True\<rparr>)
      else if v = ''stub-v2'' then Inr (s\<lparr>cs_algorithm := StubV2\<rparr>)
      else if v = ''lzo'' then Inr (s\<lparr>cs_algorithm := Lzo, cs_adaptive := False, cs_swap := False\<rparr>)
      else if v = ''lz4'' then Inr (s\<lparr>cs_algorithm := Lz4, cs_swap := True\<rparr>)
      else if v = ''lz4-v2'' then Inr (s\<lparr>cs_algorithm := Lz4V2\<rparr>)
      else if v \<in> {''migrate'', ''none'', ''no'', ''disabled'', ''off''} then Inr compression_default
      else Inl (Unsupported v))"
| "compression_apply (CompLzo value) s =
     (let v = trim value; s = s\<lparr>cs_swap := False\<rparr> in
      if v = '''' \<or> v = ''adaptive'' then Inr (s\<lparr>cs_algorithm := Lzo, cs_adaptive := True, cs_asymmetric := False\<rparr>)
      else if v = ''yes'' then Inr (s\<lparr>cs_algorithm := Lzo, cs_adaptive := False, cs_asymmetric := False\<rparr>)
      else if v = ''asym'' then Inr (s\<lparr>cs_algorithm := Lzo, cs_adaptive := False, cs_asymmetric := True\<rparr>)
      else if v = ''no'' then Inr (s\<lparr>cs_algorithm := Stub, cs_adaptive := False\<rparr>)
      else if v \<in> {''none'', ''disabled'', ''off''} then Inr compression_default
      else Inl (Unsupported v))"

definition framing_enabled :: "compression_settings \<Rightarrow> bool" where
  "framing_enabled s \<longleftrightarrow> cs_algorithm s \<noteq> NoCompression"

definition non_stub_enabled :: "compression_settings \<Rightarrow> bool" where
  "non_stub_enabled s \<longleftrightarrow> cs_algorithm s \<in> {Lzo, Lz4, Lz4V2}"

definition framing_overhead :: "compression_settings \<Rightarrow> nat" where
  "framing_overhead s = of_bool (cs_algorithm s \<in> {Stub, Lzo, Lz4})"

datatype allow_compression_policy = StubOnly | Asymmetric | Yes

definition compresses_outbound :: "allow_compression_policy \<Rightarrow> compression_settings \<Rightarrow> bool" where
  "compresses_outbound policy s \<longleftrightarrow> cs_algorithm s = Lzo \<and> \<not> cs_asymmetric s \<and> policy = Yes"

definition resolve_compression_settings :: "string \<Rightarrow> string \<Rightarrow> compression_error + compression_settings" where
  "resolve_compression_settings compression compression_lzo =
     (case (if trim compression \<noteq> [] then compression_apply (Compress compression) compression_default
            else Inr compression_default) of
        Inl e \<Rightarrow> Inl e
      | Inr settings \<Rightarrow>
          if trim compression_lzo \<noteq> [] then compression_apply (CompLzo compression_lzo) settings else Inr settings)"

definition resolve_allow_compression_policy :: "string \<Rightarrow> compression_settings \<Rightarrow> compression_error + allow_compression_policy" where
  "resolve_allow_compression_policy value settings =
     (if value = [] then Inr (if non_stub_enabled settings then Asymmetric else StubOnly)
      else
        case (if value = ''no'' then Some StubOnly else if value = ''asym'' then Some Asymmetric
              else if value = ''yes'' then Some Yes else None) of
          None \<Rightarrow> Inl InvalidAllowPolicy
        | Some policy \<Rightarrow>
            if policy = StubOnly \<and> non_stub_enabled settings then Inl AllowPolicyConflict else Inr policy)"

subsection \<open>Frames\<close>

record compressors =
  lzo_compress :: "bytes \<Rightarrow> bytes"
  lzo_decompress :: "bytes \<Rightarrow> nat \<Rightarrow> bytes option"
  lz4_decompress :: "bytes \<Rightarrow> nat \<Rightarrow> bytes option"

definition prepend :: "u8 \<Rightarrow> bytes \<Rightarrow> bytes" where
  "prepend marker payload = marker # payload"

definition unswap_v1_frame_head :: "bytes \<Rightarrow> bytes" where
  "unswap_v1_frame_head framed =
     (if length framed \<le> 1 then [] else last framed # butlast (tl framed))"

definition apply_stub_compression_frame :: "bytes \<Rightarrow> bool \<Rightarrow> bytes" where
  "apply_stub_compression_frame payload swap =
     (if \<not> swap then prepend OPENVPN_NO_COMPRESS_BYTE payload
      else if payload = [] then [OPENVPN_NO_COMPRESS_BYTE_SWAP]
      else OPENVPN_NO_COMPRESS_BYTE_SWAP # tl payload @ [hd payload])"

definition unframe_stub_compression :: "bytes \<Rightarrow> bool \<Rightarrow> compression_error + bytes" where
  "unframe_stub_compression framed swap =
     (case framed of
        [] \<Rightarrow> Inl MissingMarker
      | marker # rest \<Rightarrow>
          if marker \<noteq> (if swap then OPENVPN_NO_COMPRESS_BYTE_SWAP else OPENVPN_NO_COMPRESS_BYTE) then Inl InvalidMarker
          else Inr (if swap then unswap_v1_frame_head framed else rest))"

definition escape_v2_stub_compression :: "bytes \<Rightarrow> bytes" where
  "escape_v2_stub_compression payload =
     (if payload = [] \<or> hd payload \<noteq> OPENVPN_COMPRESS_V2_INDICATOR_BYTE then payload
      else [OPENVPN_COMPRESS_V2_INDICATOR_BYTE, OPENVPN_COMPRESS_V2_SUBTYPE_NONE] @ payload)"

definition decode_lzo_frame :: "compressors \<Rightarrow> bytes \<Rightarrow> compression_error + bytes" where
  "decode_lzo_frame co framed =
     (case framed of
        [] \<Rightarrow> Inl MissingMarker
      | marker # rest \<Rightarrow>
          if marker = OPENVPN_NO_COMPRESS_BYTE then Inr rest
          else if marker = OPENVPN_LZO_COMPRESS_BYTE
          then (case lzo_decompress co rest OPENVPN_MAX_DECOMPRESSED_SIZE of
                  None \<Rightarrow> Inl DecompressionFailed | Some p \<Rightarrow> Inr p)
          else Inl InvalidMarker)"

text \<open>\<open>decompress_into\<close> fills a buffer of the given size and returns the length written.\<close>

definition decompress_lz4 :: "compressors \<Rightarrow> bytes \<Rightarrow> compression_error + bytes" where
  "decompress_lz4 co block =
     (if block = [] then Inl DecompressionFailed
      else case lz4_decompress co block OPENVPN_MAX_DECOMPRESSED_SIZE of
             None \<Rightarrow> Inl DecompressionFailed
           | Some output \<Rightarrow> if output = [] then Inl DecompressionFailed else Inr output)"

definition decode_lz4_v1_frame :: "compressors \<Rightarrow> bytes \<Rightarrow> compression_error + bytes" where
  "decode_lz4_v1_frame co framed =
     (case framed of
        [] \<Rightarrow> Inl MissingMarker
      | marker # rest \<Rightarrow>
          if marker = OPENVPN_NO_COMPRESS_BYTE_SWAP then Inr (unswap_v1_frame_head framed)
          else if marker = OPENVPN_LZ4_COMPRESS_BYTE
          then (if length framed < 2 then Inl TruncatedFrame
                else decompress_lz4 co (last framed # butlast rest))
          else Inl InvalidMarker)"

definition unwrap_v2_compression :: "compressors \<Rightarrow> bytes \<Rightarrow> compression_algorithm \<Rightarrow> compression_error + bytes" where
  "unwrap_v2_compression co payload algorithm =
     (if payload = [] \<or> hd payload \<noteq> OPENVPN_COMPRESS_V2_INDICATOR_BYTE then Inr payload
      else if length payload < 2 then Inl TruncatedFrame
      else
        let subtype = payload ! 1
        in if subtype = OPENVPN_COMPRESS_V2_SUBTYPE_NONE then Inr (drop 2 payload)
           else if subtype = OPENVPN_COMPRESS_V2_SUBTYPE_LZ4
           then (if algorithm = Lz4V2 then decompress_lz4 co (drop 2 payload) else Inl CompressedV2NotSupported)
           else Inl (InvalidV2Subtype subtype))"

subsection \<open>Adaptive LZO\<close>

record adaptive_state =
  ad_disabled :: bool
  ad_next :: "instant option"
  ad_total_bytes :: u64
  ad_compressed_bytes :: u64

definition adaptive_default :: adaptive_state where
  "adaptive_default = \<lparr>ad_disabled = False, ad_next = None, ad_total_bytes = 0, ad_compressed_bytes = 0\<rparr>"

record data_channel_framing =
  df_compression :: compression_settings
  df_compress_outbound :: bool
  df_fragment_enabled :: bool
  df_fragments :: fragment_inner
  df_adaptive :: adaptive_state

definition framing_new :: "compression_settings \<Rightarrow> u32 \<Rightarrow> allow_compression_policy \<Rightarrow> data_channel_framing option" where
  "framing_new compression fragment policy =
     (if framing_enabled compression \<or> fragment > 0
      then Some \<lparr>df_compression = compression, df_compress_outbound = compresses_outbound policy compression,
                 df_fragment_enabled = (fragment > 0), df_fragments = fragment_inner_default, df_adaptive = adaptive_default\<rparr>
      else None)"

definition framing_clone :: "data_channel_framing \<Rightarrow> data_channel_framing" where
  "framing_clone f = f\<lparr>df_fragments := fragment_inner_default, df_adaptive := adaptive_default\<rparr>"

definition payload_overhead :: "data_channel_framing \<Rightarrow> nat" where
  "payload_overhead f = framing_overhead (df_compression f) + of_bool (df_fragment_enabled f) * 4"

definition lzo_compression_enabled :: "instant \<Rightarrow> data_channel_framing \<Rightarrow> data_channel_framing \<times> bool" where
  "lzo_compression_enabled now f =
     (if \<not> cs_adaptive (df_compression f) then (f, True)
      else
        let st = df_adaptive f;
            st' = (if (case ad_next st of None \<Rightarrow> True | Some next \<Rightarrow> now \<ge> next)
                   then (if ad_disabled st
                         then st\<lparr>ad_disabled := False, ad_next := Some (now + LZO_ADAPTIVE_SAMPLE_DURATION)\<rparr>
                         else if ad_total_bytes st > LZO_ADAPTIVE_MINIMUM_BYTES
                           \<and> ad_total_bytes st - ad_compressed_bytes st < ad_total_bytes st div (100 div LZO_ADAPTIVE_SAVE_PERCENT)
                         then st\<lparr>ad_disabled := True, ad_next := Some (now + LZO_ADAPTIVE_OFF_DURATION)\<rparr>
                         else st\<lparr>ad_next := Some (now + LZO_ADAPTIVE_SAMPLE_DURATION)\<rparr>)
                        \<lparr>ad_total_bytes := 0, ad_compressed_bytes := 0\<rparr>
                   else st)
        in (f\<lparr>df_adaptive := st'\<rparr>, \<not> ad_disabled st'))"

definition encode_lzo_frame :: "compressors \<Rightarrow> instant \<Rightarrow> bytes \<Rightarrow> data_channel_framing \<Rightarrow> data_channel_framing \<times> bytes" where
  "encode_lzo_frame co now payload f =
     (if \<not> df_compress_outbound f \<or> length payload < OPENVPN_COMPRESSION_THRESHOLD
      then (f, prepend OPENVPN_NO_COMPRESS_BYTE payload)
      else case lzo_compression_enabled now f of
             (f, False) \<Rightarrow> (f, prepend OPENVPN_NO_COMPRESS_BYTE payload)
           | (f, True) \<Rightarrow>
               let compressed = lzo_compress co payload; st = df_adaptive f;
                   f' = (if cs_adaptive (df_compression f)
                         then f\<lparr>df_adaptive := st\<lparr>ad_total_bytes := ad_total_bytes st + of_nat (length payload),
                                                  ad_compressed_bytes := ad_compressed_bytes st + of_nat (length compressed)\<rparr>\<rparr>
                         else f)
               in (f', if length compressed \<ge> length payload then prepend OPENVPN_NO_COMPRESS_BYTE payload
                       else prepend OPENVPN_LZO_COMPRESS_BYTE compressed))"

subsection \<open>Encoding and decoding a payload\<close>

definition frame_payload :: "compressors \<Rightarrow> instant \<Rightarrow> bytes \<Rightarrow> data_channel_framing \<Rightarrow> data_channel_framing \<times> bytes" where
  "frame_payload co now payload f =
     (case cs_algorithm (df_compression f) of
        NoCompression \<Rightarrow> (f, payload)
      | Stub \<Rightarrow> (f, apply_stub_compression_frame payload (cs_swap (df_compression f)))
      | Lz4 \<Rightarrow> (f, apply_stub_compression_frame payload True)
      | Lzo \<Rightarrow> encode_lzo_frame co now payload f
      | StubV2 \<Rightarrow> (f, escape_v2_stub_compression payload)
      | Lz4V2 \<Rightarrow> (f, escape_v2_stub_compression payload))"

definition framing_encode ::
  "compressors \<Rightarrow> instant \<Rightarrow> bytes \<Rightarrow> nat \<Rightarrow> data_channel_framing \<Rightarrow> data_channel_framing \<times> (compression_error + bytes list)" where
  "framing_encode co now payload fragment_size f =
     (case frame_payload co now payload f of
        (f, framed) \<Rightarrow>
          if df_fragment_enabled f
          then (case fragment_encode framed fragment_size (df_fragments f) of
                  (fr, r) \<Rightarrow> (f\<lparr>df_fragments := fr\<rparr>, map_sum Fragment id r))
          else (f, Inr [framed]))"

definition unframe_payload :: "compressors \<Rightarrow> compression_settings \<Rightarrow> bytes \<Rightarrow> compression_error + bytes" where
  "unframe_payload co s framed =
     (case cs_algorithm s of
        NoCompression \<Rightarrow> Inr framed
      | Stub \<Rightarrow> unframe_stub_compression framed (cs_swap s)
      | Lzo \<Rightarrow> decode_lzo_frame co framed
      | Lz4 \<Rightarrow> decode_lz4_v1_frame co framed
      | StubV2 \<Rightarrow> unwrap_v2_compression co framed StubV2
      | Lz4V2 \<Rightarrow> unwrap_v2_compression co framed Lz4V2)"

definition framing_decode ::
  "compressors \<Rightarrow> instant \<Rightarrow> bytes \<Rightarrow> data_channel_framing \<Rightarrow> data_channel_framing \<times> (compression_error + bytes option)" where
  "framing_decode co now payload f =
     (case (if df_fragment_enabled f
            then (case decode_at fragment_codec_new payload now (df_fragments f) of
                    (fr, r) \<Rightarrow> (f\<lparr>df_fragments := fr\<rparr>, map_sum Fragment id r))
            else (f, Inr (Some payload))) of
        (f, Inl e) \<Rightarrow> (f, Inl e)
      | (f, Inr None) \<Rightarrow> (f, Inr None)
      | (f, Inr (Some framed)) \<Rightarrow> (f, map_sum id Some (unframe_payload co (df_compression f) framed)))"

subsection \<open>Unframing what was framed\<close>

text \<open>What the LZO crate documents: decompression into a large enough limit inverts compression.\<close>

definition compressors_ok :: "compressors \<Rightarrow> bool" where
  "compressors_ok co \<longleftrightarrow> (\<forall>p n. length p \<le> n \<longrightarrow> lzo_decompress co (lzo_compress co p) n = Some p)"

definition plain_frame :: "compression_settings \<Rightarrow> bytes \<Rightarrow> bytes" where
  "plain_frame s p =
     (case cs_algorithm s of
        NoCompression \<Rightarrow> p
      | Stub \<Rightarrow> apply_stub_compression_frame p (cs_swap s)
      | Lz4 \<Rightarrow> apply_stub_compression_frame p True
      | Lzo \<Rightarrow> prepend OPENVPN_NO_COMPRESS_BYTE p
      | StubV2 \<Rightarrow> escape_v2_stub_compression p
      | Lz4V2 \<Rightarrow> escape_v2_stub_compression p)"

lemma unswap_swap [simp]: "unswap_v1_frame_head (m # tl p @ [hd p]) = p" if "p \<noteq> []"
  using that by (cases p) (simp_all add: unswap_v1_frame_head_def)

lemma unframe_plain: "unframe_payload co s (plain_frame s p) = Inr p"
proof (cases "cs_algorithm s")
  case Stub
  then show ?thesis
    by (cases "p = []")
      (simp_all add: unframe_payload_def plain_frame_def apply_stub_compression_frame_def unframe_stub_compression_def
        prepend_def unswap_v1_frame_head_def [of "[_]"])
next
  case Lz4
  then show ?thesis
    by (cases "p = []")
      (simp_all add: unframe_payload_def plain_frame_def apply_stub_compression_frame_def decode_lz4_v1_frame_def
        unswap_v1_frame_head_def [of "[_]"])
qed (auto simp: unframe_payload_def plain_frame_def decode_lzo_frame_def prepend_def escape_v2_stub_compression_def
    unwrap_v2_compression_def Let_def)

lemma plain_frame_length: "length (plain_frame s p) \<le> length p + 2"
  by (cases "p = []")
    (auto simp: plain_frame_def apply_stub_compression_frame_def prepend_def escape_v2_stub_compression_def
      split: compression_algorithm.split)

text \<open>
  A frame is the plain one, or an LZO frame that is shorter than the payload; framing changes
  nothing but the adaptive state.
\<close>

lemma lzo_enabled_keeps:
  assumes "lzo_compression_enabled now f = (f', b)"
  shows "\<exists>a. f' = f\<lparr>df_adaptive := a\<rparr>"
proof -
  have "f' = f \<or> (\<exists>a. f' = f\<lparr>df_adaptive := a\<rparr>)"
    using assms unfolding lzo_compression_enabled_def Let_def by (auto split: if_split_asm)
  then show ?thesis by (metis data_channel_framing.surjective data_channel_framing.update_convs(5))
qed

lemma frame_payload_cases:
  assumes "frame_payload co now p f = (f', framed)"
  shows "\<exists>a. f' = f\<lparr>df_adaptive := a\<rparr>"
    and "framed = plain_frame (df_compression f) p
      \<or> df_compress_outbound f \<and> cs_algorithm (df_compression f) = Lzo
        \<and> framed = prepend OPENVPN_LZO_COMPRESS_BYTE (lzo_compress co p) \<and> length (lzo_compress co p) < length p"
proof -
  have same: "\<exists>a. f = f\<lparr>df_adaptive := a\<rparr>" by (rule exI [of _ "df_adaptive f"]) simp
  show "\<exists>a. f' = f\<lparr>df_adaptive := a\<rparr>"
  proof (cases "cs_algorithm (df_compression f) = Lzo")
    case True
    obtain g b where g: "lzo_compression_enabled now f = (g, b)" by fastforce
    obtain a where "g = f\<lparr>df_adaptive := a\<rparr>" using lzo_enabled_keeps [OF g] by blast
    with True assms g same show ?thesis
      by (auto simp: frame_payload_def encode_lzo_frame_def Let_def split: if_splits bool.splits)
  next
    case False
    with assms same show ?thesis by (auto simp: frame_payload_def split: compression_algorithm.splits)
  qed
  show "framed = plain_frame (df_compression f) p
      \<or> df_compress_outbound f \<and> cs_algorithm (df_compression f) = Lzo
        \<and> framed = prepend OPENVPN_LZO_COMPRESS_BYTE (lzo_compress co p) \<and> length (lzo_compress co p) < length p"
    using assms
    by (auto simp: frame_payload_def plain_frame_def encode_lzo_frame_def Let_def
        split: compression_algorithm.splits if_splits prod.splits bool.splits)
qed

lemma unframe_frame:
  assumes "compressors_ok co" "frame_payload co now p f = (f', framed)" "length p \<le> 65536"
  shows "unframe_payload co (df_compression f) framed = Inr p" "length framed \<le> length p + 2"
proof -
  consider (plain) "framed = plain_frame (df_compression f) p"
    | (lzo) "cs_algorithm (df_compression f) = Lzo" "framed = prepend OPENVPN_LZO_COMPRESS_BYTE (lzo_compress co p)"
        "length (lzo_compress co p) < length p"
    using frame_payload_cases(2) [OF assms(2)] by blast
  then have "unframe_payload co (df_compression f) framed = Inr p \<and> length framed \<le> length p + 2"
  proof cases
    case plain
    then show ?thesis using plain_frame_length [of "df_compression f" p] by (simp add: unframe_plain)
  next
    case lzo
    then show ?thesis using assms(1,3)
      by (simp add: unframe_payload_def decode_lzo_frame_def prepend_def marker_bytes compressors_ok_def OPENVPN_MAX_DECOMPRESSED_SIZE_def)
  qed
  then show "unframe_payload co (df_compression f) framed = Inr p" "length framed \<le> length p + 2" by blast+
qed

subsection \<open>The framing of a link\<close>

fun framing_run :: "compressors \<Rightarrow> (bytes \<times> instant) list \<Rightarrow> data_channel_framing
    \<Rightarrow> data_channel_framing \<times> (compression_error + bytes option) list" where
  "framing_run co [] g = (g, [])"
| "framing_run co ((b, t) # ms) g =
     (case framing_decode co t b g of (g1, r) \<Rightarrow> (case framing_run co ms g1 of (g2, rs) \<Rightarrow> (g2, r # rs)))"

lemma framing_run_append:
  "framing_run co (ms @ ns) g =
     (case framing_run co ms g of (g1, rs) \<Rightarrow> (case framing_run co ns g1 of (g2, rs') \<Rightarrow> (g2, rs @ rs')))"
  by (induction co ms g rule: framing_run.induct) (auto split: prod.splits)

text \<open>With fragmentation, unframing is applied to each packet the fragments give.\<close>

definition unframe_result :: "compressors \<Rightarrow> compression_settings \<Rightarrow> fragment_error + bytes option \<Rightarrow> compression_error + bytes option" where
  "unframe_result co s r =
     (case r of Inl e \<Rightarrow> Inl (Fragment e) | Inr None \<Rightarrow> Inr None
      | Inr (Some framed) \<Rightarrow> map_sum id Some (unframe_payload co s framed))"

lemma framing_run_fragments:
  assumes "df_fragment_enabled g"
  shows "framing_run co ms g = (case decode_run fragment_codec_new ms (df_fragments g) of
    (fr, rs) \<Rightarrow> (g\<lparr>df_fragments := fr\<rparr>, map (unframe_result co (df_compression g)) rs))"
  using assms
proof (induction ms arbitrary: g)
  case (Cons e ms)
  obtain b t where e: "e = (b, t)" by fastforce
  obtain fr r where d: "decode_at fragment_codec_new b t (df_fragments g) = (fr, r)" by fastforce
  have "framing_decode co t b g = (g\<lparr>df_fragments := fr\<rparr>, unframe_result co (df_compression g) r)"
    using Cons.prems d by (auto simp: framing_decode_def unframe_result_def split: sum.splits option.splits)
  with Cons.IH [of "g\<lparr>df_fragments := fr\<rparr>"] Cons.prems show ?case by (simp add: e d split: prod.splits)
qed simp

definition framing_idle :: "data_channel_framing \<Rightarrow> bool" where
  "framing_idle g \<longleftrightarrow> fi_incoming (df_fragments g) = [] \<and> fi_incoming_bytes (df_fragments g) = 0"

definition same_framing :: "data_channel_framing \<Rightarrow> data_channel_framing \<Rightarrow> bool" where
  "same_framing f g \<longleftrightarrow> df_compression g = df_compression f \<and> df_fragment_enabled g = df_fragment_enabled f"

lemma framing_reassembles:
  assumes co: "compressors_ok co" and enc: "framing_encode co now payload n f = (f', Inr frames)"
    and peer: "same_framing f g" "framing_idle g" and len: "length payload \<le> 65533"
    and order: "k < length frames" "fst ` set ms = {..< length frames} - {k}"
    and times: "snd ` set (ms @ [(k, t)]) \<subseteq> {t0 ..< t0 + FRAGMENT_REASSEMBLY_TIMEOUT}"
  shows "\<exists>g'. framing_run co (map (\<lambda>(j, t). (frames ! j, t)) (ms @ [(k, t)])) g
      = (g', replicate (length ms) (Inr None) @ [Inr (Some payload)]) \<and> same_framing g g' \<and> framing_idle g'"
proof -
  obtain f1 framed where fr: "frame_payload co now payload f = (f1, framed)" by fastforce
  obtain a where f1: "f1 = f\<lparr>df_adaptive := a\<rparr>" using frame_payload_cases(1) [OF fr] by blast
  have un: "unframe_payload co (df_compression g) framed = Inr payload" "length framed \<le> 65535"
    using unframe_frame [OF co fr] len peer(1) by (simp_all add: same_framing_def)
  show ?thesis
  proof (cases "df_fragment_enabled f")
    case True
    obtain fr' where frag: "fragment_encode framed n (df_fragments f) = (fr', Inr frames)"
      using enc fr True f1
      by (cases "fragment_encode framed n (df_fragments f)"; cases "snd (fragment_encode framed n (df_fragments f))")
        (auto simp: framing_encode_def)
    have g: "df_fragment_enabled g" using True peer(1) by (simp add: same_framing_def)
    obtain d' where d': "decode_run fragment_codec_new (map (\<lambda>(j, t). (frames ! j, t)) (ms @ [(k, t)])) (df_fragments g)
        = (d', replicate (length ms) (Inr None) @ [Inr (Some framed)])" "fi_incoming d' = []" "fi_incoming_bytes d' = 0"
      using fragments_reassemble [OF frag un(2), of fragment_codec_new "df_fragments g" k ms t t0] un(2) peer(2) order times
      by (auto simp: fragment_codec_new_def fragment_consts framing_idle_def)
    show ?thesis
      using framing_run_fragments [OF g, of co "map (\<lambda>(j, t). (frames ! j, t)) (ms @ [(k, t)])"] d' un(1)
      by (auto simp: unframe_result_def same_framing_def framing_idle_def)
  next
    case False
    then have "frames = [framed]" using enc fr f1 by (simp add: framing_encode_def)
    moreover from this order have "k = 0" "fst ` set ms = {}" by auto
    then have "k = 0" "ms = []" by simp_all
    moreover have "framing_decode co t framed g = (g, Inr (Some payload))"
      using False peer(1) un(1) by (simp add: framing_decode_def same_framing_def)
    ultimately show ?thesis using peer(2) by (simp add: same_framing_def)
  qed
qed

text \<open>
  Property C12. Framing round trip. Whatever frames the sender makes of a payload with any
  compression mode, with or without fragmentation, a receiver with the same settings and no packet
  under reassembly that gets them in any order within the reassembly timeout reports nothing until
  the last missing one and then returns exactly the payload, ready for the next.
\<close>

theorem framing_round_trip:
  assumes "compressors_ok co" "framing_encode co now payload n f = (f', Inr frames)"
    and "same_framing f g" "framing_idle g" "length payload \<le> 65533"
    and "k < length frames" "fst ` set ms = {..< length frames} - {k}"
    and "snd ` set (ms @ [(k, t)]) \<subseteq> {t0 ..< t0 + FRAGMENT_REASSEMBLY_TIMEOUT}"
  shows "\<exists>g'. framing_run co (map (\<lambda>(j, t). (frames ! j, t)) (ms @ [(k, t)])) g
      = (g', replicate (length ms) (Inr None) @ [Inr (Some payload)]) \<and> same_framing g g' \<and> framing_idle g'"
  using assms by (rule framing_reassembles)

definition no_compressors :: compressors where
  "no_compressors = \<lparr>lzo_compress = id, lzo_decompress = (\<lambda>p n. if length p \<le> n then Some p else None), lz4_decompress = (\<lambda>_ _. None)\<rparr>"

theorem framing_round_trip_witness:
  "\<exists>f f' g'. framing_new (compression_default\<lparr>cs_algorithm := StubV2\<rparr>) 1 StubOnly = Some f
    \<and> framing_encode no_compressors 0 [0x50, 7] 64 f = (f', Inr [frame [0x50, 0, 0x50, 7] TYPE_WHOLE 0 0 0])
    \<and> framing_run no_compressors [(frame [0x50, 0, 0x50, 7] TYPE_WHOLE 0 0 0, 3)] f = (g', [Inr (Some [0x50, 7])])"
proof -
  obtain f where f: "framing_new (compression_default\<lparr>cs_algorithm := StubV2\<rparr>) 1 StubOnly = Some f"
    by (simp add: framing_new_def)
  then have idle: "framing_idle f" by (auto simp: framing_new_def framing_idle_def fragment_inner_default_def split: if_splits)
  have enc: "framing_encode no_compressors 0 [0x50, 7] 64 f = (f, Inr [frame [0x50, 0, 0x50, 7] TYPE_WHOLE 0 0 0])"
    using f by (auto simp: framing_new_def framing_encode_def frame_payload_def escape_v2_stub_compression_def marker_bytes
        fragment_encode_def compression_default_def Let_def split: if_splits)
  have "compressors_ok no_compressors" by (simp add: compressors_ok_def no_compressors_def)
  from framing_round_trip [OF this enc _ idle, of 0 "[]" 3 0]
  obtain g' where "framing_run no_compressors [(frame [0x50, 0, 0x50, 7] TYPE_WHOLE 0 0 0, 3)] f = (g', [Inr (Some [0x50, 7])])"
    by (auto simp: same_framing_def fragment_consts)
  with f enc show ?thesis by blast
qed

subsection \<open>Outbound compression needs consent\<close>

datatype framing_event = FrameOut instant bytes nat | FrameIn instant bytes

fun framing_step :: "compressors \<Rightarrow> framing_event \<Rightarrow> data_channel_framing \<Rightarrow> data_channel_framing" where
  "framing_step co (FrameOut now p n) f = fst (framing_encode co now p n f)"
| "framing_step co (FrameIn now b) f = fst (framing_decode co now b f)"

text \<open>A framing made from the settings keeps them, whatever passes through it.\<close>

definition framing_of :: "compression_settings \<Rightarrow> bool \<Rightarrow> data_channel_framing \<Rightarrow> bool" where
  "framing_of s outbound f \<longleftrightarrow> df_compression f = s \<and> df_compress_outbound f = outbound"

lemma framing_encode_keeps: "framing_of s b f \<Longrightarrow> framing_of s b (fst (framing_encode co now p n f))"
proof -
  assume f: "framing_of s b f"
  obtain f1 framed where fr: "frame_payload co now p f = (f1, framed)" by fastforce
  obtain a where "f1 = f\<lparr>df_adaptive := a\<rparr>" using frame_payload_cases(1) [OF fr] by blast
  with f fr show ?thesis by (auto simp: framing_encode_def framing_of_def split: prod.split)
qed

lemma framing_decode_keeps: "framing_of s b f \<Longrightarrow> framing_of s b (fst (framing_decode co now p f))"
  by (auto simp: framing_decode_def framing_of_def split: prod.split sum.split option.split)

definition framing_start :: "compression_settings \<Rightarrow> u32 \<Rightarrow> allow_compression_policy \<Rightarrow> data_channel_framing" where
  "framing_start s fragment policy =
     \<lparr>df_compression = s, df_compress_outbound = compresses_outbound policy s, df_fragment_enabled = (fragment > 0),
      df_fragments = fragment_inner_default, df_adaptive = adaptive_default\<rparr>"

interpretation framings: event_system "framing_start s fragment policy" "framing_step co" "framing_of s (compresses_outbound policy s)"
  for co s fragment policy
proof
  show "framing_of s (compresses_outbound policy s) (framing_start s fragment policy)"
    by (simp add: framing_of_def framing_start_def)
  show "framing_of s (compresses_outbound policy s) (framing_step co e f)"
    if "framing_of s (compresses_outbound policy s) f" for e f
    using that framing_encode_keeps framing_decode_keeps by (cases e) simp_all
qed

text \<open>
  Property C18. Consent to compression. Unless the configuration says \<open>allow-compression yes\<close>
  literally, nothing the link sends is ever compressed: in every state the framing can reach, a
  payload is framed as the fixed uncompressed form of its mode, whatever the compressors and the
  clock do.
\<close>

theorem outbound_plain_without_consent:
  assumes "resolve_allow_compression_policy value s = Inr policy" "value \<noteq> ''yes''"
    and "framing_new s fragment policy = Some f"
  shows "snd (frame_payload co now p (fold (framing_step co') events f)) = plain_frame s p"
proof -
  have "policy \<noteq> Yes" using assms(1,2) by (auto simp: resolve_allow_compression_policy_def split: if_splits)
  then have no: "\<not> compresses_outbound policy s" by (simp add: compresses_outbound_def)
  have "f = framing_start s fragment policy" using assms(3) by (auto simp: framing_new_def framing_start_def split: if_splits)
  then have "framing_of s False (fold (framing_step co') events f)"
    using framings.invar_reached [of s policy co' events fragment] no by simp
  then show ?thesis
    using frame_payload_cases(2) [of co now p "fold (framing_step co') events f"]
    by (cases "frame_payload co now p (fold (framing_step co') events f)") (auto simp: framing_of_def)
qed

theorem outbound_plain_without_consent_witness:
  "\<exists>s f. resolve_compression_settings [] ''yes'' = Inr s \<and> resolve_allow_compression_policy [] s = Inr Asymmetric
    \<and> framing_new s 0 Asymmetric = Some f
    \<and> snd (frame_payload no_compressors 9 (replicate 200 5) (fold (framing_step no_compressors) [FrameOut 1 (replicate 300 1) 0] f))
        = OPENVPN_NO_COMPRESS_BYTE # replicate 200 5"
proof -
  let ?s = "compression_default\<lparr>cs_algorithm := Lzo\<rparr>"
  have s: "resolve_compression_settings [] ''yes'' = Inr ?s"
    by (simp add: resolve_compression_settings_def trim_def trim_start_def trim_end_def is_whitespace_def Let_def
        compression_default_def)
  have p: "resolve_allow_compression_policy [] ?s = Inr Asymmetric"
    by (simp add: resolve_allow_compression_policy_def non_stub_enabled_def)
  obtain f where f: "framing_new ?s 0 Asymmetric = Some f" by (simp add: framing_new_def framing_enabled_def)
  have "snd (frame_payload no_compressors 9 (replicate 200 5) (fold (framing_step no_compressors) [FrameOut 1 (replicate 300 1) 0] f))
      = plain_frame ?s (replicate 200 5)"
    by (rule outbound_plain_without_consent [OF p _ f]) simp
  also have "\<dots> = OPENVPN_NO_COMPRESS_BYTE # replicate 200 5" by (simp add: plain_frame_def prepend_def)
  finally show ?thesis using s p f by blast
qed

subsection \<open>Adaptive compression of data that grows\<close>

text \<open>
  \<open>lzo_compression_enabled\<close> is meant to switch compression off when it saves less than five percent.
  The savings are an unsigned difference: when the compressed form is larger than the data, as it is
  for data that is already compressed or encrypted, the difference wraps to a huge number and
  compression is never switched off (a build with overflow checks stops instead).
\<close>

lemma adaptive_growth_stays_on:
  assumes "cs_adaptive (df_compression f)" "\<not> ad_disabled (df_adaptive f)"
    and "ad_total_bytes (df_adaptive f) < ad_compressed_bytes (df_adaptive f)" "unat (ad_compressed_bytes (df_adaptive f)) < 2 ^ 63"
  shows "snd (lzo_compression_enabled now f)"
proof -
  let ?t = "ad_total_bytes (df_adaptive f)" and ?c = "ad_compressed_bytes (df_adaptive f)"
  have tc: "unat ?t < unat ?c" using assms(3) by (simp add: word_less_nat_alt)
  have "unat (?t - ?c) = unat ?t + 2 ^ 64 - unat ?c" using tc by (simp add: unat_sub_if')
  then have big: "2 ^ 63 \<le> unat (?t - ?c)" using assms(4) by simp
  have "unat (?t div (100 div LZO_ADAPTIVE_SAVE_PERCENT)) \<le> unat ?t" by (simp add: unat_div)
  then have "\<not> ?t - ?c < ?t div (100 div LZO_ADAPTIVE_SAVE_PERCENT)"
    using big tc assms(4) by (simp add: word_less_nat_alt)
  with assms(1,2) show ?thesis by (simp add: lzo_compression_enabled_def Let_def)
qed

end
