(* ===== verification/Ovpn_Mss.thy ===== *)
theory Ovpn_Mss
  imports Ovpn_Data_Codec Ovpn_Compression
begin

text \<open>
  Clamping the TCP maximum segment size of tunnelled connections (\<open>protocol/openvpn/mss.rs\<close>): finding
  the SYN segment of an IPv4 or IPv6 packet, lowering its MSS options, patching the TCP checksum,
  and deriving the limit from the size of an encoded packet. A mutable slice is a byte list that
  the operations return updated.
\<close>

subsection \<open>The clamp\<close>

definition IPV4_HEADER_MIN_LENGTH :: nat where "IPV4_HEADER_MIN_LENGTH = 20"
definition IPV6_HEADER_LENGTH :: nat where "IPV6_HEADER_LENGTH = 40"
definition TCP_HEADER_MIN_LENGTH :: nat where "TCP_HEADER_MIN_LENGTH = 20"
definition UDP_HEADER_LENGTH :: nat where "UDP_HEADER_LENGTH = 8"




text \<open>Reading and writing a big-endian 16-bit field.\<close>

definition get16 :: "nat \<Rightarrow> bytes \<Rightarrow> u16" where
  "get16 i b = of_be16 [b ! i, b ! (i + 1)]"

definition put16 :: "nat \<Rightarrow> u16 \<Rightarrow> bytes \<Rightarrow> bytes" where
  "put16 i w b = b[i := ucast (drop_bit 8 w), i + 1 := ucast w]"













subsection \<open>The limit\<close>





definition openvpn_outer_transport_overhead :: "string \<Rightarrow> ip_addr option \<Rightarrow> nat" where
  "openvpn_outer_transport_overhead protocol remote_ip =
     (let ipv6 = (case remote_ip of Some ip \<Rightarrow> \<not> is_ipv4 ip | None \<Rightarrow> protocol \<noteq> [] \<and> last protocol = CHR ''6'')
      in (if ipv6 then IPV6_HEADER_LENGTH else IPV4_HEADER_MIN_LENGTH)
         + (if prefix ''tcp'' protocol then TCP_HEADER_MIN_LENGTH else UDP_HEADER_LENGTH))"

subsection \<open>The Internet checksum\<close>
















lemma put16_simps [simp]:
  "length (put16 i w b) = length b" "j \<noteq> i \<Longrightarrow> j \<noteq> i + 1 \<Longrightarrow> put16 i w b ! j = b ! j"
  "i + 1 < length b \<Longrightarrow> get16 i (put16 i w b) = w"
proof -
  show "length (put16 i w b) = length b" "j \<noteq> i \<Longrightarrow> j \<noteq> i + 1 \<Longrightarrow> put16 i w b ! j = b ! j"
    by (simp_all add: put16_def)
  show "get16 i (put16 i w b) = w" if "i + 1 < length b"
    using that by (auto simp: put16_def get16_def bit_simps intro!: bit_word_eqI)
qed




subsection \<open>What clamping does to a segment\<close>

























subsection \<open>What the limit means\<close>












end
