(* ===== verification/Srs_Codec.thy ===== *)
theory Srs_Codec
  imports Zay_Text
begin

text \<open>
  The primitive encodings of the binary rule-set format (\<open>route/srs.rs\<close>): unsigned varints,
  big-endian integers, counted slices and IP addresses, and the IP set item, which stores merged
  address ranges and reads them back as CIDR prefixes. A reader is a function from the remaining
  bytes to a value and the bytes left, or an error.
\<close>

lemma unat_drop_bit: "unat (drop_bit n v) = unat v div 2 ^ n" for v :: "'a::len word"
proof -
  have "take_bit LENGTH('a) (unat v) = unat v" by (rule take_bit_nat_eq_self) (rule unsigned_less)
  then show ?thesis using unsigned_drop_bit_eq [of n v, where ?'a = nat] by (simp only: drop_bit_nat_eq drop_bit_eq_div)
qed

subsection \<open>Errors and readers\<close>

datatype srs_error =
  UnexpectedEof | VarintOverflow | CollectionTooLarge u64 | MalformedSuccinctSet | EmptySuccinctSet
| MalformedDomainKey | EmptyDomain | EmptyDomainSuffix | EmptyAdguardRule | InvalidIpSetVersion | IpSetTooLarge
| InvalidIpAddressLength nat | MixedFamilies | DescendingRange | AddressExceedsFamily | UnknownFamily u8

type_synonym 'a reader = "bytes \<Rightarrow> srs_error + ('a \<times> bytes)"

definition MAX_COLLECTION_LENGTH :: u64 where
  "MAX_COLLECTION_LENGTH = 16 * 1024 * 1024"

definition read_exact :: "nat \<Rightarrow> bytes reader" where
  "read_exact n s = (if n \<le> length s then Inr (take n s, drop n s) else Inl UnexpectedEof)"

definition read_u8 :: "u8 reader" where
  "read_u8 s = (case read_exact 1 s of Inl e \<Rightarrow> Inl e | Inr (bs, r) \<Rightarrow> Inr (hd bs, r))"

text \<open>\<open>for index in 0..10\<close>: the first argument counts the iterations left.\<close>

fun read_uvarint_loop :: "nat \<Rightarrow> nat \<Rightarrow> u64 \<Rightarrow> u64 reader" where
  "read_uvarint_loop 0 index v s = Inl VarintOverflow"
| "read_uvarint_loop (Suc n) index v s =
     (case read_u8 s of
        Inl e \<Rightarrow> Inl e
      | Inr (byte, r) \<Rightarrow>
          if index = 9 \<and> byte > 1 then Inl VarintOverflow
          else let v' = v OR push_bit (index * 7) (ucast (byte AND 0x7f))
               in if byte < 0x80 then Inr (v', r) else read_uvarint_loop n (Suc index) v' r)"

definition read_uvarint :: "u64 reader" where
  "read_uvarint s = read_uvarint_loop 10 0 0 s"

function write_uvarint :: "u64 \<Rightarrow> bytes" where
  "write_uvarint v =
     (let byte = ucast (v AND 0x7f) :: u8; v' = drop_bit 7 v
      in if v' \<noteq> 0 then (byte OR 0x80) # write_uvarint v' else [byte])"
  by auto
termination
proof (relation "measure unat")
  fix v :: u64 and byte :: u8 and v' :: u64
  assume v': "v' = drop_bit 7 v" "v' \<noteq> 0"
  then have "v \<noteq> 0" by auto
  then have "unat v div 2 ^ 7 < unat v" by (simp add: unat_gt_0 div_less_dividend)
  moreover have "unat v' = unat v div 2 ^ 7" unfolding v'(1) by (rule unat_drop_bit)
  ultimately show "(v', v) \<in> measure unat" by simp
qed simp

declare write_uvarint.simps [simp del]

definition read_length :: "nat reader" where
  "read_length s =
     (case read_uvarint s of
        Inl e \<Rightarrow> Inl e
      | Inr (v, r) \<Rightarrow> if v > MAX_COLLECTION_LENGTH then Inl (CollectionTooLarge v) else Inr (unat v, r))"

definition be_bytes :: "nat \<Rightarrow> 'a::len word \<Rightarrow> bytes" where
  "be_bytes m w = map (\<lambda>k. ucast (drop_bit (8 * k) w)) (rev [0..<m])"

abbreviation be64 :: "u64 \<Rightarrow> bytes" where
  "be64 \<equiv> be_bytes 8"

abbreviation be128 :: "u128 \<Rightarrow> bytes" where
  "be128 \<equiv> be_bytes 16"

definition of_be :: "bytes \<Rightarrow> 'a::len word" where
  "of_be bs = foldl (\<lambda>w b. push_bit 8 w OR ucast b) 0 bs"

definition read_u64_be :: "u64 reader" where
  "read_u64_be s = (case read_exact 8 s of Inl e \<Rightarrow> Inl e | Inr (bs, r) \<Rightarrow> Inr (of_be bs, r))"

fun read_items :: "'a reader \<Rightarrow> nat \<Rightarrow> 'a list reader" where
  "read_items rd 0 s = Inr ([], s)"
| "read_items rd (Suc n) s =
     (case rd s of
        Inl e \<Rightarrow> Inl e
      | Inr (x, r) \<Rightarrow> (case read_items rd n r of Inl e \<Rightarrow> Inl e | Inr (xs, r') \<Rightarrow> Inr (x # xs, r')))"

definition read_u64_slice :: "u64 list reader" where
  "read_u64_slice s = (case read_length s of Inl e \<Rightarrow> Inl e | Inr (n, r) \<Rightarrow> read_items read_u64_be n r)"

definition read_byte_slice :: "bytes reader" where
  "read_byte_slice s = (case read_length s of Inl e \<Rightarrow> Inl e | Inr (n, r) \<Rightarrow> read_exact n r)"

definition write_u64_slice :: "u64 list \<Rightarrow> bytes" where
  "write_u64_slice vs = write_uvarint (of_nat (length vs)) @ concat (map be64 vs)"

subsection \<open>Round trips of the primitives\<close>

lemma read_u8_Cons [simp]: "read_u8 (b # s) = Inr (b, s)"
  by (simp add: read_u8_def read_exact_def)

lemma read_exact_append [simp]: "length xs = n \<Longrightarrow> read_exact n (xs @ s) = Inr (xs, s)"
  by (simp add: read_exact_def)

lemma uvarint_group:
  fixes v :: u64
  shows "push_bit (i * 7) (ucast (ucast (v AND 0x7f) AND 0x7f :: u8)) OR push_bit (Suc i * 7) (drop_bit 7 v)
    = push_bit (i * 7) v"
proof (rule bit_word_eqI)
  fix n assume "n < LENGTH(64)"
  have m: "(0x7f :: 'b::len word) = mask 7" by (simp add: mask_eq_exp_minus_1)
  show "bit (push_bit (i * 7) (ucast (ucast (v AND 0x7f) AND 0x7f :: u8)) OR push_bit (Suc i * 7) (drop_bit 7 v)) n
      = bit (push_bit (i * 7) v) n"
    using \<open>n < LENGTH(64)\<close> unfolding m
    by (cases "n < i * 7"; cases "n < Suc i * 7") (auto simp: bit_simps algebra_simps)
qed

lemma u8_below_128: "b < 0x80 \<longleftrightarrow> \<not> bit (b :: u8) 7"
proof -
  have "unat b < 256" using unsigned_less [of b, where ?'a = nat] by simp
  then have "unat b div 128 = (if unat b < 128 then 0 else 1)" by (simp add: le_div_geq)
  moreover have "bit b 7 \<longleftrightarrow> bit (unat b) 7" by (simp add: bit_unsigned_iff)
  moreover have "bit (unat b) 7 \<longleftrightarrow> odd (unat b div 128)" unfolding bit_iff_odd by simp
  ultimately show ?thesis by (simp add: word_less_nat_alt)
qed

lemma varint_byte:
  fixes v :: u64
  defines "byte \<equiv> ucast (v AND 0x7f) :: u8"
  shows "byte < 0x80" "\<not> byte OR 0x80 < 0x80" "(byte OR 0x80) AND 0x7f = byte AND 0x7f"
proof -
  have m: "(0x7f :: 'b::len word) = mask 7" by (simp add: mask_eq_exp_minus_1)
  have e: "(0x80 :: u8) = push_bit 7 1" by simp
  show "byte < 0x80" "\<not> byte OR 0x80 < 0x80"
    unfolding u8_below_128 byte_def m by (simp_all add: bit_simps)
  show "(byte OR 0x80) AND 0x7f = byte AND 0x7f"
    unfolding m by (rule bit_word_eqI) (auto simp: bit_simps e simp del: push_bit_of_1)
qed

lemma unat_drop_bit_7: "unat (drop_bit 7 (v :: u64)) = unat v div 128"
  unfolding unat_drop_bit by simp

lemma read_uvarint_loop_write:
  assumes "unat v < 2 ^ (64 - 7 * i)" "i \<le> 9"
  shows "read_uvarint_loop (10 - i) i acc (write_uvarint v @ s) = Inr (acc OR push_bit (i * 7) v, s)"
  using assms
proof (induction v arbitrary: i acc rule: write_uvarint.induct)
  case (1 v)
  define byte :: u8 where "byte = ucast (v AND 0x7f)"
  define v' where "v' = drop_bit 7 v"
  note b = varint_byte [of v, folded byte_def]
  obtain n where n: "10 - i = Suc n" using 1(3) by (cases "10 - i") auto
  have group: "push_bit (i * 7) (ucast (byte AND 0x7f)) OR push_bit (Suc i * 7) v' = push_bit (i * 7) v"
    using uvarint_group [of i v] by (simp add: byte_def v'_def)
  have v9: "v' = 0" "\<not> byte > 1" if "i = 9"
  proof -
    from that 1(2) have "unat v < 2" by simp
    then have "unat v' = 0" unfolding v'_def unat_drop_bit_7 by simp
    then show "v' = 0" by (simp add: unat_eq_0)
    from \<open>unat v < 2\<close> have "v = 0 \<or> v = 1" by (metis less_2_cases_iff unat_0 unat_1 word_unat_eq_iff One_nat_def)
    then show "\<not> byte > 1" by (auto simp: byte_def)
  qed
  show ?case
  proof (cases "v' = 0")
    case True
    with group have "push_bit (i * 7) (ucast (byte AND 0x7f)) = push_bit (i * 7) v" by simp
    then show ?thesis using b(1) v9(2) True
      unfolding n write_uvarint.simps [of v] Let_def byte_def [symmetric] v'_def [symmetric] by simp
  next
    case False
    with v9 have i: "i \<noteq> 9" by blast
    with 1(3) have "64 - 7 * i = 7 + (64 - 7 * Suc i)" "Suc i \<le> 9" "n = 10 - Suc i" using n by auto
    then have "(2 :: nat) ^ (64 - 7 * i) = 2 ^ (64 - 7 * Suc i) * 128" by (simp only: power_add) simp
    with 1(2) have "unat v' < 2 ^ (64 - 7 * Suc i)" unfolding v'_def unat_drop_bit_7
      by (simp only: less_mult_imp_div_less)
    from 1(1) [OF byte_def v'_def False this \<open>Suc i \<le> 9\<close>]
    have "read_uvarint_loop n (Suc i) (acc OR push_bit (i * 7) (ucast (byte AND 0x7f))) (write_uvarint v' @ s)
        = Inr (acc OR push_bit (i * 7) v, s)"
      unfolding \<open>n = 10 - Suc i\<close> by (simp add: group [symmetric] or.assoc)
    then show ?thesis using b(2,3) False i
      unfolding n write_uvarint.simps [of v] Let_def byte_def [symmetric] v'_def [symmetric] by simp
  qed
qed

lemma read_write_uvarint [simp, codec_simps]: "read_uvarint (write_uvarint v @ s) = Inr (v, s)"
  using read_uvarint_loop_write [of v 0 0 s] unsigned_less [of v, where ?'a = nat] by (simp add: read_uvarint_def)

lemma length_be_bytes [simp]: "length (be_bytes m w) = m"
  by (simp add: be_bytes_def)

lemma of_be_be_bytes_acc:
  "foldl (\<lambda>w b. push_bit 8 w OR ucast b) acc (be_bytes m w) = push_bit (8 * m) acc OR take_bit (8 * m) w"
  for acc w :: "'a::len word"
proof (induction m arbitrary: acc)
  case 0
  then show ?case by (simp add: be_bytes_def)
next
  case (Suc m)
  have "push_bit (8 * m) (push_bit 8 acc OR ucast (ucast (drop_bit (8 * m) w) :: u8)) OR take_bit (8 * m) w
      = push_bit (8 * Suc m) acc OR take_bit (8 * Suc m) w"
  proof (rule bit_word_eqI)
    fix n assume "n < LENGTH('a)"
    then show "bit (push_bit (8 * m) (push_bit 8 acc OR ucast (ucast (drop_bit (8 * m) w) :: u8)) OR take_bit (8 * m) w) n
        = bit (push_bit (8 * Suc m) acc OR take_bit (8 * Suc m) w) n"
      by (cases "n < 8 * m"; cases "n < 8 * Suc m") (auto simp: bit_simps algebra_simps)
  qed
  with Suc show ?case by (simp add: be_bytes_def)
qed

lemma of_be_be_bytes [simp, codec_simps]: "LENGTH('a) \<le> 8 * m \<Longrightarrow> of_be (be_bytes m w) = w"
  for w :: "'a::len word"
  unfolding of_be_def of_be_be_bytes_acc by (simp add: take_bit_word_eq_self)

lemma read_length_write [codec_simps]:
  "n \<le> 16 * 1024 * 1024 \<Longrightarrow> read_length (write_uvarint (of_nat n) @ s) = Inr (n, s)"
  by (simp add: read_length_def MAX_COLLECTION_LENGTH_def word_less_nat_alt unat_of_nat take_bit_nat_eq_self)

lemma read_items_append:
  "(\<And>x s. x \<in> set xs \<Longrightarrow> rd (wr x @ s) = Inr (x, s)) \<Longrightarrow> read_items rd (length xs) (concat (map wr xs) @ s) = Inr (xs, s)"
  by (induction xs arbitrary: s) auto

lemma read_u64_be_write [simp, codec_simps]: "read_u64_be (be64 w @ s) = Inr (w, s)"
  by (simp add: read_u64_be_def)

lemma read_u64_slice_write [codec_simps]:
  "length vs \<le> 16 * 1024 * 1024 \<Longrightarrow> read_u64_slice (write_u64_slice vs @ s) = Inr (vs, s)"
  by (simp add: read_u64_slice_def write_u64_slice_def read_length_write read_items_append del: of_nat_numeral)

lemma read_byte_slice_write [codec_simps]:
  "length bs \<le> 16 * 1024 * 1024 \<Longrightarrow> read_byte_slice (write_uvarint (of_nat (length bs)) @ bs @ s) = Inr (bs, s)"
  by (simp add: read_byte_slice_def read_length_write)

subsection \<open>IP addresses\<close>

fun write_ip_address :: "ip_addr \<Rightarrow> bytes" where
  "write_ip_address (V4 a) = write_uvarint 4 @ be32 a"
| "write_ip_address (V6 a) = write_uvarint 16 @ be128 a"

definition write_ip_addr :: "u8 \<Rightarrow> u128 \<Rightarrow> srs_error + bytes" where
  "write_ip_addr family address =
     (if family = 4 then Inr (write_ip_address (V4 (ucast address)))
      else if family = 6 then Inr (write_ip_address (V6 address))
      else Inl (UnknownFamily family))"

definition read_ip_addr :: "ip_addr reader" where
  "read_ip_addr s =
     (case read_length s of
        Inl e \<Rightarrow> Inl e
      | Inr (n, r) \<Rightarrow>
          if n = 4 then (case read_exact 4 r of Inl e \<Rightarrow> Inl e | Inr (bs, r') \<Rightarrow> Inr (V4 (of_be32 bs), r'))
          else if n = 16 then (case read_exact 16 r of Inl e \<Rightarrow> Inl e | Inr (bs, r') \<Rightarrow> Inr (V6 (of_be bs), r'))
          else Inl (InvalidIpAddressLength n))"

lemma read_write_ip_address [simp, codec_simps]: "read_ip_addr (write_ip_address a @ s) = Inr (a, s)"
  using read_length_write [of 4] read_length_write [of 16] by (cases a) (simp_all add: read_ip_addr_def)

end
