(* ===== verification/Srs_Ip_Set.thy ===== *)
theory Srs_Ip_Set
  imports Srs_Codec "HOL-Library.Product_Lexorder"
begin

text \<open>
  The IP set item of the binary rule-set format (\<open>write_optional_ip_set\<close>, \<open>read_ip_set\<close> and
  \<open>range_to_prefixes\<close> of \<open>route/srs.rs\<close>). The writer sorts and merges address ranges, the reader
  splits every stored range into CIDR prefixes.
\<close>

subsection \<open>Splitting a range into prefixes\<close>

definition trailing_zeros :: "u128 \<Rightarrow> nat" where
  "trailing_zeros w = length (takeWhile (\<lambda>n. \<not> bit w n) [0..<128])"

fun ilog2_nat :: "nat \<Rightarrow> nat" where
  "ilog2_nat n = (if n < 2 then 0 else Suc (ilog2_nat (n div 2)))"

declare ilog2_nat.simps [simp del]

definition ilog2 :: "u128 \<Rightarrow> nat" where
  "ilog2 w = ilog2_nat (unat w)"

lemma ilog2_nat_le: "0 < n \<Longrightarrow> 2 ^ ilog2_nat n \<le> n"
proof (induction n rule: ilog2_nat.induct)
  case (1 n)
  show ?case
  proof (cases "n < 2")
    case True
    with 1(2) show ?thesis by (simp add: ilog2_nat.simps)
  next
    case False
    with 1 have "2 * 2 ^ ilog2_nat (n div 2) \<le> 2 * (n div 2)" by simp
    also have "\<dots> \<le> n" by simp
    finally show ?thesis using False by (subst ilog2_nat.simps) simp
  qed
qed

lemma trailing_zeros_dvd:
  assumes "h \<le> trailing_zeros w"
  shows "2 ^ h dvd unat w"
proof -
  have "\<not> bit w n" if "n < h" for n
  proof -
    from that assms have n: "n < length (takeWhile (\<lambda>n. \<not> bit w n) [0..<128])"
      by (simp add: trailing_zeros_def)
    then have "n < 128" using length_takeWhile_le [of "\<lambda>n. \<not> bit w n" "[0..<128]"] by simp
    then have "takeWhile (\<lambda>n. \<not> bit w n) [0..<128] ! n = n" using takeWhile_nth [OF n] by simp
    with nth_mem [OF n] show ?thesis by (auto dest: set_takeWhileD)
  qed
  then have "take_bit h (unat w) = 0"
    by (intro bit_eqI) (simp add: bit_take_bit_iff bit_unsigned_iff)
  then show ?thesis by (simp add: take_bit_eq_0_iff)
qed

text \<open>
  One iteration picks the largest aligned block that fits; \<open>host_bits\<close> is its exponent. \<open>render\<close> is
  the closure that formats a prefix.
\<close>

definition range_host_bits :: "nat \<Rightarrow> u128 \<Rightarrow> u128 \<Rightarrow> u128 \<Rightarrow> nat" where
  "range_host_bits bits maximum ende start =
     (let alignment = (if start = 0 then bits else min (trailing_zeros start) bits);
          capacity = (if start = 0 \<and> ende = maximum then bits else ilog2 (ende - start + 1))
      in min alignment capacity)"

function range_prefixes_loop :: "(u128 \<Rightarrow> nat \<Rightarrow> 'r) \<Rightarrow> nat \<Rightarrow> u128 \<Rightarrow> u128 \<Rightarrow> u128 \<Rightarrow> 'r list" where
  "range_prefixes_loop render bits maximum ende start =
     (let host_bits = range_host_bits bits maximum ende start;
          block = push_bit host_bits 1 :: u128
      in render start (bits - host_bits) #
         (if host_bits = bits \<or> block - 1 = ende - start then []
          else range_prefixes_loop render bits maximum ende (start + block)))"
  by auto

lemma unat_add_small:
  fixes a b :: "'a::len word"
  assumes "unat a + unat b < 2 ^ LENGTH('a)"
  shows "unat (a + b) = unat a + unat b"
  using assms by (simp only: unat_add_lem)

lemma host_block:
  fixes start ende maximum :: u128 and bits :: nat
  defines "h \<equiv> range_host_bits bits maximum ende start"
  assumes "h \<noteq> bits"
  shows "h < 128" "unat (push_bit h 1 :: u128) = 2 ^ h" "2 ^ h \<le> Suc (unat (ende - start))"
proof -
  define d where "d = ende - start"
  have le: "h \<le> ilog2 (d + 1)"
    using assms(2) unfolding h_def d_def range_host_bits_def Let_def by (auto split: if_splits)
  have *: "2 ^ ilog2 (d + 1) \<le> Suc (unat d) \<and> ilog2 (d + 1) < 128"
  proof (cases "d = - 1")
    case True
    then show ?thesis by (simp add: ilog2_def ilog2_nat.simps)
  next
    case False
    then have u: "unat (d + 1) = Suc (unat d)" by (rule unat_succ)
    then have "2 ^ ilog2 (d + 1) \<le> Suc (unat d)" using ilog2_nat_le [of "unat (d + 1)"] by (simp add: ilog2_def)
    moreover have "Suc (unat d) < 2 ^ 128" using u unsigned_less [of "d + 1", where ?'a = nat] by simp
    ultimately have "(2 :: nat) ^ ilog2 (d + 1) < 2 ^ 128" by linarith
    then have "ilog2 (d + 1) < 128" by (rule power_less_imp_less_exp [rotated]) simp
    with \<open>2 ^ ilog2 (d + 1) \<le> Suc (unat d)\<close> show ?thesis by simp
  qed
  with le show "h < 128" by simp
  then show "unat (push_bit h 1 :: u128) = 2 ^ h"
    by (simp add: unsigned_push_bit_eq take_bit_push_bit del: push_bit_of_1)
  have "(2 :: nat) ^ h \<le> 2 ^ ilog2 (d + 1)" using le by (rule power_increasing) simp
  with * show "2 ^ h \<le> Suc (unat (ende - start))" unfolding d_def by linarith
qed

lemma next_start:
  fixes start ende maximum :: u128 and bits :: nat
  defines "h \<equiv> range_host_bits bits maximum ende start"
  assumes "h \<noteq> bits" "push_bit h 1 - 1 \<noteq> ende - start"
  shows "unat (ende - (start + push_bit h 1)) = unat (ende - start) - 2 ^ h" "2 ^ h \<le> unat (ende - start)"
proof -
  note b = host_block [of bits maximum ende start, folded h_def, OF assms(2)]
  define d where "d = ende - start"
  have "unat (push_bit h 1 - 1 :: u128) = 2 ^ h - 1"
    by (subst unat_sub) (simp_all add: b(2) word_le_nat_alt del: push_bit_of_1)
  with assms(3) have "unat d \<noteq> 2 ^ h - 1" unfolding d_def by (metis word_unat_eq_iff)
  with b(3) show "2 ^ h \<le> unat (ende - start)" unfolding d_def by linarith
  then have "push_bit h 1 \<le> d" by (simp add: word_le_nat_alt b(2) d_def del: push_bit_of_1)
  then have "unat (d - push_bit h 1) = unat d - 2 ^ h" by (simp add: unat_sub b(2) del: push_bit_of_1)
  then show "unat (ende - (start + push_bit h 1)) = unat (ende - start) - 2 ^ h"
    by (simp add: d_def algebra_simps del: push_bit_of_1)
qed

termination range_prefixes_loop
proof (relation "measure (\<lambda>(_, _, _, ende, start). unat (ende - start))", simp)
  fix render :: "u128 \<Rightarrow> nat \<Rightarrow> 'r" and bits maximum ende start h and block :: u128
  assume "h = range_host_bits bits maximum ende start" "block = push_bit h 1"
    "\<not> (h = bits \<or> block - 1 = ende - start)"
  with next_start [of bits maximum ende start]
  have "unat (ende - (start + block)) = unat (ende - start) - 2 ^ h" "2 ^ h \<le> unat (ende - start)"
    by simp_all
  moreover have "(0 :: nat) < 2 ^ h" by simp
  ultimately have "unat (ende - (start + block)) < unat (ende - start)" by linarith
  then show "((render, bits, maximum, ende, start + block), (render, bits, maximum, ende, start))
      \<in> measure (\<lambda>(_, _, _, ende, start). unat (ende - start))"
    by simp
qed

declare range_prefixes_loop.simps [simp del]

lemma range_prefixes_render:
  "range_prefixes_loop render bits maximum ende start
     = map (\<lambda>(a, p). render a p) (range_prefixes_loop Pair bits maximum ende start)"
proof (induction render bits maximum ende start rule: range_prefixes_loop.induct)
  case (1 render bits maximum ende start)
  show ?case
    by (subst (1 2) range_prefixes_loop.simps) (simp add: Let_def 1 del: push_bit_of_1)
qed

lemma host_bits_whole:
  fixes start ende maximum :: u128
  assumes "range_host_bits bits maximum ende start = bits" "start \<le> ende" "unat ende < 2 ^ bits"
    "unat maximum = 2 ^ bits - 1"
  shows "start = 0" "unat ende = 2 ^ bits - 1"
proof -
  have lt: "unat start < 2 ^ bits" using assms(2,3) by (simp add: word_le_nat_alt)
  show s0: "start = 0"
  proof (rule ccontr)
    assume "start \<noteq> 0"
    with assms(1) have "bits \<le> trailing_zeros start"
      unfolding range_host_bits_def Let_def by (auto split: if_splits)
    then have "2 ^ bits dvd unat start" by (rule trailing_zeros_dvd)
    with lt have "unat start = 0" using dvd_imp_le by fastforce
    with \<open>start \<noteq> 0\<close> show False by (simp add: unat_eq_0)
  qed
  show "unat ende = 2 ^ bits - 1"
  proof (cases "ende = maximum")
    case True
    with assms(4) show ?thesis by simp
  next
    case False
    with s0 assms(1) have le: "bits \<le> ilog2 (ende + 1)"
      unfolding range_host_bits_def Let_def by (auto split: if_splits)
    show ?thesis
    proof (cases "ende = - 1")
      case True
      with le have "bits = 0" by (simp add: ilog2_def ilog2_nat.simps)
      with assms(3) show ?thesis by simp
    next
      case False
      then have u: "unat (ende + 1) = Suc (unat ende)" by (rule unat_succ)
      have "(2 :: nat) ^ bits \<le> 2 ^ ilog2 (ende + 1)" using le by (rule power_increasing) simp
      also have "\<dots> \<le> Suc (unat ende)" using ilog2_nat_le [of "unat (ende + 1)"] u by (simp add: ilog2_def)
      finally show ?thesis using assms(3) by linarith
    qed
  qed
qed

lemma host_bits_dvd: "2 ^ range_host_bits bits maximum ende start dvd unat start"
  by (cases "start = 0") (auto simp: range_host_bits_def Let_def intro!: trailing_zeros_dvd)

lemma host_bits_le: "range_host_bits bits maximum ende start \<le> bits"
  by (auto simp: range_host_bits_def Let_def)

abbreviation block_addresses :: "nat \<Rightarrow> u128 \<times> nat \<Rightarrow> nat list" where
  "block_addresses bits ap \<equiv> [unat (fst ap)..<unat (fst ap) + 2 ^ (bits - snd ap)]"

lemma range_prefixes_exact:
  fixes start ende maximum :: u128
  assumes "start \<le> ende" "unat ende < 2 ^ bits" "unat maximum = 2 ^ bits - 1"
  shows "concat (map (block_addresses bits) (range_prefixes_loop Pair bits maximum ende start))
      = [unat start..<Suc (unat ende)]
    \<and> list_all (\<lambda>(a, p). p \<le> bits \<and> 2 ^ (bits - p) dvd unat a) (range_prefixes_loop Pair bits maximum ende start)"
  using assms
proof (induction "Pair :: u128 \<Rightarrow> nat \<Rightarrow> u128 \<times> nat" bits maximum ende start rule: range_prefixes_loop.induct)
  case (1 bits maximum ende start)
  define h where "h = range_host_bits bits maximum ende start"
  define block :: u128 where "block = push_bit h 1"
  have le: "h \<le> bits" unfolding h_def by (rule host_bits_le)
  then have hb: "bits - (bits - h) = h" by simp
  have dvd: "2 ^ h dvd unat start" unfolding h_def by (rule host_bits_dvd)
  have d: "unat (ende - start) = unat ende - unat start" using 1(2) by (simp add: unat_sub)
  note unf = range_prefixes_loop.simps [of Pair bits maximum ende start, folded h_def, unfolded Let_def, folded block_def]
  have se: "unat start \<le> unat ende" using 1(2) by (simp add: word_le_nat_alt)
  show ?case
  proof (cases "h = bits \<or> block - 1 = ende - start")
    case True
    have "unat start + 2 ^ h = Suc (unat ende)"
    proof (cases "h = bits")
      case True
      from host_bits_whole [OF _ 1(2-4)] True show ?thesis by (simp add: h_def)
    next
      case False
      with True have "unat (ende - start) = unat (block - 1)" by simp
      also have "\<dots> = 2 ^ h - 1" using host_block(1,2) [OF False [unfolded h_def]] unfolding block_def h_def [symmetric]
        by (subst unat_sub) (simp_all add: word_le_nat_alt del: push_bit_of_1)
      finally have "Suc (unat ende - unat start) = 2 ^ h" using d by simp
      with se show ?thesis by linarith
    qed
    with True le dvd show ?thesis by (simp add: unf hb)
  next
    case False
    then have f: "range_host_bits bits maximum ende start \<noteq> bits"
      "push_bit (range_host_bits bits maximum ende start) 1 - 1 \<noteq> ende - start"
      by (simp_all add: h_def block_def)
    note n = next_start [OF f, folded h_def]
    have fits: "unat start + 2 ^ h \<le> unat ende" using n(2) d se by simp
    have bu: "unat block = 2 ^ h" using host_block(2) [OF f(1)] by (simp only: h_def block_def)
    have st: "unat (start + block) = unat start + 2 ^ h"
      using fits unsigned_less [of ende, where ?'a = nat] by (subst unat_add_small) (simp_all add: bu)
    then have le2: "start + block \<le> ende" using fits by (simp add: word_le_nat_alt)
    have "[unat start..<unat start + 2 ^ h] @ [unat start + 2 ^ h..<Suc (unat ende)] = [unat start..<Suc (unat ende)]"
      using upt_add_eq_append [of "unat start" "unat start + 2 ^ h" "Suc (unat ende) - (unat start + 2 ^ h)"] fits
      by simp
    with 1(1) [OF h_def block_def False le2 1(3,4)] st le dvd False show ?thesis
      by (simp add: unf hb)
  qed
qed

subsection \<open>Ranges and prefixes\<close>

record ip_range =
  ir_family :: u8
  ir_from :: u128
  ir_to :: u128

definition merge_range :: "ip_range list \<Rightarrow> ip_range \<Rightarrow> ip_range list" where
  "merge_range merged rg =
     (if merged \<noteq> [] \<and> ir_family (last merged) = ir_family rg
         \<and> ir_from rg \<le> sat_add (ir_to (last merged)) 1
      then butlast merged @ [(last merged)\<lparr>ir_to := max (ir_to (last merged)) (ir_to rg)\<rparr>]
      else merged @ [rg])"

definition merge_ranges :: "ip_range list \<Rightarrow> ip_range list" where
  "merge_ranges ranges =
     foldl merge_range [] (sort_key (\<lambda>r. (ir_family r, ir_from r, ir_to r)) ranges)"

fun write_ranges :: "ip_range list \<Rightarrow> srs_error + bytes" where
  "write_ranges [] = Inr []"
| "write_ranges (r # rs) =
     (case write_ip_addr (ir_family r) (ir_from r) of
        Inl e \<Rightarrow> Inl e
      | Inr a \<Rightarrow>
          (case write_ip_addr (ir_family r) (ir_to r) of
             Inl e \<Rightarrow> Inl e
           | Inr b \<Rightarrow> (case write_ranges rs of Inl e \<Rightarrow> Inl e | Inr bs \<Rightarrow> Inr (a @ b @ bs))))"

text \<open>The ranges are those of the parsed prefixes of the configuration field.\<close>

definition write_optional_ip_set :: "u8 \<Rightarrow> ip_range list \<Rightarrow> srs_error + bytes" where
  "write_optional_ip_set item ranges =
     (if ranges = [] then Inr []
      else let merged = merge_ranges ranges
           in case write_ranges merged of
                Inl e \<Rightarrow> Inl e
              | Inr bs \<Rightarrow> Inr ([item, 1] @ be64 (of_nat (length merged)) @ bs))"

definition range_to_prefixes_inner :: "(u128 \<Rightarrow> nat \<Rightarrow> 'r) \<Rightarrow> u128 \<Rightarrow> u128 \<Rightarrow> nat \<Rightarrow> srs_error + 'r list" where
  "range_to_prefixes_inner render start ende bits =
     (if start > ende then Inl DescendingRange
      else let maximum = (if bits = 128 then - 1 else push_bit bits 1 - 1)
           in if ende > maximum then Inl AddressExceedsFamily
              else Inr (range_prefixes_loop render bits maximum ende start))"

fun prefix_text :: "ip_addr \<times> nat \<Rightarrow> string" where
  "prefix_text (a, p) = ip_to_string a @ ''/'' @ radix_string 10 p"

fun range_to_prefixes :: "ip_addr \<Rightarrow> ip_addr \<Rightarrow> srs_error + string list" where
  "range_to_prefixes (V4 f) (V4 t) =
     range_to_prefixes_inner (\<lambda>v p. prefix_text (V4 (ucast v), p)) (ucast f) (ucast t) 32"
| "range_to_prefixes (V6 f) (V6 t) = range_to_prefixes_inner (\<lambda>v p. prefix_text (V6 v, p)) f t 128"
| "range_to_prefixes _ _ = Inl MixedFamilies"

definition read_ip_range :: "string list reader" where
  "read_ip_range s =
     (case read_ip_addr s of
        Inl e \<Rightarrow> Inl e
      | Inr (f, s1) \<Rightarrow>
          (case read_ip_addr s1 of
             Inl e \<Rightarrow> Inl e
           | Inr (t, s2) \<Rightarrow>
               (case range_to_prefixes f t of Inl e \<Rightarrow> Inl e | Inr ps \<Rightarrow> Inr (ps, s2))))"

definition read_ip_set :: "string list reader" where
  "read_ip_set s =
     (case read_u8 s of
        Inl e \<Rightarrow> Inl e
      | Inr (version, s1) \<Rightarrow>
          if version \<noteq> 1 then Inl InvalidIpSetVersion
          else case read_u64_be s1 of
                 Inl e \<Rightarrow> Inl e
               | Inr (count, s2) \<Rightarrow>
                   if count > MAX_COLLECTION_LENGTH then Inl IpSetTooLarge
                   else case read_items read_ip_range (unat count) s2 of
                          Inl e \<Rightarrow> Inl e
                        | Inr (pss, s3) \<Rightarrow> Inr (concat pss, s3))"

subsection \<open>What a set denotes\<close>

definition range_wf :: "ip_range \<Rightarrow> bool" where
  "range_wf r \<longleftrightarrow> ir_from r \<le> ir_to r
     \<and> (ir_family r = 4 \<and> unat (ir_to r) < 2 ^ 32 \<or> ir_family r = 6)"

fun in_range :: "ip_addr \<Rightarrow> ip_range \<Rightarrow> bool" where
  "in_range (V4 a) r \<longleftrightarrow> ir_family r = 4 \<and> ir_from r \<le> ucast a \<and> ucast a \<le> ir_to r"
| "in_range (V6 a) r \<longleftrightarrow> ir_family r = 6 \<and> ir_from r \<le> a \<and> a \<le> ir_to r"

text \<open>A CIDR prefix covers the addresses that agree with it on the leading bits.\<close>

fun in_prefix :: "ip_addr \<Rightarrow> ip_addr \<times> nat \<Rightarrow> bool" where
  "in_prefix (V4 a) (V4 n, p) \<longleftrightarrow> p \<le> 32 \<and> drop_bit (32 - p) a = drop_bit (32 - p) n"
| "in_prefix (V6 a) (V6 n, p) \<longleftrightarrow> p \<le> 128 \<and> drop_bit (128 - p) a = drop_bit (128 - p) n"
| "in_prefix _ _ \<longleftrightarrow> False"

abbreviation range_addresses :: "ip_range list \<Rightarrow> (u8 \<times> u128) set" where
  "range_addresses rs \<equiv> {(f, a). \<exists>r \<in> set rs. f = ir_family r \<and> ir_from r \<le> a \<and> a \<le> ir_to r}"

lemma merge_range_addresses:
  assumes "ir_from rg \<le> ir_to rg"
    and "merged \<noteq> [] \<Longrightarrow> ir_from (last merged) \<le> ir_to (last merged)"
    and "merged \<noteq> [] \<Longrightarrow> ir_family (last merged) = ir_family rg \<Longrightarrow> ir_from (last merged) \<le> ir_from rg"
  shows "range_addresses (merge_range merged rg) = range_addresses (merged @ [rg])"
proof (cases "merged \<noteq> [] \<and> ir_family (last merged) = ir_family rg
    \<and> ir_from rg \<le> sat_add (ir_to (last merged)) 1")
  case True
  define l where "l = last merged"
  then obtain m where m: "merged = m @ [l]" using True append_butlast_last_id by metis
  have le: "ir_from l \<le> ir_from rg" "ir_from l \<le> ir_to l" using assms(2,3) True by (auto simp: l_def)
  have "unat (ir_from rg) \<le> unat (ir_to l) + 1"
    using True unat_sat_add [of "ir_to l" 1] by (auto simp: l_def word_le_nat_alt min_def split: if_splits)
  then have "(ir_from l \<le> a \<and> a \<le> max (ir_to l) (ir_to rg))
      \<longleftrightarrow> (ir_from l \<le> a \<and> a \<le> ir_to l \<or> ir_from rg \<le> a \<and> a \<le> ir_to rg)" for a
    using le assms(1) by (auto simp: word_le_nat_alt max_def)
  then show ?thesis using True by (auto simp: merge_range_def m)
next
  case False
  then show ?thesis by (auto simp: merge_range_def)
qed

definition precedes :: "ip_range \<Rightarrow> ip_range \<Rightarrow> bool" where
  "precedes l r \<longleftrightarrow> ir_family l < ir_family r \<or> ir_family l = ir_family r \<and> ir_from l \<le> ir_from r"

lemma precedes_trans: "precedes a b \<Longrightarrow> precedes b c \<Longrightarrow> precedes a c"
  by (auto simp: precedes_def)

lemma merge_range_wf:
  assumes "list_all range_wf m" "range_wf r" "m \<noteq> [] \<Longrightarrow> precedes (last m) r"
  shows "list_all range_wf (merge_range m r)" "merge_range m r \<noteq> []"
    "\<And>x. precedes r x \<Longrightarrow> precedes (last (merge_range m r)) x"
proof -
  have l: "m \<noteq> [] \<Longrightarrow> range_wf (last m)" using assms(1) by (simp add: list_all_iff)
  then have l': "m \<noteq> [] \<Longrightarrow> ir_to (last m) \<le> x \<Longrightarrow> ir_from (last m) \<le> x" for x
    by (auto simp: range_wf_def)
  show "list_all range_wf (merge_range m r)"
    using assms(1,2) l l'
    by (auto simp: merge_range_def list_all_iff range_wf_def max_def dest: in_set_butlastD)
  show "merge_range m r \<noteq> []" by (simp add: merge_range_def)
  fix x assume x: "precedes r x"
  with assms(3) show "precedes (last (merge_range m r)) x"
    by (auto simp: merge_range_def precedes_def)
qed

lemma merge_fold:
  assumes "list_all range_wf m" "list_all range_wf rs" "sorted_wrt precedes rs"
    and "m \<noteq> [] \<Longrightarrow> list_all (precedes (last m)) rs"
  shows "range_addresses (foldl merge_range m rs) = range_addresses (m @ rs)
    \<and> list_all range_wf (foldl merge_range m rs) \<and> length (foldl merge_range m rs) \<le> length m + length rs"
  using assms
proof (induction rs arbitrary: m)
  case (Cons r rs)
  have p: "m \<noteq> [] \<Longrightarrow> precedes (last m) r" using Cons.prems(4) by simp
  note w = merge_range_wf [OF Cons.prems(1) _ p]
  have r: "range_wf r" using Cons.prems(2) by simp
  have "list_all (precedes (last (merge_range m r))) rs"
    using Cons.prems(3) w(3) [OF r] by (simp add: list_all_iff)
  with Cons.IH [OF w(1) [OF r]] Cons.prems(2,3)
  have ih: "range_addresses (foldl merge_range (merge_range m r) rs) = range_addresses (merge_range m r @ rs)
    \<and> list_all range_wf (foldl merge_range (merge_range m r) rs)
    \<and> length (foldl merge_range (merge_range m r) rs) \<le> length (merge_range m r) + length rs" by simp
  have "range_addresses (merge_range m r) = range_addresses (m @ [r])"
  proof (rule merge_range_addresses)
    show "ir_from r \<le> ir_to r" using r by (simp add: range_wf_def)
    show "m \<noteq> [] \<Longrightarrow> ir_from (last m) \<le> ir_to (last m)" using Cons.prems(1) by (simp add: list_all_iff range_wf_def)
    show "m \<noteq> [] \<Longrightarrow> ir_family (last m) = ir_family r \<Longrightarrow> ir_from (last m) \<le> ir_from r"
      using p by (simp add: precedes_def)
  qed
  moreover have "range_addresses (xs @ rs) = range_addresses xs \<union> range_addresses rs" for xs by auto
  moreover have "length (merge_range m r) \<le> Suc (length m)" by (simp add: merge_range_def)
  ultimately show ?case using ih by auto
qed simp

lemma merge_ranges_exact:
  assumes "list_all range_wf rs"
  shows "range_addresses (merge_ranges rs) = range_addresses rs"
    "list_all range_wf (merge_ranges rs)" "length (merge_ranges rs) \<le> length rs"
proof -
  let ?k = "\<lambda>r. (ir_family r, ir_from r, ir_to r)"
  have "sorted_wrt (\<lambda>x y. ?k x \<le> ?k y) (sort_key ?k rs)"
    using sorted_sort_key [of ?k rs] by (simp add: sorted_map)
  then have "sorted_wrt precedes (sort_key ?k rs)"
    by (rule sorted_wrt_mono_rel [rotated]) (auto simp: precedes_def)
  from merge_fold [OF _ _ this, of "[]"] assms
  show "range_addresses (merge_ranges rs) = range_addresses rs"
    "list_all range_wf (merge_ranges rs)" "length (merge_ranges rs) \<le> length rs"
    by (simp_all add: merge_ranges_def list_all_iff)
qed

subsection \<open>Reading a written set\<close>

text \<open>The prefixes that a stored range is split into, before they are formatted.\<close>

definition range_prefixes :: "ip_range \<Rightarrow> (ip_addr \<times> nat) list" where
  "range_prefixes r =
     (if ir_family r = 4
      then map (\<lambda>(a, p). (V4 (ucast a), p)) (range_prefixes_loop Pair 32 (push_bit 32 1 - 1) (ir_to r) (ir_from r))
      else map (\<lambda>(a, p). (V6 a, p)) (range_prefixes_loop Pair 128 (- 1) (ir_to r) (ir_from r)))"

definition range_bytes :: "ip_range \<Rightarrow> bytes" where
  "range_bytes r =
     (if ir_family r = 4 then write_ip_address (V4 (ucast (ir_from r))) @ write_ip_address (V4 (ucast (ir_to r)))
      else write_ip_address (V6 (ir_from r)) @ write_ip_address (V6 (ir_to r)))"

lemma write_ranges_wf: "list_all range_wf rs \<Longrightarrow> write_ranges rs = Inr (concat (map range_bytes rs))"
  by (induction rs) (auto simp: range_wf_def write_ip_addr_def range_bytes_def)

lemma ucast_u32_u128:
  fixes x :: u128
  assumes "unat x < 2 ^ 32"
  shows "ucast (ucast x :: u32) = x"
proof -
  have "unat (ucast (ucast x :: u32) :: u128) = unat x"
    using assms by (simp add: unsigned_ucast_eq unsigned_take_bit_eq take_bit_nat_eq_self)
  then show ?thesis unfolding word_unat_eq_iff .
qed

lemma read_ip_range_write:
  assumes "range_wf r"
  shows "read_ip_range (range_bytes r @ s) = Inr (map prefix_text (range_prefixes r), s)"
proof (cases "ir_family r = 4")
  case True
  with assms have t: "unat (ir_to r) < 2 ^ 32" "ir_from r \<le> ir_to r" by (auto simp: range_wf_def)
  then have f: "unat (ir_from r) < 2 ^ 32" by (simp add: word_le_nat_alt)
  have m: "\<not> push_bit 32 1 - 1 < ir_to r" using t(1) by (simp add: word_less_nat_alt)
  show ?thesis using True t m ucast_u32_u128 [OF t(1)] ucast_u32_u128 [OF f]
      range_prefixes_render [of "\<lambda>v p. prefix_text (V4 (ucast v), p)" 32 "push_bit 32 1 - 1" "ir_to r" "ir_from r"]
    by (simp add: read_ip_range_def range_bytes_def range_prefixes_def range_to_prefixes_inner_def comp_def
        case_prod_unfold not_less Let_def del: push_bit_of_1 prefix_text.simps write_ip_address.simps)
next
  case False
  with assms show ?thesis
    using range_prefixes_render [of "\<lambda>v p. prefix_text (V6 v, p)" 128 "- 1" "ir_to r" "ir_from r"]
    by (auto simp: read_ip_range_def range_bytes_def range_prefixes_def range_to_prefixes_inner_def comp_def
        case_prod_unfold range_wf_def simp del: prefix_text.simps write_ip_address.simps)
qed

lemma block_iff:
  fixes a x :: "'a::len word"
  assumes "2 ^ h dvd unat a"
  shows "unat x \<in> {unat a..<unat a + 2 ^ h} \<longleftrightarrow> drop_bit h x = drop_bit h a"
proof -
  obtain k where k: "unat a = 2 ^ h * k" using assms by blast
  have "drop_bit h x = drop_bit h a \<longleftrightarrow> unat x div 2 ^ h = k"
    unfolding word_unat_eq_iff unat_drop_bit k by simp
  also have "\<dots> \<longleftrightarrow> 2 ^ h * k \<le> unat x \<and> unat x < 2 ^ h * k + 2 ^ h"
    using dividend_less_times_div [of "2 ^ h" "unat x"] times_div_less_eq_dividend [of "2 ^ h" "unat x"]
    by (auto simp: add.commute intro!: div_nat_eqI)
  finally show ?thesis unfolding k by auto
qed

lemma range_blocks:
  fixes start ende maximum :: u128
  assumes "start \<le> ende" "unat ende < 2 ^ bits" "unat maximum = 2 ^ bits - 1"
  defines "ps \<equiv> range_prefixes_loop Pair bits maximum ende start"
  shows "(\<exists>q \<in> set ps. n \<in> {unat (fst q)..<unat (fst q) + 2 ^ (bits - snd q)}) \<longleftrightarrow> unat start \<le> n \<and> n \<le> unat ende"
    "(a, p) \<in> set ps \<Longrightarrow> p \<le> bits \<and> 2 ^ (bits - p) dvd unat a \<and> unat a \<le> unat ende"
proof -
  note e = range_prefixes_exact [OF assms(1-3), folded ps_def]
  have u: "(\<Union>q \<in> set ps. {unat (fst q)..<unat (fst q) + 2 ^ (bits - snd q)}) = {unat start..unat ende}"
    using arg_cong [OF conjunct1 [OF e], of set] by (simp add: atLeastLessThanSuc_atLeastAtMost del: upt_Suc)
  then have *: "(\<exists>q \<in> set ps. n \<in> {unat (fst q)..<unat (fst q) + 2 ^ (bits - snd q)}) \<longleftrightarrow> n \<in> {unat start..unat ende}" for n
    by (simp only: UN_iff [symmetric] u)
  from * [of n] show "(\<exists>q \<in> set ps. n \<in> {unat (fst q)..<unat (fst q) + 2 ^ (bits - snd q)}) \<longleftrightarrow> unat start \<le> n \<and> n \<le> unat ende"
    by simp
  assume ap: "(a, p) \<in> set ps"
  have "unat a \<in> {unat (fst (a, p))..<unat (fst (a, p)) + 2 ^ (bits - snd (a, p))}" by simp
  with * [of "unat a"] ap have "unat a \<le> unat ende" by (meson atLeastAtMost_iff)
  moreover have "p \<le> bits \<and> 2 ^ (bits - p) dvd unat a"
    using e ap unfolding list_all_iff by fast
  ultimately show "p \<le> bits \<and> 2 ^ (bits - p) dvd unat a \<and> unat a \<le> unat ende" by simp
qed

lemma range_prefixes_cover:
  assumes "range_wf r"
  shows "(\<exists>q \<in> set (range_prefixes r). in_prefix a q) \<longleftrightarrow> in_range a r"
proof (cases "ir_family r = 4")
  case True
  with assms have t: "unat (ir_to r) < 2 ^ 32" "ir_from r \<le> ir_to r" by (auto simp: range_wf_def)
  have m: "unat (push_bit 32 1 - 1 :: u128) = 2 ^ 32 - 1" by simp
  note b = range_blocks [OF t(2,1) m]
  show ?thesis
  proof (cases a)
    case (V4 x)
    have "in_prefix a (V4 (ucast n), p) \<longleftrightarrow> unat x \<in> {unat n..<unat n + 2 ^ (32 - p)}"
      if "(n, p) \<in> set (range_prefixes_loop Pair 32 (push_bit 32 1 - 1) (ir_to r) (ir_from r))" for n p
    proof -
      from b(2) [OF that] t(1) have n: "p \<le> 32" "2 ^ (32 - p) dvd unat n" "unat n < 2 ^ 32" by auto
      then have u: "unat (ucast n :: u32) = unat n" by (simp add: unsigned_ucast_eq take_bit_nat_eq_self)
      with n block_iff [of "32 - p" "ucast n :: u32" x] show ?thesis by (simp add: V4)
    qed
    then have "(\<exists>q \<in> set (range_prefixes_loop Pair 32 (push_bit 32 1 - 1) (ir_to r) (ir_from r)). in_prefix a (V4 (ucast (fst q)), snd q)) \<longleftrightarrow> unat (ir_from r) \<le> unat x \<and> unat x \<le> unat (ir_to r)"
      unfolding b(1) [of "unat x", symmetric] by (intro bex_cong refl) (metis prod.collapse)
    then have "(\<exists>q \<in> set (range_prefixes r). in_prefix a q) \<longleftrightarrow> unat (ir_from r) \<le> unat x \<and> unat x \<le> unat (ir_to r)"
      using True by (simp add: range_prefixes_def case_prod_unfold del: push_bit_of_1)
    moreover have "unat (ucast x :: u128) = unat x"
      using unsigned_less [of x, where ?'a = nat] by (simp add: unsigned_ucast_eq take_bit_nat_eq_self)
    ultimately show ?thesis using True by (simp add: V4 word_le_nat_alt)
  next
    case (V6 x)
    with True show ?thesis by (auto simp: range_prefixes_def)
  qed
next
  case False
  with assms have t: "ir_family r = 6" "ir_from r \<le> ir_to r" by (auto simp: range_wf_def)
  have m: "unat (- 1 :: u128) = 2 ^ 128 - 1" by (simp add: unsigned_minus_1_eq_mask mask_eq_exp_minus_1)
  have lt: "unat (ir_to r) < 2 ^ 128" using unsigned_less [of "ir_to r", where ?'a = nat] by simp
  note b = range_blocks [OF t(2) lt m]
  show ?thesis
  proof (cases a)
    case (V6 x)
    have "in_prefix a (V6 n, p) \<longleftrightarrow> unat x \<in> {unat n..<unat n + 2 ^ (128 - p)}"
      if "(n, p) \<in> set (range_prefixes_loop Pair 128 (- 1) (ir_to r) (ir_from r))" for n p
      using b(2) [OF that] block_iff [of "128 - p" n x] by (simp add: V6)
    then have "(\<exists>q \<in> set (range_prefixes_loop Pair 128 (- 1) (ir_to r) (ir_from r)). in_prefix a (V6 (fst q), snd q)) \<longleftrightarrow> unat (ir_from r) \<le> unat x \<and> unat x \<le> unat (ir_to r)"
      unfolding b(1) [of "unat x", symmetric] by (intro bex_cong refl) (metis prod.collapse)
    then have "(\<exists>q \<in> set (range_prefixes r). in_prefix a q) \<longleftrightarrow> unat (ir_from r) \<le> unat x \<and> unat x \<le> unat (ir_to r)"
      using False by (simp add: range_prefixes_def case_prod_unfold del: push_bit_of_1)
    then show ?thesis using t by (simp add: V6 word_le_nat_alt)
  next
    case (V4 x)
    with False show ?thesis using t by (auto simp: range_prefixes_def)
  qed
qed

lemma in_range_addresses:
  "(\<exists>r \<in> set rs. in_range a r) \<longleftrightarrow> (case a of V4 x \<Rightarrow> (4, ucast x) | V6 x \<Rightarrow> (6, x)) \<in> range_addresses rs"
  by (cases a) auto

lemma read_ip_set_write:
  assumes "list_all range_wf rs" "length rs \<le> 16 * 1024 * 1024"
  shows "read_ip_set (1 # be64 (of_nat (length rs)) @ concat (map range_bytes rs) @ s)
    = Inr (map prefix_text (concat (map range_prefixes rs)), s)"
proof -
  have "read_items read_ip_range (length rs) (concat (map range_bytes rs) @ s)
      = Inr (map (\<lambda>r. map prefix_text (range_prefixes r)) rs, s)"
    using assms(1) by (induction rs arbitrary: s) (simp_all add: read_ip_range_write)
  moreover have "unat (of_nat (length rs) :: u64) = length rs"
    using assms(2) by (simp add: unat_of_nat take_bit_nat_eq_self)
  moreover from this have "\<not> MAX_COLLECTION_LENGTH < of_nat (length rs)"
    using assms(2) by (simp add: word_less_nat_alt MAX_COLLECTION_LENGTH_def)
  ultimately show ?thesis by (simp add: read_ip_set_def map_concat comp_def)
qed

text \<open>
  Property C15. Writing a list of well-formed address ranges as an IP set item and reading the item
  back gives the text of CIDR prefixes that cover exactly the addresses of the ranges, whatever the
  order, overlap and adjacency of the ranges; the bytes after the item are left untouched.
\<close>

theorem ip_set_round_trip:
  assumes "list_all range_wf ranges" "ranges \<noteq> []" "length ranges \<le> 16 * 1024 * 1024"
  shows "case write_optional_ip_set item ranges of
      Inl _ \<Rightarrow> False
    | Inr b \<Rightarrow> \<exists>ps. hd b = item \<and> read_ip_set (tl b @ rest) = Inr (map prefix_text ps, rest)
        \<and> (\<forall>a. (\<exists>p. p \<in> set ps \<and> in_prefix a p) = (\<exists>r. r \<in> set ranges \<and> in_range a r))"
proof -
  note m = merge_ranges_exact [OF assms(1)]
  have "length (merge_ranges ranges) \<le> 16 * 1024 * 1024" using m(3) assms(3) by linarith
  note rd = read_ip_set_write [OF m(2) this]
  define ps where "ps = concat (map range_prefixes (merge_ranges ranges))"
  have cover: "(\<exists>p. p \<in> set ps \<and> in_prefix a p) = (\<exists>r. r \<in> set ranges \<and> in_range a r)" for a
  proof -
    have "(\<exists>p. p \<in> set ps \<and> in_prefix a p)
        = (\<exists>r \<in> set (merge_ranges ranges). \<exists>q \<in> set (range_prefixes r). in_prefix a q)" by (auto simp: ps_def)
    also have "\<dots> = (\<exists>r \<in> set (merge_ranges ranges). in_range a r)"
      using m(2) by (auto simp: list_all_iff range_prefixes_cover)
    also have "\<dots> = (\<exists>r \<in> set ranges. in_range a r)" unfolding in_range_addresses m(1) ..
    finally show ?thesis by blast
  qed
  have w: "write_optional_ip_set item ranges
      = Inr (item # 1 # be64 (of_nat (length (merge_ranges ranges))) @ concat (map range_bytes (merge_ranges ranges)))"
    using assms(2) m(2) by (simp add: write_optional_ip_set_def write_ranges_wf Let_def)
  show ?thesis unfolding w
    by (simp only: sum.case list.sel append_Cons append_assoc rd [folded ps_def]) (use cover in blast)
qed

definition example_ranges :: "ip_range list" where
  "example_ranges = [\<lparr>ir_family = 4, ir_from = 0x0a000004, ir_to = 0x0a000006\<rparr>,
     \<lparr>ir_family = 6, ir_from = 0, ir_to = - 1\<rparr>, \<lparr>ir_family = 4, ir_from = 0x0a000000, ir_to = 0x0a000003\<rparr>]"

theorem ip_set_round_trip_witness:
  "\<exists>b ps. write_optional_ip_set 6 example_ranges = Inr b
     \<and> read_ip_set (tl b @ [0xff]) = Inr (map prefix_text ps, [0xff])
     \<and> (\<exists>p. p \<in> set ps \<and> in_prefix (V4 0x0a000005) p) \<and> \<not> (\<exists>p. p \<in> set ps \<and> in_prefix (V4 0x0a000007) p)"
proof -
  have "list_all range_wf example_ranges" "example_ranges \<noteq> []" "length example_ranges \<le> 16 * 1024 * 1024"
    by (simp_all add: example_ranges_def range_wf_def)
  note t = ip_set_round_trip [OF this, of 6 "[0xff]"]
  then obtain b where b: "write_optional_ip_set 6 example_ranges = Inr b"
    by (cases "write_optional_ip_set 6 example_ranges") (simp_all only: sum.case)
  from t obtain ps where r: "read_ip_set (tl b @ [0xff]) = Inr (map prefix_text ps, [0xff])"
    and eq: "\<forall>a. (\<exists>p. p \<in> set ps \<and> in_prefix a p) = (\<exists>r. r \<in> set example_ranges \<and> in_range a r)"
    unfolding b sum.case by (elim exE conjE)
  have "hd example_ranges \<in> set example_ranges \<and> in_range (V4 0x0a000005) (hd example_ranges)"
    by (simp add: example_ranges_def)
  then have "\<exists>r. r \<in> set example_ranges \<and> in_range (V4 0x0a000005) r" by blast
  moreover have "\<not> (\<exists>r. r \<in> set example_ranges \<and> in_range (V4 0x0a000007) r)"
    by (auto simp: example_ranges_def)
  ultimately have "\<exists>p. p \<in> set ps \<and> in_prefix (V4 0x0a000005) p" "\<not> (\<exists>p. p \<in> set ps \<and> in_prefix (V4 0x0a000007) p)"
    unfolding eq [rule_format] .
  with b r show ?thesis by blast
qed

end
