(* ===== verification/Ip_Text.thy ===== *)
theory Ip_Text
  imports Srs_Codec
begin

text \<open>
  The text form of an IP address reads back as the address: printing and parsing numbers, dotted
  octets and colon-separated groups with a compressed run of zeros or an IPv4 tail.
\<close>

subsection \<open>Numbers\<close>

lemma digit_value_char:
  assumes "d < radix" "radix \<le> 16"
  shows "digit_value radix (digit_char d) = Some d"
proof (cases "d < 10")
  case True
  then show ?thesis using assms by (simp add: digit_value_def digit_char_def of_char_of Let_def)
next
  case False
  then show ?thesis using assms by (simp add: digit_value_def digit_char_def of_char_of Let_def)
qed

lemma is_digit_char [simp]: "d < radix \<Longrightarrow> radix \<le> 16 \<Longrightarrow> is_digit radix (digit_char d)"
  by (simp add: is_digit_def digit_value_char)

lemma digits_value_snoc: "digits_value radix (s @ [c]) = digits_value radix s * radix + the (digit_value radix c)"
  by (simp add: digits_value_def)

lemma radix_string_rec:
  "2 \<le> radix \<Longrightarrow> radix_string radix n =
     (if n < radix then [digit_char n] else radix_string radix (n div radix) @ [digit_char (n mod radix)])"
  by (subst radix_string.simps) simp

lemma radix_string_digits:
  assumes "2 \<le> radix" "radix \<le> 16"
  shows "list_all (is_digit radix) (radix_string radix n) \<and> digits_value radix (radix_string radix n) = n
    \<and> radix_string radix n \<noteq> [] \<and> (hd (radix_string radix n) = CHR ''0'' \<longrightarrow> length (radix_string radix n) = 1)"
proof (induction n rule: less_induct)
  case (less n)
  show ?case
  proof (cases "n < radix")
    case True
    then show ?thesis using assms
      by (simp add: radix_string_rec digits_value_def digit_value_char)
  next
    case False
    then have IH: "list_all (is_digit radix) (radix_string radix (n div radix))"
      "digits_value radix (radix_string radix (n div radix)) = n div radix" "radix_string radix (n div radix) \<noteq> []"
      "hd (radix_string radix (n div radix)) = CHR ''0'' \<Longrightarrow> length (radix_string radix (n div radix)) = 1"
      using less [of "n div radix"] assms by auto
    have nz: "hd (radix_string radix (n div radix)) \<noteq> CHR ''0''"
    proof
      assume z: "hd (radix_string radix (n div radix)) = CHR ''0''"
      with IH(3,4) have "radix_string radix (n div radix) = [CHR ''0'']"
        by (cases "radix_string radix (n div radix)") auto
      with IH(2) have "n div radix = 0" using assms by (simp add: digits_value_def digit_value_def)
      with False assms show False by (simp add: div_eq_0_iff)
    qed
    have "radix_string radix n = radix_string radix (n div radix) @ [digit_char (n mod radix)]"
      using False assms by (simp add: radix_string_rec [of radix n])
    with IH nz assms show ?thesis by (simp add: digits_value_snoc digit_value_char)
  qed
qed

lemma length_radix_string:
  assumes "2 \<le> radix" shows "0 < k \<Longrightarrow> n < radix ^ k \<Longrightarrow> length (radix_string radix n) \<le> k"
proof (induction k arbitrary: n)
  case (Suc k)
  show ?case
  proof (cases "n < radix")
    case True
    then show ?thesis using assms by (simp add: radix_string_rec)
  next
    case False
    then have "0 < k" using Suc.prems by (cases k) auto
    moreover have "n div radix < radix ^ k" using Suc.prems assms by (simp add: less_mult_imp_div_less mult.commute)
    ultimately show ?thesis using Suc.IH [of "n div radix"] False assms by (subst radix_string_rec) auto
  qed
qed simp

text \<open>What may follow a printed number.\<close>

definition ends_number :: "nat \<Rightarrow> string \<Rightarrow> bool" where
  "ends_number radix rest \<longleftrightarrow> rest = [] \<or> \<not> is_digit radix (hd rest)"

lemma read_number_radix_string:
  assumes "2 \<le> radix" "radix \<le> 16" "0 < k" "n < radix ^ k" "n < bound" "ends_number radix rest"
  shows "read_number radix k zp bound (radix_string radix n @ rest) = Some (n, rest)"
proof -
  note d = radix_string_digits [OF assms(1,2), of n]
  have "takeWhile (is_digit radix) (radix_string radix n @ rest) = radix_string radix n"
    "dropWhile (is_digit radix) (radix_string radix n @ rest) = rest"
    using d assms(6) by (auto simp: ends_number_def list_all_iff takeWhile_append2 dropWhile_append2 takeWhile_eq_Nil_iff
        dropWhile_eq_self_iff)
  moreover have "length (radix_string radix n) \<le> k" using length_radix_string assms by simp
  ultimately show ?thesis using d assms(5) by (auto simp: read_number_def Let_def)
qed

subsection \<open>Octets and groups\<close>

lemma not_digit_sep [simp]:
  "\<not> is_digit 10 CHR ''.''" "\<not> is_digit 16 CHR ''.''" "\<not> is_digit 10 CHR '':''" "\<not> is_digit 16 CHR '':''"
  by (simp_all add: is_digit_def digit_value_def)

lemma read_octets_join:
  assumes "\<forall>x \<in> set xs. x < 256" "ends_number 10 rest"
  shows "read_octets (length xs) False (concat (map (\<lambda>x. CHR ''.'' # radix_string 10 x) xs) @ rest) = Some (xs, rest)"
  using assms
proof (induction xs)
  case (Cons x xs)
  let ?r = "concat (map (\<lambda>x. CHR ''.'' # radix_string 10 x) xs) @ rest"
  have "ends_number 10 ?r" using Cons.prems(2) by (cases xs) (auto simp: ends_number_def)
  then have "read_number 10 3 False 256 (radix_string 10 x @ ?r) = Some (x, ?r)"
    using Cons.prems(1) by (intro read_number_radix_string) auto
  with Cons show ?case by (simp add: read_separator_def)
qed simp

lemma join_with_Cons: "join_with sep (g # gs) = g @ concat (map (\<lambda>x. sep @ x) gs)"
proof (induction gs arbitrary: g)
  case (Cons h gs)
  then show ?case by simp
qed simp

lemma read_ipv4_octets:
  assumes "\<forall>x \<in> set xs. x < 256" "length xs = 4" "ends_number 10 rest"
  shows "read_ipv4_addr (join_with ''.'' (map (radix_string 10) xs) @ rest) = Some (xs, rest)"
proof -
  obtain x ys where xs: "xs = x # ys" "length ys = 3" using assms(2) by (cases xs) auto
  let ?r = "concat (map (\<lambda>x. CHR ''.'' # radix_string 10 x) ys) @ rest"
  have "ends_number 10 ?r" using assms(3) by (cases ys) (auto simp: ends_number_def)
  then have "read_number 10 3 False 256 (radix_string 10 x @ ?r) = Some (x, ?r)"
    using assms(1) xs by (intro read_number_radix_string) auto
  moreover have "read_octets 3 False ?r = Some (ys, rest)" using read_octets_join [of ys rest] assms(1,3) xs by simp
  ultimately have "read_octets (Suc 3) True (radix_string 10 x @ ?r) = Some (xs, rest)"
    by (simp only: read_octets.simps read_separator_def if_True option.case prod.case xs(1))
  then show ?thesis by (simp add: read_ipv4_addr_def xs(1) join_with_Cons comp_def)
qed

lemma no_dot_no_ipv4:
  assumes "CHR ''.'' \<notin> set s"
  shows "read_ipv4_addr s = None"
proof -
  have "set r \<subseteq> set s" if "read_number a b c d s = Some (n, r)" for a b c d n r
    using that set_dropWhileD by (fastforce simp: read_number_def Let_def split: if_splits)
  then have "read_octets 3 False r = None" if r: "read_number 10 3 False 256 s = Some (n, r)" for n r
  proof -
    have "CHR ''.'' \<notin> set r" using \<open>\<And>a b c d n r. read_number a b c d s = Some (n, r) \<Longrightarrow> set r \<subseteq> set s\<close> [OF r] assms by blast
    then show ?thesis by (cases r) (auto simp: read_separator_def numeral_3_eq_3)
  qed
  then have "read_octets (Suc 3) True s = None" unfolding read_octets.simps(2)
    by (auto simp: read_separator_def split: option.split)
  then show ?thesis by (simp add: read_ipv4_addr_def)
qed

abbreviation hex :: "nat \<Rightarrow> string" where
  "hex \<equiv> radix_string 16"

lemma hex_no_sep: "CHR ''.'' \<notin> set (hex x)" "CHR '':'' \<notin> set (hex x)"
  using radix_string_digits [of 16 x] not_digit_sep(2,4) by (auto simp: list_all_iff)

text \<open>What may follow the groups: nothing, or the compressed run.\<close>

definition ends_groups :: "string \<Rightarrow> bool" where
  "ends_groups rest \<longleftrightarrow> CHR ''.'' \<notin> set rest \<and> (rest = [] \<or> (\<exists>t. rest = CHR '':'' # CHR '':'' # t))"

lemma read_number_colon: "read_number radix k zp bound (CHR '':'' # t) = None" if "radix = 10 \<or> radix = 16"
  using that by (auto simp: read_number_def)

lemma read_groups_stop:
  assumes "ends_groups rest"
  shows "read_groups r first rest = ([], False, rest)"
proof (cases r)
  case (Suc n)
  have "read_ipv4_addr s = None" if "set s \<subseteq> set rest" for s
    using that assms by (intro no_dot_no_ipv4) (auto simp: ends_groups_def)
  moreover have "rest = [] \<or> (\<exists>t. rest = CHR '':'' # CHR '':'' # t)" using assms by (simp add: ends_groups_def)
  moreover have "read_number 16 4 True 65536 [] = None" by (simp add: read_number_def)
  ultimately show ?thesis unfolding Suc
    by (auto simp: read_separator_def read_number_colon)
qed simp

lemma read_groups_rest:
  assumes "\<forall>x \<in> set gs. x < 65536" "length gs \<le> r" "ends_groups rest"
  shows "read_groups r False (concat (map (\<lambda>x. CHR '':'' # hex x) gs) @ rest) = (gs, False, rest)"
  using assms
proof (induction gs arbitrary: r)
  case Nil
  then show ?case by (simp add: read_groups_stop)
next
  case (Cons x gs)
  then obtain n where n: "r = Suc n" "length gs \<le> n" by (cases r) auto
  let ?r = "concat (map (\<lambda>x. CHR '':'' # hex x) gs) @ rest"
  have "ends_number 16 ?r" using Cons.prems(3) by (cases gs) (auto simp: ends_number_def ends_groups_def)
  then have "read_number 16 4 True 65536 (hex x @ ?r) = Some (x, ?r)"
    using Cons.prems(1) by (intro read_number_radix_string) auto
  moreover have "read_ipv4_addr (hex x @ ?r) = None"
    using Cons.prems(3) by (intro no_dot_no_ipv4) (auto simp: hex_no_sep ends_groups_def)
  ultimately show ?case using Cons.IH [of n] Cons.prems n by (simp add: read_separator_def)
qed

lemma read_groups_join:
  assumes "\<forall>x \<in> set gs. x < 65536" "length gs \<le> r" "ends_groups rest"
  shows "read_groups r True (join_with '':'' (map hex gs) @ rest) = (gs, False, rest)"
proof (cases gs)
  case Nil
  then show ?thesis using assms(3) by (simp add: read_groups_stop)
next
  case (Cons x ys)
  then obtain n where n: "r = Suc n" "length ys \<le> n" using assms(2) by (cases r) auto
  let ?r = "concat (map (\<lambda>x. CHR '':'' # hex x) ys) @ rest"
  have "ends_number 16 ?r" using assms(3) by (cases ys) (auto simp: ends_number_def ends_groups_def)
  then have "read_number 16 4 True 65536 (hex x @ ?r) = Some (x, ?r)"
    using assms(1) Cons by (intro read_number_radix_string) auto
  moreover have "read_ipv4_addr (hex x @ ?r) = None"
    using assms(3) by (intro no_dot_no_ipv4) (auto simp: hex_no_sep ends_groups_def)
  moreover have "read_groups n False ?r = (ys, False, rest)" using assms Cons n(2) by (intro read_groups_rest) auto
  ultimately show ?thesis by (simp add: n(1) Cons join_with_Cons comp_def read_separator_def)
qed

subsection \<open>Addresses\<close>

lemma of_digits_Cons: "of_digits b (x # xs) = x * b ^ length xs + of_digits b xs"
proof -
  have gen: "foldl (\<lambda>n d. n * b + d) a xs = a * b ^ length xs + foldl (\<lambda>n d. n * b + d) 0 xs" for a
  proof (induction xs arbitrary: a)
    case (Cons y ys)
    define F where "F = foldl (\<lambda>n d. n * b + d) 0 ys"
    have "foldl (\<lambda>n d. n * b + d) (a * b + y) ys = (a * b + y) * b ^ length ys + F"
      "foldl (\<lambda>n d. n * b + d) y ys = y * b ^ length ys + F"
      unfolding F_def by (rule Cons)+
    then show ?case by (simp add: distrib_right mult.assoc)
  qed simp
  show ?thesis using gen [of x] by (simp add: of_digits_def)
qed

lemma of_digits_expand:
  assumes "0 < b"
  shows "of_digits b (map (\<lambda>k. n div b ^ k mod b) (rev [0..<m])) = n mod b ^ m"
proof (induction m)
  case (Suc m)
  have "n mod b ^ Suc m = b ^ m * (n div b ^ m mod b) + n mod b ^ m"
    by (metis mod_mult2_eq mult.commute power_Suc)
  with Suc show ?case by (simp add: of_digits_Cons mult.commute)
qed (simp add: of_digits_def)

lemma ipv4_octets_value: "of_digits 256 (ipv4_octets a) = unat a"
proof -
  have "ipv4_octets a = map (\<lambda>k. unat a div 256 ^ k mod 256) (rev [0..<4])"
    by (simp add: ipv4_octets_def unat_drop_bit upt_rec)
  then have "of_digits 256 (ipv4_octets a) = unat a mod 256 ^ 4" using of_digits_expand [of 256 "unat a" 4] by simp
  also have "unat a < 2 ^ 32" by (rule order.strict_trans2 [OF unsigned_less]) simp
  then have "unat a mod 256 ^ 4 = unat a" by simp
  finally show ?thesis .
qed

lemma ipv6_segments_value: "of_digits 65536 (ipv6_segments a) = unat a"
proof -
  have "ipv6_segments a = map (\<lambda>k. unat a div 65536 ^ k mod 65536) (rev [0..<8])"
    by (simp add: ipv6_segments_def unat_drop_bit upt_rec)
  then have "of_digits 65536 (ipv6_segments a) = unat a mod 65536 ^ 8" using of_digits_expand [of 65536 "unat a" 8] by simp
  also have "unat a < 2 ^ 128" by (rule order.strict_trans2 [OF unsigned_less]) simp
  then have "unat a mod 65536 ^ 8 = unat a" by simp
  finally show ?thesis .
qed

lemma parse_ipv4_text: "parse_ip (ipv4_to_string a) = Some (V4 a)"
proof -
  have "read_ipv4_addr (ipv4_to_string a @ []) = Some (ipv4_octets a, [])"
    unfolding ipv4_to_string_def by (rule read_ipv4_octets) (auto simp: ipv4_octets_def ends_number_def)
  then show ?thesis by (simp add: parse_ip_def ipv4_octets_value)
qed

text \<open>The run chosen for compression consists of zeros.\<close>

definition zero_run :: "nat list \<Rightarrow> nat \<times> nat \<Rightarrow> bool" where
  "zero_run gs run \<longleftrightarrow> snd run = 0 \<or> fst run + snd run \<le> length gs \<and> (\<forall>i < snd run. gs ! (fst run + i) = 0)"

lemma longest_zeros_run:
  assumes "zero_run pre longest" "snd current = 0 \<or> fst current + snd current = length pre \<and> zero_run pre current"
  shows "zero_run (pre @ gs) (longest_zeros (length pre) current longest gs)"
  using assms
proof (induction gs arbitrary: pre current longest)
  case (Cons g gs)
  have mono: "zero_run (pre @ [x]) run" if "zero_run pre run" for run x
    using that by (auto simp: zero_run_def nth_append)
  show ?case
  proof (cases "g = 0")
    case True
    define cur where "cur = (if snd current = 0 then length pre else fst current, Suc (snd current))"
    have cur: "fst cur + snd cur = length (pre @ [g]) \<and> zero_run (pre @ [g]) cur"
      using Cons.prems(2) True by (auto simp: cur_def zero_run_def nth_append less_Suc_eq)
    have "zero_run (pre @ [g]) (if snd cur > snd longest then cur else longest)"
      using cur mono [OF Cons.prems(1)] by simp
    moreover have "longest_zeros (length pre) current longest (g # gs)
        = longest_zeros (length (pre @ [g])) cur (if snd cur > snd longest then cur else longest) gs"
      using True by (simp add: cur_def Let_def)
    ultimately show ?thesis using Cons.IH [of "pre @ [g]" _ cur] cur by simp
  next
    case False
    from Cons.IH [OF mono [OF Cons.prems(1)], of "(0, 0)" g] show ?thesis using False by simp
  qed
qed simp

lemma no_dot_groups: "CHR ''.'' \<notin> set (join_with '':'' (map hex gs))"
  by (cases gs) (auto simp: join_with_Cons hex_no_sep)

lemma parse_ipv6_groups:
  assumes "read_ipv4_addr s = None" "read_ipv6_addr s = Some (gs, [])" "of_digits 65536 gs = unat a"
  shows "parse_ip s = Some (V6 a)"
  using assms by (simp add: parse_ip_def)

lemma ipv6_segments_props: "length (ipv6_segments a) = 8" "\<forall>x \<in> set (ipv6_segments a). x < 65536"
  by (auto simp: ipv6_segments_def)

lemma read_ipv6_compressed:
  assumes gs: "length gs = 8" "\<forall>x \<in> set gs. x < 65536" and run: "zero_run gs (st, n)" "1 < n"
  shows "read_ipv6_addr (join_with '':'' (map hex (take st gs)) @ ''::'' @ join_with '':'' (map hex (drop (st + n) gs)))
    = Some (gs, [])"
proof -
  let ?t = "join_with '':'' (map hex (drop (st + n) gs))"
  have st: "st + n \<le> 8" and zero: "\<And>i. i < n \<Longrightarrow> gs ! (st + i) = 0" using run gs by (auto simp: zero_run_def)
  have lt: "\<forall>x \<in> set (take st gs). x < 65536" "\<forall>x \<in> set (drop (st + n) gs). x < 65536"
    using gs(2) by (auto dest: in_set_takeD in_set_dropD)
  have "ends_groups (''::'' @ ?t)" "ends_groups []" by (auto simp: ends_groups_def no_dot_groups)
  with lt have "read_groups 8 True (join_with '':'' (map hex (take st gs)) @ ''::'' @ ?t) = (take st gs, False, ''::'' @ ?t)"
    "read_groups (7 - st) True (?t @ []) = (drop (st + n) gs, False, [])"
    using gs(1) st run(2) by (intro read_groups_join; simp)+
  moreover have "take st gs @ replicate n 0 @ drop (st + n) gs = gs"
  proof -
    have "take n (drop st gs) = replicate n 0" using zero st gs(1) by (intro nth_equalityI) auto
    then show ?thesis by (metis append_assoc append_take_drop_id drop_drop add.commute)
  qed
  ultimately show ?thesis using st run(2) gs(1) by (simp add: read_ipv6_addr_def)
qed

lemma read_ipv6_mapped:
  assumes "\<forall>x \<in> set os. x < 256" "length os = 4"
  shows "read_ipv6_addr (''::ffff:'' @ join_with ''.'' (map (radix_string 10) os))
    = Some ([0, 0, 0, 0, 0, 65535, os ! 0 * 256 + os ! 1, os ! 2 * 256 + os ! 3], [])"
proof -
  let ?v = "join_with ''.'' (map (radix_string 10) os)"
  have v: "read_ipv4_addr (?v @ []) = Some (os, [])" using assms by (intro read_ipv4_octets) (auto simp: ends_number_def)
  have colon: "read_ipv4_addr (CHR '':'' # t) = None" "read_ipv4_addr (CHR ''f'' # t) = None" for t
  proof -
    have "read_number 10 3 False 256 (CHR '':'' # t) = None" "read_number 10 3 False 256 (CHR ''f'' # t) = None"
      by (simp_all add: read_number_def is_digit_def digit_value_def)
    then have "read_octets (Suc 3) True (CHR '':'' # t) = None" "read_octets (Suc 3) True (CHR ''f'' # t) = None"
      unfolding read_octets.simps(2) by (simp_all add: read_separator_def)
    then show "read_ipv4_addr (CHR '':'' # t) = None" "read_ipv4_addr (CHR ''f'' # t) = None"
      by (simp_all add: read_ipv4_addr_def)
  qed
  have "digit_char 15 = CHR ''f''" by code_simp
  then have hex: "hex 65535 = ''ffff''" by (simp add: radix_string_rec)
  have n: "read_number 16 4 True 65536 (hex 65535 @ CHR '':'' # ?v) = Some (65535, CHR '':'' # ?v)"
    by (intro read_number_radix_string) (auto simp: ends_number_def)
  have g5: "read_groups 6 False (CHR '':'' # ?v) = ([os ! 0 * 256 + os ! 1, os ! 2 * 256 + os ! 3], True, [])"
    using read_groups.simps(2) [of 5 False "CHR '':'' # ?v"] v by (simp add: read_separator_def)
  have "read_groups 7 True (''ffff:'' @ ?v) = ([65535, os ! 0 * 256 + os ! 1, os ! 2 * 256 + os ! 3], True, [])"
    using read_groups.simps(2) [of 6 True "''ffff:'' @ ?v"] n g5 by (simp add: read_separator_def colon hex)
  moreover have "read_groups 8 True (''::ffff:'' @ ?v) = ([], False, ''::ffff:'' @ ?v)"
    using read_groups.simps(2) [of 7 True "''::ffff:'' @ ?v"] by (simp add: read_separator_def colon read_number_colon)
  moreover have "replicate 5 (0 :: nat) = [0, 0, 0, 0, 0]" by (simp add: numeral_eq_Suc)
  ultimately show ?thesis by (simp add: read_ipv6_addr_def)
qed

lemma mapped_value:
  assumes "to_ipv4_mapped a = Some v"
  shows "of_digits 65536 [0, 0, 0, 0, 0, 65535, ipv4_octets v ! 0 * 256 + ipv4_octets v ! 1,
      ipv4_octets v ! 2 * 256 + ipv4_octets v ! 3] = unat a"
proof -
  have a: "drop_bit 32 a = 0xffff" "v = ucast a" using assms by (auto simp: to_ipv4_mapped_def split: if_splits)
  have "unat a div 2 ^ 32 = 65535" using arg_cong [OF a(1), of unat] by (simp add: unat_drop_bit)
  moreover have "unat v = unat a mod 2 ^ 32" unfolding a(2) by (simp add: unsigned_ucast_eq take_bit_eq_mod)
  moreover have "of_digits 256 (ipv4_octets v) = unat v" by (rule ipv4_octets_value)
  moreover have "ipv4_octets v = [ipv4_octets v ! 0, ipv4_octets v ! 1, ipv4_octets v ! 2, ipv4_octets v ! 3]"
    by (simp add: ipv4_octets_def)
  then have "of_digits 256 (ipv4_octets v) = ((ipv4_octets v ! 0 * 256 + ipv4_octets v ! 1) * 256 + ipv4_octets v ! 2) * 256
      + ipv4_octets v ! 3" by (metis (no_types) foldl.simps mult_0 add_0 of_digits_def)
  moreover have "unat a = unat a div 2 ^ 32 * 2 ^ 32 + unat a mod 2 ^ 32" by (rule div_mult_mod_eq [symmetric])
  ultimately show ?thesis by (simp add: of_digits_def)
qed

lemma parse_ipv6_text: "parse_ip (ipv6_to_string a) = Some (V6 a)"
proof (cases "to_ipv4_mapped a")
  case (Some v)
  have os: "\<forall>x \<in> set (ipv4_octets v). x < 256" "length (ipv4_octets v) = 4" by (auto simp: ipv4_octets_def)
  have "read_octets (Suc 3) True (CHR '':'' # t) = None" for t
    unfolding read_octets.simps(2) by (simp add: read_separator_def read_number_colon)
  then have "read_ipv4_addr (ipv6_to_string a) = None"
    using Some by (simp add: ipv6_to_string_def read_ipv4_addr_def)
  then show ?thesis
    using read_ipv6_mapped [OF os] mapped_value [OF Some] Some
    by (intro parse_ipv6_groups) (simp_all add: ipv6_to_string_def ipv4_to_string_def)
next
  case None
  let ?gs = "ipv6_segments a"
  obtain st n where run: "longest_zeros 0 (0, 0) (0, 0) ?gs = (st, n)" by (cases "longest_zeros 0 (0, 0) (0, 0) ?gs")
  have zr: "zero_run ?gs (st, n)" using longest_zeros_run [of "[]" "(0, 0)" "(0, 0)" ?gs] run by (simp add: zero_run_def)
  show ?thesis
  proof (cases "n > 1")
    case True
    have form: "ipv6_to_string a = join_with '':'' (map hex (take st ?gs)) @ ''::'' @ join_with '':'' (map hex (drop (st + n) ?gs))"
      using None run True by (simp add: ipv6_to_string_def Let_def)
    then have "CHR ''.'' \<notin> set (ipv6_to_string a)" by (auto simp: no_dot_groups)
    then show ?thesis using read_ipv6_compressed [OF ipv6_segments_props zr True] form ipv6_segments_value [of a]
      by (intro parse_ipv6_groups no_dot_no_ipv4) simp_all
  next
    case False
    then have form: "ipv6_to_string a = join_with '':'' (map hex ?gs)" using None run by (simp add: ipv6_to_string_def Let_def)
    have "read_groups 8 True (ipv6_to_string a @ []) = (?gs, False, [])"
      unfolding form using ipv6_segments_props by (intro read_groups_join) (simp_all add: ends_groups_def)
    then have "read_ipv6_addr (ipv6_to_string a) = Some (?gs, [])" by (simp add: read_ipv6_addr_def ipv6_segments_props)
    then show ?thesis using form ipv6_segments_value [of a]
      by (intro parse_ipv6_groups no_dot_no_ipv4) (simp_all add: no_dot_groups)
  qed
qed

lemma parse_ip_to_string: "parse_ip (ip_to_string a) = Some a"
  by (cases a) (simp_all add: parse_ipv4_text parse_ipv6_text)

end
