(* ===== verification/Route_Types.thy ===== *)
theory Route_Types
  imports Ip_Text
begin

text \<open>
  The data of the router: destinations (\<open>common/network.rs\<close>), connection metadata, rule actions
  and connection overrides (\<open>route/mod.rs\<close>, \<open>adapter.rs\<close>). The flow label and scope id of
  an IPv6 socket address are left out, as are the dialer options of a direct action, which the
  router hands on without reading them.
\<close>

subsection \<open>Networks and destinations\<close>

datatype network = Tcp | Udp | Icmp

fun network_as_str :: "network \<Rightarrow> string" where
  "network_as_str Tcp = ''tcp''"
| "network_as_str Udp = ''udp''"
| "network_as_str Icmp = ''icmp''"

text \<open>The address classes of \<open>std::net\<close> that make an address private for routing.\<close>

fun is_private_address :: "ip_addr \<Rightarrow> bool" where
  "is_private_address (V4 a) \<longleftrightarrow>
     (drop_bit 24 a = 10 \<or> drop_bit 20 a = 0xac1 \<or> drop_bit 16 a = 0xc0a8)
     \<or> drop_bit 24 a = 127 \<or> drop_bit 28 a = 0xe \<or> drop_bit 16 a = 0xa9fe \<or> a = 0"
| "is_private_address (V6 a) \<longleftrightarrow>
     drop_bit 121 a = 0x7e \<or> a = 1 \<or> drop_bit 120 a = 0xff \<or> drop_bit 118 a = 0x3fa \<or> a = 0"

datatype socks_addr = IpDestination socket_addr | DomainDestination (domain_host: string) (domain_port: u16)

definition socks_new :: "string \<Rightarrow> u16 \<Rightarrow> socks_addr" where
  "socks_new host port =
     (case parse_ip host of
        Some address \<Rightarrow> IpDestination (address, port)
      | None \<Rightarrow> DomainDestination host port)"

fun socks_host :: "socks_addr \<Rightarrow> string" where
  "socks_host (IpDestination a) = ip_to_string (fst a)"
| "socks_host (DomainDestination host port) = host"

fun socks_port :: "socks_addr \<Rightarrow> u16" where
  "socks_port (IpDestination a) = snd a"
| "socks_port (DomainDestination host port) = port"

fun socks_ip :: "socks_addr \<Rightarrow> socket_addr option" where
  "socks_ip (IpDestination a) = Some a"
| "socks_ip (DomainDestination host port) = None"

subsection \<open>Connection metadata\<close>

record metadata =
  md_query_type :: "u16 option"
  md_ip_version :: "u8 option"
  md_inbound :: string
  md_last_inbound :: string
  md_outbound :: string
  md_source :: "socks_addr option"
  md_destination :: "socks_addr option"
  md_destination_addresses :: "ip_addr list"
  md_origin_destination :: "socks_addr option"
  md_process_origin_destination :: "socks_addr option"
  md_fake_ip :: bool
  md_network :: "network option"
  md_auth_user :: string
  md_protocol :: string
  md_domain :: string
  md_client :: string
  md_process_name :: string
  md_process_path :: string
  md_process_lookup :: string
  md_package_name :: string
  md_user :: string
  md_user_id :: "int option"
  md_clash_mode :: string
  md_network_type :: string
  md_network_is_expensive :: bool
  md_network_is_constrained :: bool
  md_wifi_ssid :: string
  md_wifi_bssid :: string
  md_interface_address :: "string \<Rightarrow> ip_addr list option"
  md_network_interface_address :: "string \<Rightarrow> ip_addr list option"
  md_default_interface_address :: "ip_addr list"
  md_preferred_by :: "string list"
  md_source_mac_address :: string
  md_source_hostname :: string

definition metadata_default :: metadata where
  "metadata_default =
     \<lparr>md_query_type = None, md_ip_version = None, md_inbound = [], md_last_inbound = [], md_outbound = [],
      md_source = None, md_destination = None, md_destination_addresses = [], md_origin_destination = None,
      md_process_origin_destination = None, md_fake_ip = False, md_network = None, md_auth_user = [],
      md_protocol = [], md_domain = [], md_client = [], md_process_name = [], md_process_path = [],
      md_process_lookup = [], md_package_name = [], md_user = [], md_user_id = None, md_clash_mode = [],
      md_network_type = [], md_network_is_expensive = False, md_network_is_constrained = False,
      md_wifi_ssid = [], md_wifi_bssid = [], md_interface_address = (\<lambda>_. None),
      md_network_interface_address = (\<lambda>_. None), md_default_interface_address = [], md_preferred_by = [],
      md_source_mac_address = [], md_source_hostname = []\<rparr>"

definition metadata_domain :: "metadata \<Rightarrow> string option" where
  "metadata_domain md =
     (if md_domain md \<noteq> [] then Some (md_domain md)
      else case md_destination md of Some (DomainDestination host port) \<Rightarrow> Some host | _ \<Rightarrow> None)"

definition destination_ip :: "metadata \<Rightarrow> ip_addr option" where
  "destination_ip md = (case md_destination md of Some (IpDestination a) \<Rightarrow> Some (fst a) | _ \<Rightarrow> None)"

definition source_ip :: "metadata \<Rightarrow> ip_addr option" where
  "source_ip md = (case md_source md of Some (IpDestination a) \<Rightarrow> Some (fst a) | _ \<Rightarrow> None)"

subsection \<open>Connection overrides and actions\<close>

datatype network_strategy = DefaultStrategy | Fallback | Hybrid
datatype interface_type = Wifi | Cellular | Ethernet | OtherInterface
datatype tls_spoof_method =
  WrongSequence | WrongChecksum | WrongAcknowledgment | WrongMd5 | WrongTimestamp
datatype domain_strategy = AsIs | PreferIpv4 | PreferIpv6 | Ipv4Only | Ipv6Only
datatype stream_sniffer = SniffTls | SniffHttp | SniffDnsStream | SniffSsh | SniffRdp | SniffBitTorrent
datatype packet_sniffer =
  SniffQuic | SniffDnsPacket | SniffStun | SniffBitTorrentPacket | SniffUtp | SniffDtls | SniffNtp

record network_dial_options =
  nd_strategy :: "network_strategy option"
  nd_network_type :: "interface_type list"
  nd_fallback_network_type :: "interface_type list"
  nd_fallback_delay :: "duration option"
  nd_udp_disable_domain_unmapping :: bool
  nd_udp_connect :: bool
  nd_external_connection :: bool

record connection_override =
  co_address :: string
  co_port :: u16
  co_tls_fragment :: bool
  co_tls_fragment_fallback_delay :: "duration option"
  co_tls_record_fragment :: bool
  co_tls_spoof :: string
  co_tls_spoof_method :: tls_spoof_method
  co_network :: network_dial_options
  co_udp_timeout :: "duration option"

definition connection_override_default :: connection_override where
  "connection_override_default =
     \<lparr>co_address = [], co_port = 0, co_tls_fragment = False, co_tls_fragment_fallback_delay = None,
      co_tls_record_fragment = False, co_tls_spoof = [], co_tls_spoof_method = WrongSequence,
      co_network = \<lparr>nd_strategy = None, nd_network_type = [], nd_fallback_network_type = [],
        nd_fallback_delay = None, nd_udp_disable_domain_unmapping = False, nd_udp_connect = False,
        nd_external_connection = False\<rparr>,
      co_udp_timeout = None\<rparr>"

definition override_apply :: "connection_override \<Rightarrow> socks_addr \<Rightarrow> socks_addr" where
  "override_apply co destination =
     (let host = (if co_address co = [] then socks_host destination else co_address co);
          port = (if co_port co = 0 then socks_port destination else co_port co)
      in socks_new host port)"

text \<open>\<open>is_some_and(|d| !d.is_zero())\<close>.\<close>

definition nonzero_duration :: "duration option \<Rightarrow> bool" where
  "nonzero_duration d \<longleftrightarrow> (case d of Some t \<Rightarrow> t \<noteq> 0 | None \<Rightarrow> False)"

definition dial_options_update :: "network_dial_options \<Rightarrow> network_dial_options \<Rightarrow> network_dial_options" where
  "dial_options_update nw next =
     \<lparr>nd_strategy = (if nd_strategy next \<noteq> None then nd_strategy next else nd_strategy nw),
      nd_network_type = (if nd_network_type next \<noteq> [] then nd_network_type next else nd_network_type nw),
      nd_fallback_network_type =
        (if nd_fallback_network_type next \<noteq> [] then nd_fallback_network_type next
         else nd_fallback_network_type nw),
      nd_fallback_delay =
        (if nonzero_duration (nd_fallback_delay next) then nd_fallback_delay next else nd_fallback_delay nw),
      nd_udp_disable_domain_unmapping = (nd_udp_disable_domain_unmapping next \<or> nd_udp_disable_domain_unmapping nw),
      nd_udp_connect = (nd_udp_connect next \<or> nd_udp_connect nw),
      nd_external_connection = nd_external_connection nw\<rparr>"

definition override_update :: "connection_override \<Rightarrow> connection_override \<Rightarrow> connection_override" where
  "override_update co next =
     \<lparr>co_address = (if co_address next \<noteq> [] then co_address next else co_address co),
      co_port = (if co_port next \<noteq> 0 then co_port next else co_port co),
      co_tls_fragment = (co_tls_fragment next \<or> co_tls_fragment co),
      co_tls_fragment_fallback_delay =
        (if co_tls_fragment next then co_tls_fragment_fallback_delay next else co_tls_fragment_fallback_delay co),
      co_tls_record_fragment = (co_tls_record_fragment next \<or> co_tls_record_fragment co),
      co_tls_spoof = (if co_tls_spoof next \<noteq> [] then co_tls_spoof next else co_tls_spoof co),
      co_tls_spoof_method = (if co_tls_spoof next \<noteq> [] then co_tls_spoof_method next else co_tls_spoof_method co),
      co_network = dial_options_update (co_network co) (co_network next),
      co_udp_timeout = (if nonzero_duration (co_udp_timeout next) then co_udp_timeout next else co_udp_timeout co)\<rparr>"

record sniff_options =
  sn_names :: "string list"
  sn_stream_sniffers :: "stream_sniffer list"
  sn_packet_sniffers :: "packet_sniffer list"
  sn_timeout :: duration

record resolve_options =
  rs_server :: string
  rs_timeout :: "duration option"
  rs_strategy :: domain_strategy
  rs_disable_cache :: bool
  rs_disable_optimistic_cache :: bool
  rs_rewrite_ttl :: "u32 option"
  rs_client_subnet :: "(ip_addr \<times> nat) option"

datatype action =
  Route string connection_override
| RouteOptions connection_override
| Direct
| DirectOptions string
| Bypass string connection_override
| Reject string bool
| HijackDns
| Sniff sniff_options
| Resolve resolve_options

subsection \<open>Overrides compose\<close>

lemma override_update_default [simp]: "override_update co connection_override_default = co"
  by (simp add: override_update_def connection_override_default_def dial_options_update_def nonzero_duration_def)

lemma dial_options_update_assoc:
  "dial_options_update (dial_options_update a b) c = dial_options_update a (dial_options_update b c)"
  by (intro network_dial_options.equality) (auto simp: dial_options_update_def)

lemma override_update_assoc:
  "override_update (override_update a b) c = override_update a (override_update b c)"
  by (intro connection_override.equality) (auto simp: override_update_def dial_options_update_assoc)

lemma socks_port_new [simp]: "socks_port (socks_new h p) = p"
  by (simp add: socks_new_def split: option.split)

lemma socks_new_host [simp]: "socks_new (socks_host (socks_new h p)) q = socks_new h q"
  by (simp add: socks_new_def parse_ip_to_string split: option.split)

text \<open>Applying two overrides in turn is applying their combination.\<close>

lemma override_apply_update: "override_apply b (override_apply a d) = override_apply (override_update a b) d"
  by (simp add: override_apply_def override_update_def Let_def)

text \<open>A destination whose host, read again, gives the destination back.\<close>

definition stable_destination :: "socks_addr \<Rightarrow> bool" where
  "stable_destination d \<longleftrightarrow> (case d of IpDestination _ \<Rightarrow> True | DomainDestination host _ \<Rightarrow> parse_ip host = None)"

lemma socks_new_same: "socks_new (socks_host d) (socks_port d) = d \<longleftrightarrow> stable_destination d"
  by (cases d) (auto simp: socks_new_def stable_destination_def parse_ip_to_string split: option.split)

lemma socks_new_stable: "stable_destination (socks_new h p)"
  by (simp add: stable_destination_def socks_new_def split: option.split)

end
