(* ===== verification/Srs_Succinct.thy ===== *)
theory Srs_Succinct
  imports Srs_Codec "HOL-Library.List_Lexorder"
begin

text \<open>
  The succinct domain set of the binary rule-set format (\<open>route/srs.rs\<close>): a trie over reversed
  domain names stored level by level in two bitmaps and a label string. \<open>write_succinct_set\<close> builds it
  from sorted keys with a breadth-first queue of key ranges, \<open>SuccinctSet::read\<close> rebuilds the select
  index, and the matchers walk it. A trailing \<open>\r\<close> (13) of a key stands for any continuation, a
  trailing \<open>\n\<close> (10) for the end of the name or a further label after a dot (46).
\<close>

subsection \<open>Building the set\<close>

definition word_bit :: "u64 list \<Rightarrow> nat \<Rightarrow> bool" where
  "word_bit ws i \<longleftrightarrow> i div 64 < length ws \<and> bit (ws ! (i div 64)) (i mod 64)"

definition set_word_bit :: "u64 list \<Rightarrow> nat \<Rightarrow> u64 list" where
  "set_word_bit ws i =
     (let ws' = ws @ replicate (i div 64 + 1 - length ws) 0
      in ws'[i div 64 := ws' ! (i div 64) OR push_bit (i mod 64) 1])"

text \<open>
  The inner loop: the end of the run of keys that carry \<open>label\<close> at \<open>column\<close>. \<open>None\<close> stands for the
  panic of the index expression \<open>keys[cursor][column]\<close>.
\<close>

function scan_label :: "bytes list \<Rightarrow> nat \<Rightarrow> u8 \<Rightarrow> nat \<Rightarrow> nat \<Rightarrow> nat option" where
  "scan_label keys column label ende cursor =
     (if cursor < ende
      then if column < length (keys ! cursor)
           then if keys ! cursor ! column = label then scan_label keys column label ende (Suc cursor) else Some cursor
           else None
      else Some cursor)"
  by auto
termination
  by (relation "measure (\<lambda>(_, _, _, ende, cursor). ende - cursor)") auto

declare scan_label.simps [simp del]

lemma scan_label_run:
  assumes "scan_label keys column label ende cursor = Some c"
  shows "cursor \<le> c" "cursor \<le> ende \<Longrightarrow> c \<le> ende"
    "\<And>k. cursor \<le> k \<Longrightarrow> k < c \<Longrightarrow> column < length (keys ! k) \<and> keys ! k ! column = label"
    "c < ende \<Longrightarrow> column < length (keys ! c) \<and> keys ! c ! column \<noteq> label"
proof -
  have "cursor \<le> c \<and> (cursor \<le> ende \<longrightarrow> c \<le> ende)
    \<and> (\<forall>k. cursor \<le> k \<longrightarrow> k < c \<longrightarrow> column < length (keys ! k) \<and> keys ! k ! column = label)
    \<and> (c < ende \<longrightarrow> column < length (keys ! c) \<and> keys ! c ! column \<noteq> label)"
    using assms
  proof (induction keys column label ende cursor rule: scan_label.induct)
    case (1 keys column label ende cursor)
    show ?case
    proof (cases "cursor < ende \<and> column < length (keys ! cursor) \<and> keys ! cursor ! column = label")
      case True
      then have "scan_label keys column label ende (Suc cursor) = Some c"
        using 1(2) by (subst (asm) scan_label.simps) simp
      with 1(1) True have "Suc cursor \<le> c \<and> (Suc cursor \<le> ende \<longrightarrow> c \<le> ende)
        \<and> (\<forall>k. Suc cursor \<le> k \<longrightarrow> k < c \<longrightarrow> column < length (keys ! k) \<and> keys ! k ! column = label)
        \<and> (c < ende \<longrightarrow> column < length (keys ! c) \<and> keys ! c ! column \<noteq> label)" by blast
      then show ?thesis using True by (metis Suc_leI Suc_leD order.order_iff_strict)
    next
      case False
      then have "c = cursor" "cursor < ende \<Longrightarrow> column < length (keys ! c) \<and> keys ! c ! column \<noteq> label"
        using 1(2) by (subst (asm) scan_label.simps, auto split: if_splits)+
      then show ?thesis by auto
    qed
  qed
  then show "cursor \<le> c" "cursor \<le> ende \<Longrightarrow> c \<le> ende"
    "\<And>k. cursor \<le> k \<Longrightarrow> k < c \<Longrightarrow> column < length (keys ! k) \<and> keys ! k ! column = label"
    "c < ende \<Longrightarrow> column < length (keys ! c) \<and> keys ! c ! column \<noteq> label"
    by blast+
qed

text \<open>The middle loop: one child per run of equal labels, as label and key range.\<close>

datatype build_error = BuildError srs_error | BuildPanic

function scan_children :: "bytes list \<Rightarrow> nat \<Rightarrow> nat \<Rightarrow> nat \<Rightarrow> build_error + (u8 \<times> nat \<times> nat) list" where
  "scan_children keys column ende cursor =
     (if cursor < ende
      then if column < length (keys ! cursor)
           then let label = keys ! cursor ! column
                in case scan_label keys column label ende (Suc cursor) of
                     None \<Rightarrow> Inl BuildPanic
                   | Some c \<Rightarrow>
                       (case scan_children keys column ende c of
                          Inl e \<Rightarrow> Inl e | Inr cs \<Rightarrow> Inr ((label, cursor, c) # cs))
           else Inl (BuildError MalformedDomainKey)
      else Inr [])"
  by auto
termination
  by (relation "measure (\<lambda>(_, _, ende, cursor). ende - cursor)") (auto dest: scan_label_run(1))

declare scan_children.simps [simp del]

text \<open>
  A queue entry stands for a list of key suffixes, and its children for the groups of suffixes with
  the same first byte. \<open>weight\<close> bounds the nodes still to come from an entry.
\<close>

definition entry_keys :: "bytes list \<Rightarrow> nat \<times> nat \<times> nat \<Rightarrow> bytes list" where
  "entry_keys keys = (\<lambda>(start, ende, column). map (\<lambda>k. drop column (keys ! k)) [start..<ende])"

definition same_head :: "u8 \<Rightarrow> bytes \<Rightarrow> bool" where
  "same_head l k \<longleftrightarrow> k \<noteq> [] \<and> hd k = l"

function groups :: "bytes list \<Rightarrow> (u8 \<times> bytes list) list" where
  "groups [] = []"
| "groups ([] # ks) = []"
| "groups ((l # k) # ks) =
     (l, k # map tl (takeWhile (same_head l) ks)) # groups (dropWhile (same_head l) ks)"
  by pat_completeness auto
termination
  by (relation "measure length") (auto simp: le_imp_less_Suc length_dropWhile_le)

definition weight :: "bytes list \<Rightarrow> nat" where
  "weight ks = Suc (sum_list (map length ks))"

lemma sum_takeWhile_dropWhile:
  "sum_list (map f (takeWhile P xs)) + sum_list (map f (dropWhile P xs)) = sum_list (map f xs)" for f :: "'a \<Rightarrow> nat"
  by (metis map_append sum_list_append takeWhile_dropWhile_id)

lemma groups_weight: "sum_list (map (\<lambda>g. weight (snd g)) (groups ks)) \<le> sum_list (map length ks)"
proof (induction ks rule: groups.induct)
  case (3 l k ks)
  have "sum_list (map length (map tl (takeWhile (same_head l) ks))) \<le> sum_list (map length (takeWhile (same_head l) ks))"
    unfolding map_map comp_def by (rule sum_list_mono) simp
  with 3 sum_takeWhile_dropWhile [of length "same_head l" ks] show ?case by (simp add: weight_def)
qed simp_all

lemma takeWhile_split:
  assumes "\<forall>x \<in> set xs. P x" "takeWhile P ys = []"
  shows "takeWhile P (xs @ ys) = xs" "dropWhile P (xs @ ys) = ys"
  using assms by (induction xs) (auto simp: takeWhile_eq_Nil_iff dropWhile_eq_self_iff)

lemma scan_children_groups:
  assumes "scan_children keys column ende start = Inr cs"
  shows "map (\<lambda>(l, f, g). (l, entry_keys keys (f, g, Suc column))) cs = groups (entry_keys keys (start, ende, column))"
  using assms
proof (induction keys column ende start arbitrary: cs rule: scan_children.induct)
  case (1 keys column ende start)
  show ?case
  proof (cases "start < ende")
    case True
    define label where "label = keys ! start ! column"
    from True 1(2) obtain c cs' where len: "column < length (keys ! start)"
      and c: "scan_label keys column label ende (Suc start) = Some c"
      and cs': "scan_children keys column ende c = Inr cs'" and cs: "cs = (label, start, c) # cs'"
      by (subst (asm) scan_children.simps) (auto simp: label_def Let_def split: if_splits option.splits sum.splits)
    note run = scan_label_run [OF c]
    have ce: "Suc start \<le> c" "c \<le> ende" using run(1,2) True by auto
    let ?d = "\<lambda>k. drop column (keys ! k)"
    have tw: "\<forall>x \<in> set (map ?d [Suc start..<c]). same_head label x"
      using run(3) by (fastforce simp: same_head_def hd_drop_conv_nth)
    have dw: "takeWhile (same_head label) (map ?d [c..<ende]) = []"
      using run(4) ce by (cases "c < ende") (auto simp: upt_conv_Cons same_head_def hd_drop_conv_nth)
    have split: "[Suc start..<ende] = [Suc start..<c] @ [c..<ende]"
      using ce upt_add_eq_append [of "Suc start" c "ende - c"] by simp
    have "takeWhile (same_head label) (map ?d [Suc start..<ende]) = map ?d [Suc start..<c]"
      "dropWhile (same_head label) (map ?d [Suc start..<ende]) = map ?d [c..<ende]"
      unfolding split map_append by (rule takeWhile_split [OF tw dw])+
    moreover have "?d start = label # drop (Suc column) (keys ! start)"
      using len by (simp add: label_def Cons_nth_drop_Suc)
    moreover have "[start..<ende] = start # [Suc start..<ende]" "[start..<c] = start # [Suc start..<c]"
      using True ce by (simp_all add: upt_conv_Cons)
    moreover have "map (\<lambda>(l, f, g). (l, entry_keys keys (f, g, Suc column))) cs'
        = groups (entry_keys keys (c, ende, column))"
      using 1(1) [OF True len label_def c cs'] .
    ultimately show ?thesis
      by (simp add: cs entry_keys_def tl_drop drop_Suc comp_def)
  next
    case False
    with 1(2) show ?thesis by (subst (asm) scan_children.simps) (simp add: entry_keys_def)
  qed
qed

text \<open>
  The outer loop. The queue is its unprocessed part, \<open>index\<close> the number of entries already
  processed; new entries go to the end.
\<close>

definition is_leaf_entry :: "bytes list \<Rightarrow> nat \<times> nat \<times> nat \<Rightarrow> bool" where
  "is_leaf_entry keys = (\<lambda>(start, ende, column). start < length keys \<and> column = length (keys ! start))"

function build_loop :: "bytes list \<Rightarrow> (nat \<times> nat \<times> nat) list \<Rightarrow> nat \<Rightarrow> u64 list \<Rightarrow> u64 list \<Rightarrow> bytes \<Rightarrow> nat
    \<Rightarrow> build_error + (u64 list \<times> u64 list \<times> bytes)" where
  "build_loop keys [] index leaves bitmap labels bitmap_index = Inr (leaves, bitmap, labels)"
| "build_loop keys ((start, ende, column) # queue) index leaves bitmap labels bitmap_index =
     (let leaf = is_leaf_entry keys (start, ende, column);
          start' = (if leaf then Suc start else start);
          leaves' = (if leaf then set_word_bit leaves index else leaves)
      in case scan_children keys column ende start' of
           Inl e \<Rightarrow> Inl e
         | Inr cs \<Rightarrow>
             build_loop keys (queue @ map (\<lambda>(_, f, c). (f, c, Suc column)) cs) (Suc index) leaves'
               (set_word_bit bitmap (bitmap_index + length cs)) (labels @ map fst cs)
               (Suc (bitmap_index + length cs)))"
  by pat_completeness auto

lemma entry_keys_Suc: "sum_list (map length (entry_keys keys (Suc s, e, c))) \<le> sum_list (map length (entry_keys keys (s, e, c)))"
  by (cases "s < e") (simp_all add: entry_keys_def upt_conv_Cons)

lemma scan_children_weight:
  assumes "scan_children keys column ende start = Inr cs" "start = s \<or> start = Suc s"
  shows "sum_list (map (\<lambda>(_, f, c). weight (entry_keys keys (f, c, Suc column))) cs) < weight (entry_keys keys (s, ende, column))"
proof -
  have "sum_list (map (\<lambda>(_, f, c). weight (entry_keys keys (f, c, Suc column))) cs)
      = sum_list (map (\<lambda>g. weight (snd g)) (map (\<lambda>(l, f, g). (l, entry_keys keys (f, g, Suc column))) cs))"
    by (simp add: comp_def case_prod_unfold)
  also have "\<dots> \<le> sum_list (map length (entry_keys keys (start, ende, column)))"
    unfolding scan_children_groups [OF assms(1)] by (rule groups_weight)
  also have "\<dots> \<le> sum_list (map length (entry_keys keys (s, ende, column)))"
    using assms(2) entry_keys_Suc [of keys s ende column] by auto
  finally show ?thesis by (simp add: weight_def)
qed

termination build_loop
proof (relation "measure (\<lambda>(keys, queue, _). sum_list (map (\<lambda>e. weight (entry_keys keys e)) queue))", goal_cases)
  case (2 keys start ende column queue index leaves bitmap labels bitmap_index leaf start' leaves' cs)
  then have "start' = start \<or> start' = Suc start" by simp
  from scan_children_weight [OF 2(4) this] show ?case by (simp add: comp_def case_prod_unfold)
qed simp

definition write_succinct_set :: "bytes list \<Rightarrow> build_error + bytes" where
  "write_succinct_set keys =
     (if keys = [] then Inl (BuildError EmptySuccinctSet)
      else case build_loop keys [(0, length keys, 0)] 0 [] [] [] 0 of
             Inl e \<Rightarrow> Inl e
           | Inr (leaves, bitmap, labels) \<Rightarrow>
               Inr ([0] @ write_u64_slice leaves @ write_u64_slice bitmap
                    @ write_uvarint (of_nat (length labels)) @ labels))"

subsection \<open>Reading the set\<close>

record succinct_set =
  ss_leaves :: "u64 list"
  ss_bitmap :: "u64 list"
  ss_labels :: bytes
  ss_select_blocks :: "u32 list"
  ss_node_count :: nat

definition leading_zeros :: "u64 \<Rightarrow> nat" where
  "leading_zeros w = length (takeWhile (\<lambda>n. \<not> bit w n) (rev [0..<64]))"

text \<open>\<open>for bit in 0..64\<close> of one word: every 32nd one is recorded.\<close>

fun scan_word :: "nat \<Rightarrow> u64 \<Rightarrow> nat list \<Rightarrow> u32 list \<times> nat \<Rightarrow> u32 list \<times> nat" where
  "scan_word word_index w [] st = st"
| "scan_word word_index w (b # bs) (blocks, ones) =
     scan_word word_index w bs
       (if bit w b
        then (if ones mod 32 = 0 then blocks @ [of_nat (word_index * 64 + b)] else blocks, Suc ones)
        else (blocks, ones))"

fun scan_bitmap :: "nat \<Rightarrow> u64 list \<Rightarrow> nat option \<Rightarrow> u32 list \<times> nat \<Rightarrow> nat option \<times> u32 list \<times> nat" where
  "scan_bitmap word_index [] last_one st = (last_one, st)"
| "scan_bitmap word_index (w # ws) last_one st =
     scan_bitmap (Suc word_index) ws
       (if w \<noteq> 0 then Some (word_index * 64 + (63 - leading_zeros w)) else last_one)
       (scan_word word_index w [0..<64] st)"

definition succinct_read :: "succinct_set reader" where
  "succinct_read s =
     (case read_u8 s of Inl e \<Rightarrow> Inl e | Inr (_, s1) \<Rightarrow>
      case read_u64_slice s1 of Inl e \<Rightarrow> Inl e | Inr (leaves, s2) \<Rightarrow>
      case read_u64_slice s2 of Inl e \<Rightarrow> Inl e | Inr (bitmap, s3) \<Rightarrow>
      case read_byte_slice s3 of Inl e \<Rightarrow> Inl e | Inr (labels, s4) \<Rightarrow>
      case scan_bitmap 0 bitmap None ([], 0) of (last_one, blocks, ones) \<Rightarrow>
      case last_one of
        None \<Rightarrow> Inl MalformedSuccinctSet
      | Some l \<Rightarrow>
          let zeros = l + 1 - ones
          in if ones \<noteq> zeros + 1 \<or> length labels \<noteq> zeros then Inl MalformedSuccinctSet
             else Inr (\<lparr>ss_leaves = leaves @ replicate ((ones + 63) div 64 - length leaves) 0,
                        ss_bitmap = bitmap, ss_labels = labels, ss_select_blocks = blocks,
                        ss_node_count = ones\<rparr>, s4))"

subsection \<open>Walking the set\<close>

definition set_label :: "succinct_set \<Rightarrow> nat \<Rightarrow> nat \<Rightarrow> u8 option" where
  "set_label ss node i =
     (if node \<le> i \<and> i - node < length (ss_labels ss) then Some (ss_labels ss ! (i - node)) else None)"

definition set_child :: "succinct_set \<Rightarrow> nat \<Rightarrow> nat \<Rightarrow> nat option" where
  "set_child ss node i =
     (if node \<le> i \<and> i - node + 1 < ss_node_count ss then Some (i - node + 1) else None)"

text \<open>\<open>position\<close> moves to the next one; \<open>checked_add\<close> bounds it by the machine word.\<close>

function next_one :: "u64 list \<Rightarrow> nat \<Rightarrow> nat option" where
  "next_one ws position =
     (if 2 ^ 64 - 1 \<le> position then None
      else if word_bit ws (Suc position) then Some (Suc position) else next_one ws (Suc position))"
  by auto
termination
  by (relation "measure (\<lambda>(_, p). 2 ^ 64 - p)") auto

declare next_one.simps [simp del]

fun advance_ones :: "u64 list \<Rightarrow> nat \<Rightarrow> nat \<Rightarrow> nat option" where
  "advance_ones ws position 0 = Some position"
| "advance_ones ws position (Suc remaining) =
     (case next_one ws position of None \<Rightarrow> None | Some p \<Rightarrow> advance_ones ws p remaining)"

definition select_one :: "succinct_set \<Rightarrow> nat \<Rightarrow> nat option" where
  "select_one ss index =
     (if index \<ge> ss_node_count ss \<or> index div 32 \<ge> length (ss_select_blocks ss) then None
      else advance_ones (ss_bitmap ss) (unat (ss_select_blocks ss ! (index div 32))) (index mod 32))"

definition node_start :: "succinct_set \<Rightarrow> nat \<Rightarrow> nat" where
  "node_start ss node =
     (if node = 0 then 0
      else case select_one ss (node - 1) of None \<Rightarrow> 0 | Some position \<Rightarrow> position + 1)"

text \<open>
  The loop over the children of a node for one byte of the key: \<open>Inl\<close> is a return from
  \<open>matches_domain_key\<close>, \<open>Inr\<close> the \<open>break\<close> to a child.
\<close>

function walk_label :: "succinct_set \<Rightarrow> u8 \<Rightarrow> nat \<Rightarrow> nat \<Rightarrow> bool + nat \<times> nat" where
  "walk_label ss current node i =
     (if word_bit (ss_bitmap ss) i then Inl False
      else case set_label ss node i of
             None \<Rightarrow> Inl False
           | Some label \<Rightarrow>
               if label = 13 then Inl True
               else case set_child ss node i of
                      None \<Rightarrow> Inl False
                    | Some child \<Rightarrow>
                        if label = 10 \<and> current = 46 \<and> word_bit (ss_leaves ss) child then Inl True
                        else if label = current then Inr (child, node_start ss child)
                        else walk_label ss current node (Suc i))"
  by auto
termination
  by (relation "measure (\<lambda>(ss, _, node, i). length (ss_labels ss) + node - i)")
    (auto simp: set_label_def split: if_splits)

function walk_end :: "succinct_set \<Rightarrow> nat \<Rightarrow> nat \<Rightarrow> bool" where
  "walk_end ss node i =
     (if word_bit (ss_bitmap ss) i then False
      else case set_label ss node i of
             None \<Rightarrow> False
           | Some label \<Rightarrow> if label = 13 \<or> label = 10 then True else walk_end ss node (Suc i))"
  by auto
termination
  by (relation "measure (\<lambda>(ss, node, i). length (ss_labels ss) + node - i)")
    (auto simp: set_label_def split: if_splits)

declare walk_label.simps [simp del] walk_end.simps [simp del]

fun walk_key :: "succinct_set \<Rightarrow> bytes \<Rightarrow> nat \<Rightarrow> nat \<Rightarrow> bool" where
  "walk_key ss [] node i = (word_bit (ss_leaves ss) node \<or> walk_end ss node i)"
| "walk_key ss (current # key) node i =
     (case walk_label ss current node i of
        Inl r \<Rightarrow> r | Inr (node', i') \<Rightarrow> walk_key ss key node' i')"

definition matches_domain_key :: "succinct_set \<Rightarrow> bytes \<Rightarrow> bool" where
  "matches_domain_key ss key = walk_key ss key 0 0"

text \<open>\<open>chars().rev()\<close> keeps the bytes of each UTF-8 character in order.\<close>

definition utf8_continuation :: "u8 \<Rightarrow> bool" where
  "utf8_continuation b \<longleftrightarrow> b AND 0xc0 = 0x80"

function utf8_chars :: "bytes \<Rightarrow> bytes list" where
  "utf8_chars [] = []"
| "utf8_chars (b # bs) = (b # takeWhile utf8_continuation bs) # utf8_chars (dropWhile utf8_continuation bs)"
  by pat_completeness auto
termination
  by (relation "measure length") (auto simp: le_imp_less_Suc length_dropWhile_le)

definition reverse_domain :: "bytes \<Rightarrow> bytes" where
  "reverse_domain s = concat (rev (utf8_chars s))"

definition matches_domain :: "succinct_set \<Rightarrow> bytes \<Rightarrow> bool" where
  "matches_domain ss domain = matches_domain_key ss (reverse_domain domain)"

text \<open>
  AdGuard patterns: \<open>*\<close> (42) and the backspace label (8) may swallow any part of the key. The key
  argument is the rest \<open>key[index..]\<close> of the source's slice.
\<close>

function matches_adguard_key :: "succinct_set \<Rightarrow> bytes \<Rightarrow> nat \<Rightarrow> nat \<Rightarrow> nat \<Rightarrow> bool" where
  "matches_adguard_key ss key node i depth =
     (if depth > 100 then False
      else case key of
        [] \<Rightarrow>
          if word_bit (ss_leaves ss) node then True
          else if word_bit (ss_bitmap ss) i then False
          else (case set_label ss node i of
                  None \<Rightarrow> False
                | Some label \<Rightarrow>
                    if label = 13 \<or> label = 10 \<or> label = 8 then True
                    else if label = 42
                    then (case set_child ss node i of
                            None \<Rightarrow> False
                          | Some child \<Rightarrow> matches_adguard_key ss [] child (node_start ss child) (Suc depth))
                    else matches_adguard_key ss [] node (Suc i) depth)
      | current # rest \<Rightarrow>
          if word_bit (ss_bitmap ss) i then False
          else (case set_label ss node i of
                  None \<Rightarrow> False
                | Some label \<Rightarrow>
                    if label = 13 then True
                    else (case set_child ss node i of
                            None \<Rightarrow> False
                          | Some child \<Rightarrow>
                              if label = 10 \<and> current = 46 \<and> word_bit (ss_leaves ss) child then True
                              else if label = current
                              then matches_adguard_key ss rest child (node_start ss child) depth
                              else if (label = 42 \<or> label = 8)
                                \<and> list_ex (\<lambda>k. matches_adguard_key ss k child (node_start ss child) (Suc depth))
                                    (rev (suffixes (current # rest)))
                              then True
                              else matches_adguard_key ss (current # rest) node (Suc i) depth)))"
  by auto
termination
  by (relation "measures [\<lambda>(ss, key, node, i, depth). 101 - depth, \<lambda>(ss, key, node, i, depth). length key,
      \<lambda>(ss, key, node, i, depth). length (ss_labels ss) + node - i]")
    (auto simp: set_label_def split: if_splits)

declare matches_adguard_key.simps [simp del]

function matches_adguard_loop :: "succinct_set \<Rightarrow> bytes \<Rightarrow> bool" where
  "matches_adguard_loop ss key =
     (if matches_adguard_key ss (8 # key) 0 0 0 then True
      else case dropWhile (\<lambda>b. b \<noteq> 46) key of
             [] \<Rightarrow> False
           | _ # key' \<Rightarrow> matches_adguard_loop ss key')"
  by auto
termination
proof (relation "measure (\<lambda>(_, key). length key)", goal_cases)
  case (2 ss key d key')
  then show ?case using length_dropWhile_le [of "\<lambda>b. b \<noteq> 46" key] by simp
qed simp

declare matches_adguard_loop.simps [simp del]

definition matches_adguard :: "succinct_set \<Rightarrow> bytes \<Rightarrow> bool" where
  "matches_adguard ss domain =
     (let key = reverse_domain domain
      in matches_adguard_key ss key 0 0 0 \<or> matches_adguard_loop ss key)"

subsection \<open>The keys of a domain list\<close>

text \<open>The state of the loops: the keys pushed so far and the set of strings seen.\<close>

definition push_suffix :: "bool \<Rightarrow> bytes \<Rightarrow> bytes list \<times> bytes set \<Rightarrow> bytes list \<times> bytes set" where
  "push_suffix legacy domain = (\<lambda>(keys, seen).
     if domain \<in> seen then (keys, seen)
     else let seen' = insert domain seen
          in if hd domain = 46 then (keys @ [reverse_domain (13 # domain)], seen')
             else if legacy
             then let keys' = keys @ [reverse_domain domain]; dotted = 46 # domain
                  in if dotted \<in> seen' then (keys', seen')
                     else (keys' @ [reverse_domain (13 # dotted)], insert dotted seen')
             else (keys @ [reverse_domain (10 # domain)], seen'))"

definition push_domain :: "bytes \<Rightarrow> bytes list \<times> bytes set \<Rightarrow> bytes list \<times> bytes set" where
  "push_domain domain = (\<lambda>(keys, seen).
     if domain \<in> seen then (keys, seen) else (keys @ [reverse_domain domain], insert domain seen))"

fun push_suffixes :: "bool \<Rightarrow> bytes list \<Rightarrow> bytes list \<times> bytes set \<Rightarrow> build_error + bytes list \<times> bytes set" where
  "push_suffixes legacy [] st = Inr st"
| "push_suffixes legacy (d # ds) st =
     (if d = [] then Inl (BuildError EmptyDomainSuffix) else push_suffixes legacy ds (push_suffix legacy d st))"

fun push_domains :: "bytes list \<Rightarrow> bytes list \<times> bytes set \<Rightarrow> build_error + bytes list \<times> bytes set" where
  "push_domains [] st = Inr st"
| "push_domains (d # ds) st =
     (if d = [] then Inl (BuildError EmptyDomain) else push_domains ds (push_domain d st))"

definition build_domain_keys :: "bytes list \<Rightarrow> bytes list \<Rightarrow> bool \<Rightarrow> build_error + bytes list" where
  "build_domain_keys domains domain_suffixes legacy =
     (case push_suffixes legacy domain_suffixes ([], {}) of
        Inl e \<Rightarrow> Inl e
      | Inr st \<Rightarrow>
          (case push_domains domains st of
             Inl e \<Rightarrow> Inl e | Inr (keys, _) \<Rightarrow> Inr (remdups_adj (sort keys))))"

end
