(* ===== verification/Srs_Trie.thy ===== *)
theory Srs_Trie
  imports Srs_Succinct
begin

text \<open>
  Correctness of the succinct domain set. The breadth-first writer enumerates the nodes of a trie,
  a node being the sorted list of key suffixes below it. The bitmaps and labels it emits are read back
  by the select index, so that walking the set is walking the trie, and walking the trie decides
  membership under the wildcard ends of keys. Composed with \<open>build_domain_keys\<close> this is the matcher
  of domain and domain suffix lists.
\<close>

subsection \<open>Nodes of the trie\<close>

definition leaf :: "bytes list \<Rightarrow> bool" where
  "leaf ks \<longleftrightarrow> ks \<noteq> [] \<and> hd ks = []"

definition body :: "bytes list \<Rightarrow> bytes list" where
  "body ks = (if leaf ks then tl ks else ks)"

definition kids :: "bytes list \<Rightarrow> (u8 \<times> bytes list) list" where
  "kids ks = groups (body ks)"

abbreviation ascending_keys :: "bytes list \<Rightarrow> bool" where
  "ascending_keys ks \<equiv> sorted_wrt (<) ks"

lemma Cons_less_iff: "(a # x) < (b # y) \<longleftrightarrow> a < b \<or> a = b \<and> x < y" for a b :: u8
  by (simp add: Cons_less_Cons)

lemma body_nonempty:
  assumes "ascending_keys ks"
  shows "[] \<notin> set (body ks)" "ascending_keys (body ks)" "set ks = (if leaf ks then insert [] (set (body ks)) else set (body ks))"
proof -
  have nn: "\<not> x < []" for x :: bytes by simp
  show "[] \<notin> set (body ks)"
    using assms by (cases ks) (auto simp: body_def leaf_def)
  show "ascending_keys (body ks)" using assms by (cases ks) (auto simp: body_def)
  show "set ks = (if leaf ks then insert [] (set (body ks)) else set (body ks))"
    by (cases ks) (auto simp: body_def leaf_def)
qed

lemma leaf_iff: "ascending_keys ks \<Longrightarrow> leaf ks \<longleftrightarrow> [] \<in> set ks"
  using body_nonempty [of ks] by auto

lemma heads_above:
  assumes "ascending_keys ((a # k) # ks)" "[] \<notin> set ks" "x \<in> set ks"
  shows "a \<le> hd x"
proof -
  obtain b y where x: "x = b # y" using assms(2,3) by (cases x) auto
  moreover have "(a # k) < x" using assms(1,3) by simp
  ultimately show ?thesis by (auto simp: Cons_less_iff)
qed

lemma dropWhile_heads:
  assumes "ascending_keys ks" "[] \<notin> set ks" "\<forall>k \<in> set ks. l \<le> hd k"
  shows "\<forall>k \<in> set (dropWhile (same_head l) ks). l < hd k"
  using assms
proof (induction ks)
  case (Cons k ks)
  show ?case
  proof (cases "same_head l k")
    case True
    with Cons show ?thesis by simp
  next
    case False
    obtain a k' where k: "k = a # k'" using Cons.prems(2) by (cases k) auto
    with False Cons.prems(3) have "l < a" by (auto simp: same_head_def)
    moreover have "a \<le> hd x" if "x \<in> set ks" for x
      using heads_above [of a k' ks x] Cons.prems(1,2) that k by simp
    ultimately show ?thesis using False k by fastforce
  qed
qed simp

lemma groups_exact:
  assumes "ascending_keys ks" "[] \<notin> set ks"
  shows "sorted_wrt (<) (map fst (groups ks))
    \<and> (\<forall>(l, g) \<in> set (groups ks). ascending_keys g \<and> g \<noteq> [] \<and> l \<in> hd ` set ks)
    \<and> (\<forall>l k. (l # k) \<in> set ks \<longleftrightarrow> (\<exists>g. (l, g) \<in> set (groups ks) \<and> k \<in> set g))"
  using assms
proof (induction ks rule: groups.induct)
  case (3 l k ks)
  let ?t = "takeWhile (same_head l) ks" and ?d = "dropWhile (same_head l) ks"
  have split: "set ks = set ?t \<union> set ?d" by (metis set_append takeWhile_dropWhile_id)
  have td: "ascending_keys (?t @ ?d)" using 3(2) by simp
  then have t: "ascending_keys ?t" and d: "ascending_keys ?d" by (simp_all only: sorted_wrt_append)
  have heads: "\<forall>x \<in> set ks. l \<le> hd x"
    using heads_above [of l k ks] 3(2,3) by simp
  have dh: "\<forall>x \<in> set ?d. l < hd x"
    using dropWhile_heads [OF _ _ heads] 3(2,3) by simp
  have th: "\<exists>y. x = l # y" if "x \<in> set ?t" for x
    using set_takeWhileD [OF that] by (cases x) (auto simp: same_head_def)
  have ne: "[] \<notin> set ?d" using 3(3) split by auto
  note ih = 3(1) [OF d ne]
  have tls: "ascending_keys (k # map tl ?t)"
  proof -
    have "ascending_keys (map tl ?t)" unfolding sorted_wrt_map
      using t by (rule sorted_wrt_mono_rel [rotated]) (auto dest!: th simp: Cons_less_iff)
    moreover have "k < tl x" if "x \<in> set ?t" for x
    proof -
      from th [OF that] obtain y where y: "x = l # y" ..
      have "(l # k) < x" using 3(2) \<open>x \<in> set ?t\<close> split by auto
      then show ?thesis by (simp add: y Cons_less_iff)
    qed
    ultimately show ?thesis by auto
  qed
  have "sorted_wrt (<) (map fst (groups ((l # k) # ks)))"
    using ih dh by fastforce
  moreover have "(m # x) \<in> set ((l # k) # ks) \<longleftrightarrow> (\<exists>g. (m, g) \<in> set (groups ((l # k) # ks)) \<and> x \<in> set g)" for m x
  proof -
    have "(m # x) \<in> set ?t \<longleftrightarrow> m = l \<and> x \<in> tl ` set ?t"
      using th by (auto simp: image_iff) (metis list.sel(3))+
    then show ?thesis using ih split by auto
  qed
  moreover have "ascending_keys g \<and> g \<noteq> [] \<and> m \<in> hd ` set ((l # k) # ks)"
    if "(m, g) \<in> set (groups ((l # k) # ks))" for m g
    using that tls ih split by auto
  ultimately show ?case by blast
qed simp_all

lemma kids_exact:
  assumes "ascending_keys ks"
  shows "sorted_wrt (<) (map fst (kids ks))"
    "(l, g) \<in> set (kids ks) \<Longrightarrow> ascending_keys g \<and> g \<noteq> []"
    "(l # k) \<in> set ks \<longleftrightarrow> (\<exists>g. (l, g) \<in> set (kids ks) \<and> k \<in> set g)"
  using groups_exact [OF body_nonempty(2,1) [OF assms]] body_nonempty(3) [OF assms]
  by (auto simp: kids_def split: if_splits)

subsection \<open>The writer enumerates the trie\<close>

lemma scan_label_ok:
  "(\<And>k. cursor \<le> k \<Longrightarrow> k < ende \<Longrightarrow> column < length (keys ! k)) \<Longrightarrow> \<exists>c. scan_label keys column label ende cursor = Some c"
proof (induction keys column label ende cursor rule: scan_label.induct)
  case (1 keys column label ende cursor)
  show ?case
  proof (cases "cursor < ende \<and> keys ! cursor ! column = label")
    case True
    then have "\<exists>c. scan_label keys column label ende (Suc cursor) = Some c" using 1 by auto
    with True 1(2) [of cursor] show ?thesis by (subst scan_label.simps) simp
  next
    case False
    then show ?thesis using 1(2) [of cursor] by (subst scan_label.simps) auto
  qed
qed

lemma scan_children_ok:
  "(\<And>k. start \<le> k \<Longrightarrow> k < ende \<Longrightarrow> column < length (keys ! k)) \<Longrightarrow> \<exists>cs. scan_children keys column ende start = Inr cs"
proof (induction keys column ende start rule: scan_children.induct)
  case (1 keys column ende start)
  show ?case
  proof (cases "start < ende")
    case True
    have len: "column < length (keys ! start)" using 1(2) True by simp
    obtain c where c: "scan_label keys column (keys ! start ! column) ende (Suc start) = Some c"
      using scan_label_ok [of "Suc start" ende column keys] 1(2) by (metis Suc_leD)
    have "Suc start \<le> c" using scan_label_run(1) [OF c] .
    then have "\<exists>cs. scan_children keys column ende c = Inr cs" using 1(1) [OF True len refl c] 1(2) by auto
    with True len c show ?thesis by (subst scan_children.simps) auto
  next
    case False
    then show ?thesis by (subst scan_children.simps) simp
  qed
qed

lemma scan_children_ranges:
  "scan_children keys column ende start = Inr cs \<Longrightarrow>
    \<forall>(l, f, c) \<in> set cs. start \<le> f \<and> f < c \<and> c \<le> ende \<and> (\<forall>k. f \<le> k \<longrightarrow> k < c \<longrightarrow> column < length (keys ! k))"
proof (induction keys column ende start arbitrary: cs rule: scan_children.induct)
  case (1 keys column ende start)
  show ?case
  proof (cases "start < ende")
    case True
    from True 1(2) obtain c cs' where len: "column < length (keys ! start)"
      and c: "scan_label keys column (keys ! start ! column) ende (Suc start) = Some c"
      and cs': "scan_children keys column ende c = Inr cs'" and cs: "cs = (keys ! start ! column, start, c) # cs'"
      by (subst (asm) scan_children.simps) (auto simp: Let_def split: if_splits option.splits sum.splits)
    note run = scan_label_run [OF c]
    have "column < length (keys ! k)" if "start \<le> k" "k < c" for k
      using run(3) [of k] len that by (cases "k = start") auto
    moreover have "Suc start \<le> c" "c \<le> ende" using run(1,2) True by auto
    moreover note 1(1) [OF True len refl c cs']
    ultimately show ?thesis unfolding cs by fastforce
  next
    case False
    with 1(2) show ?thesis by (subst (asm) scan_children.simps) simp
  qed
qed

lemma word_bit_Nil [simp]: "\<not> word_bit [] i"
  by (simp add: word_bit_def)

lemma length_set_word_bit: "length (set_word_bit ws i) = max (length ws) (i div 64 + 1)"
  by (auto simp: set_word_bit_def Let_def)

lemma word_bit_set_word_bit: "word_bit (set_word_bit ws i) j \<longleftrightarrow> j = i \<or> word_bit ws j"
proof -
  define ws' where "ws' = ws @ replicate (i div 64 + 1 - length ws) 0"
  have len: "i div 64 < length ws'" by (simp add: ws'_def)
  have old: "word_bit ws' j \<longleftrightarrow> word_bit ws j"
    by (auto simp: word_bit_def ws'_def nth_append)
  have set: "set_word_bit ws i = ws'[i div 64 := ws' ! (i div 64) OR push_bit (i mod 64) 1]"
    by (simp add: set_word_bit_def ws'_def Let_def)
  have eq: "i = j" if "i div 64 = j div 64" "i mod 64 = j mod 64" using that by (metis div_mult_mod_eq)
  have b: "bit (push_bit (i mod 64) (1 :: u64)) (j mod 64) \<longleftrightarrow> i mod 64 = j mod 64"
    by (auto simp: bit_push_bit_iff bit_1_iff possible_bit_def simp del: push_bit_of_1)
  have "word_bit (set_word_bit ws i) j \<longleftrightarrow> j = i \<or> word_bit ws' j"
  proof (cases "j div 64 = i div 64")
    case True
    then have "word_bit (set_word_bit ws i) j \<longleftrightarrow> bit (ws' ! (i div 64)) (j mod 64) \<or> i mod 64 = j mod 64"
      using len by (simp add: set word_bit_def bit_or_iff b del: push_bit_of_1)
    moreover have "word_bit ws' j \<longleftrightarrow> bit (ws' ! (i div 64)) (j mod 64)" using len by (simp add: word_bit_def True)
    ultimately show ?thesis using eq True by auto
  next
    case False
    then show ?thesis by (auto simp: set word_bit_def)
  qed
  with old show ?thesis by simp
qed

definition entry_ok :: "bytes list \<Rightarrow> nat \<times> nat \<times> nat \<Rightarrow> bool" where
  "entry_ok keys = (\<lambda>(start, ende, column). start < ende \<and> ende \<le> length keys
     \<and> (\<forall>k. start \<le> k \<longrightarrow> k < ende \<longrightarrow> column \<le> length (keys ! k)) \<and> ascending_keys (entry_keys keys (start, ende, column)))"

lemma entry_body:
  assumes "entry_ok keys (s, e, c)"
  shows "is_leaf_entry keys (s, e, c) \<longleftrightarrow> leaf (entry_keys keys (s, e, c))"
    and "entry_keys keys (if is_leaf_entry keys (s, e, c) then Suc s else s, e, c) = body (entry_keys keys (s, e, c))"
    and "(if is_leaf_entry keys (s, e, c) then Suc s else s) \<le> k \<Longrightarrow> k < e \<Longrightarrow> c < length (keys ! k)"
proof -
  have ks: "entry_keys keys (s, e, c) = drop c (keys ! s) # entry_keys keys (Suc s, e, c)"
    using assms by (simp add: entry_keys_def entry_ok_def upt_conv_Cons)
  show lf: "is_leaf_entry keys (s, e, c) \<longleftrightarrow> leaf (entry_keys keys (s, e, c))"
    using assms unfolding ks by (force simp: is_leaf_entry_def entry_ok_def leaf_def)
  show eb: "entry_keys keys (if is_leaf_entry keys (s, e, c) then Suc s else s, e, c) = body (entry_keys keys (s, e, c))"
    by (simp add: body_def lf) (simp add: ks)
  define s' where "s' = (if is_leaf_entry keys (s, e, c) then Suc s else s)"
  assume "(if is_leaf_entry keys (s, e, c) then Suc s else s) \<le> k" "k < e"
  then have "drop c (keys ! k) \<in> set (entry_keys keys (s', e, c))" by (simp add: entry_keys_def s'_def)
  moreover have "[] \<notin> set (entry_keys keys (s', e, c))"
    using body_nonempty(1) assms unfolding s'_def eb by (simp add: entry_ok_def)
  ultimately show "c < length (keys ! k)" by (metis drop_all not_less)
qed

abbreviation kid_lists :: "bytes list \<Rightarrow> bytes list list" where
  "kid_lists q \<equiv> map snd (kids q)"

abbreviation kid_labels :: "bytes list \<Rightarrow> bytes" where
  "kid_labels q \<equiv> map fst (kids q)"

definition node_bits :: "bytes list \<Rightarrow> bool list" where
  "node_bits q = replicate (length (kids q)) False @ [True]"

text \<open>What the loop adds to the bitmaps and labels for the nodes \<open>Q\<close> that it processes.\<close>

definition emitted :: "bytes list list \<Rightarrow> nat \<Rightarrow> nat \<Rightarrow> u64 list \<Rightarrow> u64 list \<Rightarrow> bytes
    \<Rightarrow> u64 list \<times> u64 list \<times> bytes \<Rightarrow> bool" where
  "emitted Q index bi leaves bitmap labels = (\<lambda>(leaves', bitmap', labels').
     labels' = labels @ concat (map kid_labels Q)
     \<and> (\<forall>j. word_bit leaves' j \<longleftrightarrow> word_bit leaves j \<or> (\<exists>m < length Q. j = index + m \<and> leaf (Q ! m)))
     \<and> (\<forall>j. word_bit bitmap' j \<longleftrightarrow> word_bit bitmap j
          \<or> (\<exists>m < length (concat (map node_bits Q)). j = bi + m \<and> concat (map node_bits Q) ! m))
     \<and> length leaves' \<le> max (length leaves) (index + length Q)
     \<and> length bitmap' \<le> max (length bitmap) (bi + length (concat (map node_bits Q))))"

lemma emitted_Nil: "emitted [] index bi leaves bitmap labels (leaves, bitmap, labels)"
  by (simp add: emitted_def)

lemma emitted_Cons:
  assumes "emitted Q (Suc index) (Suc (bi + length (kids q))) (if leaf q then set_word_bit leaves index else leaves)
      (set_word_bit bitmap (bi + length (kids q))) (labels @ kid_labels q) out"
  shows "emitted (q # Q) index bi leaves bitmap labels out"
proof -
  obtain l' b' lab' where out: "out = (l', b', lab')" by (cases out) auto
  let ?n = "length (kids q)" and ?B = "concat (map node_bits Q)"
  have bits: "concat (map node_bits (q # Q)) = replicate ?n False @ True # ?B" by (simp add: node_bits_def)
  have "(\<exists>m < length (q # Q). j = index + m \<and> leaf ((q # Q) ! m))
      \<longleftrightarrow> (j = index \<and> leaf q) \<or> (\<exists>m < length Q. j = Suc index + m \<and> leaf (Q ! m))" for j
    by (auto simp: less_Suc_eq_0_disj)
  moreover have "(\<exists>m < length (replicate ?n False @ True # ?B). j = bi + m \<and> (replicate ?n False @ True # ?B) ! m)
      \<longleftrightarrow> j = bi + ?n \<or> (\<exists>m < length ?B. j = Suc (bi + ?n) + m \<and> ?B ! m)" for j
  proof
    assume "\<exists>m < length (replicate ?n False @ True # ?B). j = bi + m \<and> (replicate ?n False @ True # ?B) ! m"
    then obtain m where m: "m < ?n + Suc (length ?B)" "j = bi + m" "(replicate ?n False @ True # ?B) ! m" by auto
    then have "?n \<le> m" by (cases "m < ?n") (auto simp: nth_append)
    then obtain r where r: "m = ?n + r" using le_Suc_ex by blast
    with m show "j = bi + ?n \<or> (\<exists>m < length ?B. j = Suc (bi + ?n) + m \<and> ?B ! m)"
      by (cases r) (auto simp: nth_append)
  next
    assume "j = bi + ?n \<or> (\<exists>m < length ?B. j = Suc (bi + ?n) + m \<and> ?B ! m)"
    then show "\<exists>m < length (replicate ?n False @ True # ?B). j = bi + m \<and> (replicate ?n False @ True # ?B) ! m"
    proof
      assume "\<exists>m < length ?B. j = Suc (bi + ?n) + m \<and> ?B ! m"
      then obtain m where "m < length ?B" "j = Suc (bi + ?n) + m" "?B ! m" by blast
      then show ?thesis by (intro exI [of _ "?n + Suc m"]) (simp add: nth_append)
    qed (intro exI [of _ ?n], simp add: nth_append)
  qed
  moreover have "bi + ?n < bi + length (concat (map node_bits (q # Q)))" unfolding bits by simp
  moreover have "i div 64 + 1 \<le> m" if "i < m" for i m :: nat
    using div_le_dividend [of i 64] that by linarith
  ultimately show ?thesis using assms unfolding out emitted_def bits
    by (auto simp: word_bit_set_word_bit length_set_word_bit)
qed

lemma build_step:
  assumes "entry_ok keys (s, e, c)"
  defines "s' \<equiv> (if is_leaf_entry keys (s, e, c) then Suc s else s)"
  obtains cs where "scan_children keys c e s' = Inr cs"
    "map fst cs = kid_labels (entry_keys keys (s, e, c))"
    "map (entry_keys keys) (map (\<lambda>(_, f, g). (f, g, Suc c)) cs) = kid_lists (entry_keys keys (s, e, c))"
    "\<forall>x \<in> set (map (\<lambda>(_, f, g). (f, g, Suc c)) cs). entry_ok keys x"
proof -
  note b = entry_body [OF assms(1), folded s'_def]
  obtain cs where cs: "scan_children keys c e s' = Inr cs"
    using scan_children_ok [of s' e c keys] b(3) by blast
  have g: "map (\<lambda>(l, f, g). (l, entry_keys keys (f, g, Suc c))) cs = kids (entry_keys keys (s, e, c))"
    using scan_children_groups [OF cs] by (simp add: b(2) kids_def)
  have asc: "ascending_keys (entry_keys keys (s, e, c))" using assms(1) by (simp add: entry_ok_def)
  have "entry_ok keys (f, h, Suc c)" if "(l, f, h) \<in> set cs" for l f h
  proof -
    from that have "(l, entry_keys keys (f, h, Suc c)) \<in> set (kids (entry_keys keys (s, e, c)))"
      unfolding g [symmetric] by force
    from kids_exact(2) [OF asc this] scan_children_ranges [OF cs] that assms(1) show ?thesis
      by (fastforce simp: entry_ok_def)
  qed
  then have ok: "\<forall>x \<in> set (map (\<lambda>(_, f, g). (f, g, Suc c)) cs). entry_ok keys x" by auto
  have "map fst cs = kid_labels (entry_keys keys (s, e, c))"
    unfolding g [symmetric] by (simp add: comp_def case_prod_unfold)
  moreover have "map (entry_keys keys) (map (\<lambda>(_, f, g). (f, g, Suc c)) cs) = kid_lists (entry_keys keys (s, e, c))"
    unfolding g [symmetric] by (simp add: comp_def case_prod_unfold)
  ultimately show ?thesis using cs ok that by blast
qed

lemma build_loop_correct:
  assumes "\<forall>x \<in> set queue. entry_ok keys x"
  shows "\<exists>Q out. build_loop keys queue index leaves bitmap labels bi = Inr out
    \<and> Q = map (entry_keys keys) queue @ concat (map kid_lists Q) \<and> (\<forall>q \<in> set Q. ascending_keys q)
    \<and> emitted Q index bi leaves bitmap labels out
    \<and> length Q \<le> sum_list (map (\<lambda>x. weight (entry_keys keys x)) queue)"
  using assms
proof (induction keys queue index leaves bitmap labels bi rule: build_loop.induct)
  case (1 keys index leaves bitmap labels bi)
  show ?case by (rule exI [of _ "[]"]) (simp add: emitted_Nil)
next
  case (2 keys s e c queue index leaves bitmap labels bi)
  define q where "q = entry_keys keys (s, e, c)"
  define s' where "s' = (if is_leaf_entry keys (s, e, c) then Suc s else s)"
  have ok: "entry_ok keys (s, e, c)" using 2(2) by simp
  from build_step [OF ok, folded s'_def q_def] obtain cs where cs: "scan_children keys c e s' = Inr cs"
    and lab: "map fst cs = kid_labels q"
    and kid: "map (entry_keys keys) (map (\<lambda>(_, f, g). (f, g, Suc c)) cs) = kid_lists q"
    and ok': "\<forall>x \<in> set (map (\<lambda>(_, f, g). (f, g, Suc c)) cs). entry_ok keys x" by blast
  have len: "length cs = length (kids q)" using arg_cong [OF lab, of length] by simp
  have leaf: "is_leaf_entry keys (s, e, c) = leaf q" using entry_body(1) [OF ok] by (simp add: q_def)
  let ?queue = "queue @ map (\<lambda>(_, f, g). (f, g, Suc c)) cs"
  have all: "\<forall>x \<in> set ?queue. entry_ok keys x" using ok' 2(2) by auto
  from 2(1) [OF refl s'_def refl cs all, unfolded len lab leaf] obtain Q out where
    out: "build_loop keys ?queue (Suc index) (if leaf q then set_word_bit leaves index else leaves)
        (set_word_bit bitmap (bi + length (kids q))) (labels @ kid_labels q) (Suc (bi + length (kids q))) = Inr out"
    and Q: "Q = map (entry_keys keys) ?queue @ concat (map kid_lists Q)" "\<forall>q \<in> set Q. ascending_keys q"
    and em: "emitted Q (Suc index) (Suc (bi + length (kids q))) (if leaf q then set_word_bit leaves index else leaves)
        (set_word_bit bitmap (bi + length (kids q))) (labels @ kid_labels q) out"
    and lenQ: "length Q \<le> sum_list (map (\<lambda>x. weight (entry_keys keys x)) ?queue)"
    by blast
  have "build_loop keys ((s, e, c) # queue) index leaves bitmap labels bi = Inr out"
    using out cs by (simp add: Let_def leaf len lab s'_def)
  moreover have "q # Q = map (entry_keys keys) ((s, e, c) # queue) @ concat (map kid_lists (q # Q))"
    using Q(1) unfolding map_append kid by (simp add: q_def)
  moreover have "\<forall>x \<in> set (q # Q). ascending_keys x" using Q(2) ok by (simp add: entry_ok_def q_def)
  moreover note emitted_Cons [OF em]
  moreover have "sum_list (map (\<lambda>(_, f, g). weight (entry_keys keys (f, g, Suc c))) cs) < weight q"
    unfolding q_def by (rule scan_children_weight [OF cs]) (simp add: s'_def)
  with lenQ have "length (q # Q) \<le> sum_list (map (\<lambda>x. weight (entry_keys keys x)) ((s, e, c) # queue))"
    by (simp add: q_def comp_def case_prod_unfold)
  ultimately show ?case by blast
qed

subsection \<open>Walking the set is walking the trie\<close>

definition offset :: "('a \<Rightarrow> 'b list) \<Rightarrow> 'a list \<Rightarrow> nat \<Rightarrow> nat" where
  "offset f Q i = sum_list (map (\<lambda>q. length (f q)) (take i Q))"

lemma offset_0 [simp]: "offset f Q 0 = 0"
  by (simp add: offset_def)

lemma offset_Suc: "i < length Q \<Longrightarrow> offset f Q (Suc i) = offset f Q i + length (f (Q ! i))"
  by (simp add: offset_def take_Suc_conv_app_nth)

lemma nth_concat_offset:
  "i < length Q \<Longrightarrow> k < length (f (Q ! i)) \<Longrightarrow>
    offset f Q i + k < length (concat (map f Q)) \<and> concat (map f Q) ! (offset f Q i + k) = f (Q ! i) ! k"
proof (induction Q arbitrary: i)
  case (Cons q Q)
  show ?case
  proof (cases i)
    case 0
    with Cons.prems show ?thesis by (simp add: nth_append)
  next
    case (Suc j)
    with Cons.prems Cons.IH [of j] show ?thesis by (simp add: offset_def nth_append)
  qed
qed simp

lemma offset_node_bits: "i \<le> length Q \<Longrightarrow> offset node_bits Q i = offset kid_lists Q i + i"
proof (induction i)
  case (Suc i)
  then show ?case by (simp add: offset_Suc node_bits_def)
qed simp

lemma offset_kid_labels: "offset kid_labels Q i = offset kid_lists Q i"
  by (simp add: offset_def)

text \<open>A set represents the node list \<open>Q\<close> of a trie.\<close>

definition trie_nodes :: "bytes list list \<Rightarrow> bool" where
  "trie_nodes Q \<longleftrightarrow> Q \<noteq> [] \<and> Q = hd Q # concat (map kid_lists Q)"

definition represents :: "succinct_set \<Rightarrow> bytes list list \<Rightarrow> bool" where
  "represents ss Q \<longleftrightarrow> ss_labels ss = concat (map kid_labels Q)
     \<and> (\<forall>j. word_bit (ss_leaves ss) j \<longleftrightarrow> j < length Q \<and> leaf (Q ! j))
     \<and> (\<forall>j. word_bit (ss_bitmap ss) j \<longleftrightarrow> j < length (concat (map node_bits Q)) \<and> concat (map node_bits Q) ! j)
     \<and> ss_node_count ss = length Q
     \<and> (\<forall>i < length Q. select_one ss i = Some (offset node_bits Q i + length (kids (Q ! i))))"

definition kid_index :: "bytes list list \<Rightarrow> nat \<Rightarrow> nat \<Rightarrow> nat" where
  "kid_index Q i k = Suc (offset kid_lists Q i + k)"

lemma kid_node:
  assumes "trie_nodes Q" "i < length Q" "k < length (kids (Q ! i))"
  shows "kid_index Q i k < length Q" "Q ! kid_index Q i k = snd (kids (Q ! i) ! k)"
proof -
  define C where "C = concat (map kid_lists Q)"
  have Q: "Q = hd Q # C" using assms(1) by (simp add: trie_nodes_def C_def)
  have c: "offset kid_lists Q i + k < length C \<and> C ! (offset kid_lists Q i + k) = kid_lists (Q ! i) ! k"
    unfolding C_def using nth_concat_offset [of i Q k kid_lists] assms(2,3) by simp
  have "length Q = Suc (length C)" using arg_cong [OF Q, of length] by simp
  with c show "kid_index Q i k < length Q" by (simp add: kid_index_def)
  have "Q ! Suc j = C ! j" for j using arg_cong [OF Q, of "\<lambda>x. x ! Suc j"] by simp
  with c assms(3) show "Q ! kid_index Q i k = snd (kids (Q ! i) ! k)" by (simp add: kid_index_def)
qed

lemma represented:
  assumes "represents ss Q" "trie_nodes Q" "i < length Q"
  shows "node_start ss i = offset node_bits Q i"
    "k \<le> length (kids (Q ! i)) \<Longrightarrow> word_bit (ss_bitmap ss) (offset node_bits Q i + k) \<longleftrightarrow> k = length (kids (Q ! i))"
    "k < length (kids (Q ! i)) \<Longrightarrow> set_label ss i (offset node_bits Q i + k) = Some (fst (kids (Q ! i) ! k))"
    "k < length (kids (Q ! i)) \<Longrightarrow> set_child ss i (offset node_bits Q i + k) = Some (kid_index Q i k)"
proof -
  show "node_start ss i = offset node_bits Q i"
  proof (cases i)
    case (Suc j)
    then have "select_one ss j = Some (offset node_bits Q j + length (kids (Q ! j)))"
      using assms(1,3) by (simp add: represents_def)
    with Suc assms(3) show ?thesis by (simp add: node_start_def offset_Suc node_bits_def)
  qed (simp add: node_start_def)
  show "word_bit (ss_bitmap ss) (offset node_bits Q i + k) \<longleftrightarrow> k = length (kids (Q ! i))"
    if "k \<le> length (kids (Q ! i))" for k
    using nth_concat_offset [of i Q k node_bits] assms(1,3) that
    by (auto simp: represents_def node_bits_def nth_append)
  have o: "offset node_bits Q i = offset kid_labels Q i + i"
    using offset_node_bits [of i Q] assms(3) by (simp add: offset_kid_labels)
  show "set_label ss i (offset node_bits Q i + k) = Some (fst (kids (Q ! i) ! k))" if "k < length (kids (Q ! i))" for k
    using nth_concat_offset [of i Q k kid_labels] assms(1,3) that by (simp add: represents_def set_label_def o)
  show "set_child ss i (offset node_bits Q i + k) = Some (kid_index Q i k)" if "k < length (kids (Q ! i))" for k
    using kid_node(1) [OF assms(2,3) that] assms(1)
    by (simp add: represents_def set_child_def o offset_kid_labels kid_index_def)
qed

fun scan_kids :: "u8 \<Rightarrow> (u8 \<times> bytes list) list \<Rightarrow> bool + bytes list" where
  "scan_kids current [] = Inl False"
| "scan_kids current ((label, q) # gs) =
     (if label = 13 then Inl True
      else if label = 10 \<and> current = 46 \<and> leaf q then Inl True
      else if label = current then Inr q else scan_kids current gs)"

fun trie_match :: "bytes list \<Rightarrow> bytes \<Rightarrow> bool" where
  "trie_match q [] = (leaf q \<or> list_ex (\<lambda>(label, _). label = 13 \<or> label = 10) (kids q))"
| "trie_match q (current # key) =
     (case scan_kids current (kids q) of Inl r \<Rightarrow> r | Inr q' \<Rightarrow> trie_match q' key)"

lemma walk_label_scan:
  assumes "represents ss Q" "trie_nodes Q" "i < length Q" "k \<le> length (kids (Q ! i))"
  shows "case scan_kids current (drop k (kids (Q ! i))) of
      Inl r \<Rightarrow> walk_label ss current i (offset node_bits Q i + k) = Inl r
    | Inr q \<Rightarrow> \<exists>n < length Q. Q ! n = q \<and> walk_label ss current i (offset node_bits Q i + k) = Inr (n, offset node_bits Q n)"
  using assms(4)
proof (induction "length (kids (Q ! i)) - k" arbitrary: k)
  case 0
  then have "k = length (kids (Q ! i))" by simp
  with represented(2) [OF assms(1-3), of k] show ?case by (simp add: walk_label.simps)
next
  case (Suc d)
  then have k: "k < length (kids (Q ! i))" by simp
  obtain label q where lq: "kids (Q ! i) ! k = (label, q)" by fastforce
  have d: "drop k (kids (Q ! i)) = (label, q) # drop (Suc k) (kids (Q ! i))"
    using k lq by (metis Cons_nth_drop_Suc)
  note r = represented [OF assms(1-3)]
  note n = kid_node [OF assms(2,3) k]
  have leaf: "word_bit (ss_leaves ss) (kid_index Q i k) \<longleftrightarrow> leaf q"
    using assms(1) n by (simp add: represents_def lq)
  define w where "w = walk_label ss current i (offset node_bits Q i + Suc k)"
  have "walk_label ss current i (offset node_bits Q i + k) =
      (if label = 13 then Inl True else if label = 10 \<and> current = 46 \<and> leaf q then Inl True
       else if label = current then Inr (kid_index Q i k, offset node_bits Q (kid_index Q i k))
       else w)"
    using r(2) [of k] r(3,4) [OF k] k leaf represented(1) [OF assms(1,2) n(1)]
    by (subst walk_label.simps) (auto simp: lq w_def)
  moreover have "case scan_kids current (drop (Suc k) (kids (Q ! i))) of
      Inl r \<Rightarrow> w = Inl r | Inr q \<Rightarrow> \<exists>n < length Q. Q ! n = q \<and> w = Inr (n, offset node_bits Q n)"
    using Suc(1) [of "Suc k"] Suc(2) k unfolding w_def by simp
  ultimately show ?case using n unfolding d by (auto simp: lq)
qed

lemma walk_end_scan:
  assumes "represents ss Q" "trie_nodes Q" "i < length Q" "k \<le> length (kids (Q ! i))"
  shows "walk_end ss i (offset node_bits Q i + k)
    \<longleftrightarrow> list_ex (\<lambda>(label, _). label = 13 \<or> label = 10) (drop k (kids (Q ! i)))"
  using assms(4)
proof (induction "length (kids (Q ! i)) - k" arbitrary: k)
  case 0
  then have "k = length (kids (Q ! i))" by simp
  with represented(2) [OF assms(1-3), of k] show ?case by (simp add: walk_end.simps)
next
  case (Suc d)
  then have k: "k < length (kids (Q ! i))" by simp
  obtain label q where lq: "kids (Q ! i) ! k = (label, q)" by fastforce
  have d: "drop k (kids (Q ! i)) = (label, q) # drop (Suc k) (kids (Q ! i))"
    using k lq by (metis Cons_nth_drop_Suc)
  note r = represented [OF assms(1-3)]
  have "walk_end ss i (offset node_bits Q i + k)
      \<longleftrightarrow> label = 13 \<or> label = 10 \<or> walk_end ss i (offset node_bits Q i + Suc k)"
    using r(2) [of k] r(3) [OF k] k by (subst walk_end.simps) (simp add: lq)
  with Suc(1) [of "Suc k"] Suc(2) k show ?case unfolding d by simp
qed

lemma walk_key_trie:
  assumes "represents ss Q" "trie_nodes Q" "i < length Q"
  shows "walk_key ss key i (offset node_bits Q i) = trie_match (Q ! i) key"
  using assms(3)
proof (induction key arbitrary: i)
  case Nil
  with walk_end_scan [OF assms(1,2), of i 0] assms(1) show ?case by (simp add: represents_def)
next
  case (Cons c key)
  from walk_label_scan [OF assms(1,2) Cons.prems, of 0 c] Cons.IH show ?case
    by (auto split: sum.splits)
qed

subsection \<open>Walking the trie decides the keys\<close>

text \<open>When a key matches a name: the bytes of the name come from the end of the domain.\<close>

fun key_matches :: "bytes \<Rightarrow> bytes \<Rightarrow> bool" where
  "key_matches [] name \<longleftrightarrow> name = []"
| "key_matches (l # k) name \<longleftrightarrow>
     (if k = [] \<and> l = 13 then True
      else if k = [] \<and> l = 10 then name = [] \<or> hd name = 46
      else name \<noteq> [] \<and> hd name = l \<and> key_matches k (tl name))"

text \<open>Only the last byte of a key may be one of the two wildcards.\<close>

definition key_wf :: "bytes \<Rightarrow> bool" where
  "key_wf k \<longleftrightarrow> (\<forall>b \<in> set (butlast k). 13 < b) \<and> (k \<noteq> [] \<longrightarrow> last k = 10 \<or> last k \<ge> 13)"

lemma key_wf_Cons: "key_wf (l # k) \<longleftrightarrow> (if k = [] then l = 10 \<or> l \<ge> 13 else 13 < l \<and> key_wf k)"
  by (auto simp: key_wf_def)

lemma scan_kids_exact:
  assumes "sorted_wrt (<) (map fst gs)" "13 < current"
  shows "scan_kids current gs =
    (if (\<exists>q. (13, q) \<in> set gs) \<or> current = 46 \<and> (\<exists>q. (10, q) \<in> set gs \<and> leaf q) then Inl True
     else case map_of gs current of None \<Rightarrow> Inl False | Some q \<Rightarrow> Inr q)"
  using assms(1)
proof (induction gs)
  case (Cons g gs)
  obtain l q where g: "g = (l, q)" by fastforce
  have above: "l < fst x" if "x \<in> set gs" for x using Cons.prems that by (simp add: g)
  have "\<not> current < 13" "\<not> current < 10" using assms(2) less_trans [of current 10 13] by auto
  then have "(13, x) \<notin> set gs" "(10, x) \<notin> set gs" if "l = current" for x
    using above [of "(13, x)"] above [of "(10, x)"] that by auto
  moreover have "(10, x) \<notin> set gs" if "l = 13 \<or> l = 10" for x
    using above [of "(10, x)"] that by auto
  ultimately show ?case using Cons assms(2) by (auto simp: g)
qed simp

lemma map_of_sorted:
  "sorted_wrt (<) (map fst gs) \<Longrightarrow> map_of gs l = Some q \<longleftrightarrow> (l, q) \<in> set gs" for gs :: "(u8 \<times> 'b) list"
  by (metis distinct_map ascending_distinct map_of_eq_Some_iff)

lemma kids_keys:
  assumes "ascending_keys ks" "\<forall>k \<in> set ks. key_wf k"
  shows "(\<exists>q. (13, q) \<in> set (kids ks)) \<longleftrightarrow> [13] \<in> set ks"
    "(\<exists>q. (10, q) \<in> set (kids ks)) \<longleftrightarrow> [10] \<in> set ks"
    "(\<exists>q. (10, q) \<in> set (kids ks) \<and> leaf q) \<longleftrightarrow> [10] \<in> set ks"
    "(l, q) \<in> set (kids ks) \<Longrightarrow> 13 < l \<Longrightarrow> \<forall>k \<in> set q. key_wf k"
proof -
  have wild: "k = []" if "(l # k) \<in> set ks" "\<not> 13 < l" for l k
    using assms(2) that by (auto simp: key_wf_Cons split: if_splits)
  have ne: "\<exists>k. (l # k) \<in> set ks" if "(l, q) \<in> set (kids ks)" for l q
    using kids_exact(2,3) [OF assms(1)] that by (metis list.set_intros(1) neq_Nil_conv)
  have to: "\<exists>q. (l, q) \<in> set (kids ks) \<and> leaf q" if "[l] \<in> set ks" for l
    using kids_exact(2,3) [OF assms(1)] that leaf_iff by metis
  show "(\<exists>q. (13, q) \<in> set (kids ks)) \<longleftrightarrow> [13] \<in> set ks" using ne wild [of 13] to by force
  show "(\<exists>q. (10, q) \<in> set (kids ks)) \<longleftrightarrow> [10] \<in> set ks" using ne wild [of 10] to by force
  show "(\<exists>q. (10, q) \<in> set (kids ks) \<and> leaf q) \<longleftrightarrow> [10] \<in> set ks" using ne wild [of 10] to by force
  show "\<forall>k \<in> set q. key_wf k" if "(l, q) \<in> set (kids ks)" "13 < l"
  proof
    fix k assume "k \<in> set q"
    with that have "(l # k) \<in> set ks" using kids_exact(3) [OF assms(1)] by blast
    with assms(2) have "key_wf (l # k)" by blast
    then show "key_wf k" by (auto simp: key_wf_Cons key_wf_def split: if_splits)
  qed
qed

lemma trie_match_keys:
  assumes "ascending_keys ks" "\<forall>k \<in> set ks. key_wf k" "\<forall>b \<in> set name. 13 < b"
  shows "trie_match ks name \<longleftrightarrow> (\<exists>k \<in> set ks. key_matches k name)"
  using assms
proof (induction name arbitrary: ks)
  case Nil
  have km: "key_matches k [] \<longleftrightarrow> k = [] \<or> k = [13] \<or> k = [10]" for k by (cases k) auto
  have "(\<exists>k \<in> set ks. key_matches k []) \<longleftrightarrow> [] \<in> set ks \<or> [13] \<in> set ks \<or> [10] \<in> set ks"
    unfolding km by blast
  also have "\<dots> \<longleftrightarrow> leaf ks \<or> (\<exists>q. (13, q) \<in> set (kids ks)) \<or> (\<exists>q. (10, q) \<in> set (kids ks))"
    using kids_keys(1,2) [OF Nil(1,2)] leaf_iff [OF Nil(1)] by simp
  finally show ?case by (auto simp: list_ex_iff)
next
  case (Cons c name)
  have c: "13 < c" "c \<noteq> 13" "c \<noteq> 10" using Cons.prems(3) by auto
  note kk = kids_keys [OF Cons.prems(1,2)] and ke = kids_exact [OF Cons.prems(1)]
  have km: "key_matches k (c # name) \<longleftrightarrow> k = [13] \<or> k = [10] \<and> c = 46 \<or> (\<exists>k'. k = c # k' \<and> key_matches k' name)"
    if "k \<in> set ks" for k
    using Cons.prems(2) c that by (cases k) (auto simp: key_wf_Cons)
  have spec: "(\<exists>k \<in> set ks. key_matches k (c # name)) \<longleftrightarrow> [13] \<in> set ks \<or> [10] \<in> set ks \<and> c = 46
      \<or> (\<exists>k'. (c # k') \<in> set ks \<and> key_matches k' name)"
    using km by blast
  show ?case
  proof (cases "(\<exists>q. (13, q) \<in> set (kids ks)) \<or> c = 46 \<and> (\<exists>q. (10, q) \<in> set (kids ks) \<and> leaf q)")
    case True
    then show ?thesis using kk(1,3) spec by (auto simp: scan_kids_exact [OF ke(1) c(1)])
  next
    case False
    then have no: "\<not> ([13] \<in> set ks \<or> [10] \<in> set ks \<and> c = 46)" using kk(1,3) by auto
    show ?thesis
    proof (cases "map_of (kids ks) c")
      case None
      then have "(c # k') \<notin> set ks" for k'
        using ke(3) map_of_sorted [OF ke(1)] by (metis option.discI)
      with no None False show ?thesis unfolding spec by (auto simp: scan_kids_exact [OF ke(1) c(1)])
    next
      case (Some q)
      then have q: "(c, q) \<in> set (kids ks)" using map_of_sorted [OF ke(1)] by blast
      have "(c # k') \<in> set ks \<longleftrightarrow> k' \<in> set q" for k'
        using ke(3) q map_of_sorted [OF ke(1)] by (metis option.inject)
      moreover have "trie_match q name \<longleftrightarrow> (\<exists>k \<in> set q. key_matches k name)"
        using Cons.IH [of q] ke(2) [OF q] kk(4) [OF q c(1)] Cons.prems(3) by simp
      ultimately show ?thesis using no Some False unfolding spec by (auto simp: scan_kids_exact [OF ke(1) c(1)])
    qed
  qed
qed

subsection \<open>Reading back what was written\<close>

text \<open>The positions of the ones of a bitmap, and the index that keeps every 32nd of them.\<close>

fun ones_from :: "nat \<Rightarrow> u64 list \<Rightarrow> nat list" where
  "ones_from i [] = []"
| "ones_from i (w # ws) = map (\<lambda>b. i * 64 + b) (filter (bit w) [0..<64]) @ ones_from (Suc i) ws"

definition blocks_of :: "nat list \<Rightarrow> u32 list" where
  "blocks_of ps = map (\<lambda>i. of_nat (ps ! (32 * i))) [0..<(length ps + 31) div 32]"

lemma blocks_of_snoc: "blocks_of (ps @ [p]) = (if length ps mod 32 = 0 then blocks_of ps @ [of_nat p] else blocks_of ps)"
proof -
  define n r where "n = length ps div 32" and "r = length ps mod 32"
  have len: "length ps = 32 * n + r" "r < 32" by (simp_all add: n_def r_def)
  show ?thesis
  proof (cases "r = 0")
    case True
    have "(length ps + 31) div 32 = n" "(32 + length ps) div 32 = Suc n" using len True by (auto intro: div_nat_eqI)
    moreover have "ps ! (32 * i) = (ps @ [p]) ! (32 * i)" if "i < n" for i
      using that len by (simp add: nth_append)
    moreover have "(ps @ [p]) ! (32 * n) = p" using len True by (simp add: nth_append)
    ultimately show ?thesis using True by (simp add: blocks_of_def r_def [symmetric])
  next
    case False
    then have "(length ps + 31) div 32 = Suc n" "(32 + length ps) div 32 = Suc n"
      using len by (auto intro: div_nat_eqI)
    moreover have "ps ! (32 * i) = (ps @ [p]) ! (32 * i)" if "i < Suc n" for i
      using that len False by (simp add: nth_append)
    ultimately show ?thesis using False by (simp add: blocks_of_def r_def [symmetric] del: upt_Suc)
  qed
qed

lemma scan_word_blocks:
  "scan_word i w bs (blocks_of ps, length ps)
    = (blocks_of (ps @ map (\<lambda>b. i * 64 + b) (filter (bit w) bs)), length (ps @ map (\<lambda>b. i * 64 + b) (filter (bit w) bs)))"
proof (induction bs arbitrary: ps)
  case (Cons b bs)
  show ?case using Cons [of "ps @ [i * 64 + b]"] Cons [of ps] by (simp add: blocks_of_snoc)
qed simp

lemma highest_bit:
  assumes "(w :: u64) \<noteq> 0"
  shows "filter (bit w) [0..<64] \<noteq> []" "63 - leading_zeros w = last (filter (bit w) [0..<64])"
proof -
  obtain n where n: "bit w n" using assms bit_eqI [of w 0] by auto
  then have "n < 64" using bit_imp_le_length by force
  with n have "n \<in> set (filter (bit w) [0..<64])" by simp
  then show "filter (bit w) [0..<64] \<noteq> []" by (metis empty_iff empty_set)
  have "n < m \<Longrightarrow> Suc (length (takeWhile (\<lambda>n. \<not> bit w n) (rev [0..<m])) + last (filter (bit w) [0..<m])) = m" for m
  proof (induction m)
    case (Suc m)
    then show ?case using n by (cases "bit w m") (auto simp: less_Suc_eq)
  qed simp
  from this [OF \<open>n < 64\<close>] show "63 - leading_zeros w = last (filter (bit w) [0..<64])"
    unfolding leading_zeros_def by linarith
qed

lemma scan_bitmap_ones:
  "scan_bitmap i ws (if ps = [] then None else Some (last ps)) (blocks_of ps, length ps)
    = (let os = ps @ ones_from i ws in (if os = [] then None else Some (last os), blocks_of os, length os))"
proof (induction ws arbitrary: i ps)
  case (Cons w ws)
  let ?m = "map (\<lambda>b. i * 64 + b) (filter (bit w) [0..<64])"
  have "(if w \<noteq> 0 then Some (i * 64 + (63 - leading_zeros w)) else if ps = [] then None else Some (last ps))
      = (if ps @ ?m = [] then None else Some (last (ps @ ?m)))"
    using highest_bit [of w] by (auto simp: last_map)
  then show ?case using Cons [of "Suc i" "ps @ ?m"] by (simp add: scan_word_blocks Let_def)
qed (simp add: Let_def)

lemma ones_from_bits: "ones_from i ws = map (\<lambda>j. i * 64 + j) (filter (word_bit ws) [0..<64 * length ws])"
proof (induction ws arbitrary: i)
  case (Cons w ws)
  have "[0..<64 * length (w # ws)] = [0..<64] @ map (\<lambda>j. 64 + j) [0..<64 * length ws]"
    using upt_add_eq_append [of 0 64 "64 * length ws"] by (simp add: map_add_upt add.commute)
  moreover have "filter (word_bit (w # ws)) [0..<64] = filter (bit w) [0..<64]"
    by (rule filter_cong) (auto simp: word_bit_def)
  moreover have "word_bit (w # ws) (64 + j) = word_bit ws j" for j
  proof -
    have "(64 + j) div 64 = Suc (j div 64)" by presburger
    then show ?thesis by (simp add: word_bit_def)
  qed
  ultimately show ?case using Cons [of "Suc i"]
    by (simp add: filter_map comp_def algebra_simps)
qed simp

end
