(* ===== verification/Srs_Matcher.thy ===== *)
theory Srs_Matcher
  imports Srs_Trie
begin

text \<open>
  Reading a written succinct set, and the matcher it gives: the set built from the keys of a domain
  list and a domain suffix list matches exactly the names that the lists describe.
\<close>

subsection \<open>The ones of the written bitmap\<close>

lemma offset_mono: "i \<le> j \<Longrightarrow> offset f Q i \<le> offset f Q j"
  by (auto simp: offset_def take_add dest!: le_Suc_ex)

lemma length_concat_offset: "length (concat (map f Q)) = offset f Q (length Q)"
  by (simp add: offset_def length_concat comp_def)

lemma concat_index:
  "j < length (concat (map f Q)) \<Longrightarrow> \<exists>i < length Q. \<exists>k < length (f (Q ! i)). j = offset f Q i + k"
proof (induction Q arbitrary: j)
  case (Cons q Q)
  show ?case
  proof (cases "j < length (f q)")
    case True
    then show ?thesis by (intro exI [of _ 0]) simp
  next
    case False
    with Cons.prems have "j - length (f q) < length (concat (map f Q))" by simp
    from Cons.IH [OF this] obtain i k where
      "i < length Q" "k < length (f (Q ! i))" "j - length (f q) = offset f Q i + k" by blast
    with False show ?thesis by (intro exI [of _ "Suc i"] conjI exI [of _ k]) (simp_all add: offset_def)
  qed
qed simp

definition node_ends :: "bytes list list \<Rightarrow> nat list" where
  "node_ends Q = map (\<lambda>i. offset node_bits Q i + length (kids (Q ! i))) [0..<length Q]"

lemma node_ends_ascending: "sorted_wrt (<) (node_ends Q)"
proof -
  have "offset node_bits Q i + length (kids (Q ! i)) < offset node_bits Q j + length (kids (Q ! j))"
    if "i < j" "j < length Q" for i j
  proof -
    have "offset node_bits Q i + length (kids (Q ! i)) < offset node_bits Q (Suc i)"
      using that by (simp add: offset_Suc node_bits_def)
    also have "\<dots> \<le> offset node_bits Q j" using that by (intro offset_mono) simp
    finally show ?thesis by simp
  qed
  then show ?thesis by (simp add: node_ends_def sorted_wrt_iff_nth_less)
qed

lemma node_ends_bits:
  "j \<in> set (node_ends Q) \<longleftrightarrow> j < length (concat (map node_bits Q)) \<and> concat (map node_bits Q) ! j"
proof
  assume "j \<in> set (node_ends Q)"
  then obtain i where "i < length Q" "j = offset node_bits Q i + length (kids (Q ! i))" by (auto simp: node_ends_def)
  then show "j < length (concat (map node_bits Q)) \<and> concat (map node_bits Q) ! j"
    using nth_concat_offset [of i Q "length (kids (Q ! i))" node_bits] by (simp add: node_bits_def nth_append)
next
  assume a: "j < length (concat (map node_bits Q)) \<and> concat (map node_bits Q) ! j"
  with concat_index [of j node_bits Q] obtain i k where
    ik: "i < length Q" "k < length (node_bits (Q ! i))" "j = offset node_bits Q i + k" by blast
  with nth_concat_offset [of i Q k node_bits] a have "node_bits (Q ! i) ! k" by simp
  with ik(2) have "k = length (kids (Q ! i))" by (auto simp: node_bits_def nth_append split: if_splits)
  with ik show "j \<in> set (node_ends Q)" by (auto simp: node_ends_def)
qed

lemma word_bit_bound: "word_bit ws j \<Longrightarrow> j < 64 * length ws"
  by (auto simp: word_bit_def)

lemma ones_node_ends:
  assumes "\<And>j. word_bit ws j \<longleftrightarrow> j < length (concat (map node_bits Q)) \<and> concat (map node_bits Q) ! j"
  shows "ones_from 0 ws = node_ends Q"
proof -
  have "set (filter (word_bit ws) [0..<64 * length ws]) = set (node_ends Q)"
    using word_bit_bound [of ws] assms node_ends_bits [of _ Q] by auto
  moreover have "sorted (filter (word_bit ws) [0..<64 * length ws])" "distinct (filter (word_bit ws) [0..<64 * length ws])"
    by (simp_all add: sorted_wrt_filter)
  moreover have "sorted (node_ends Q)" "distinct (node_ends Q)"
    using node_ends_ascending [of Q] by (simp_all add: strict_sorted_iff)
  ultimately have "filter (word_bit ws) [0..<64 * length ws] = node_ends Q"
    by (intro sorted_distinct_set_unique)
  then show ?thesis by (simp add: ones_from_bits)
qed

lemma next_one_eq:
  "p < q \<Longrightarrow> q < 2 ^ 64 \<Longrightarrow> word_bit ws q \<Longrightarrow> (\<And>j. p < j \<Longrightarrow> j < q \<Longrightarrow> \<not> word_bit ws j) \<Longrightarrow> next_one ws p = Some q"
proof (induction "q - p" arbitrary: p)
  case (Suc d)
  show ?case
  proof (cases "Suc p = q")
    case True
    with Suc show ?thesis by (subst next_one.simps) simp
  next
    case False
    with Suc have "next_one ws (Suc p) = Some q" "\<not> word_bit ws (Suc p)" by simp_all
    moreover have "\<not> 2 ^ 64 - 1 \<le> p" using Suc.prems(1,2) False by linarith
    ultimately show ?thesis by (subst next_one.simps) simp
  qed
qed simp

lemma ascending_nth_less_iff:
  "sorted_wrt (<) xs \<Longrightarrow> i < length xs \<Longrightarrow> j < length xs \<Longrightarrow> xs ! i < xs ! j \<longleftrightarrow> i < j" for xs :: "nat list"
  by (metis linorder_neqE_nat order_less_asym order_less_irrefl sorted_wrt_nth_less)

lemma advance_ones_nth:
  assumes "sorted_wrt (<) ones" "\<And>j. word_bit ws j \<longleftrightarrow> j \<in> set ones" "\<And>j. j \<in> set ones \<Longrightarrow> j < 2 ^ 64"
  shows "k + m < length ones \<Longrightarrow> advance_ones ws (ones ! k) m = Some (ones ! (k + m))"
proof (induction m arbitrary: k)
  case (Suc m)
  have "next_one ws (ones ! k) = Some (ones ! Suc k)"
  proof (rule next_one_eq)
    show "ones ! k < ones ! Suc k" using assms(1) Suc.prems by (simp add: sorted_wrt_nth_less)
    show "ones ! Suc k < 2 ^ 64" "word_bit ws (ones ! Suc k)" using assms(2,3) Suc.prems by simp_all
    fix j assume j: "ones ! k < j" "j < ones ! Suc k"
    show "\<not> word_bit ws j"
    proof
      assume "word_bit ws j"
      then obtain n where n: "n < length ones" "j = ones ! n" using assms(2) by (auto simp: in_set_conv_nth)
      have "k < n" "n < Suc k"
        using j Suc.prems ascending_nth_less_iff [OF assms(1) _ n(1), of k]
          ascending_nth_less_iff [OF assms(1) n(1), of "Suc k"] by (simp_all add: n(2))
      then show False by simp
    qed
  qed
  with Suc show ?case by simp
qed simp

subsection \<open>Reading a written set\<close>

lemma word_bit_pad [simp]: "word_bit (ws @ replicate n 0) j = word_bit ws j"
  by (auto simp: word_bit_def nth_append)

lemma select_one_node_ends:
  assumes "ss_bitmap ss = bitmap" "ss_select_blocks ss = blocks_of (node_ends Q)" "ss_node_count ss = length Q"
    and bits: "\<And>j. word_bit bitmap j \<longleftrightarrow> j \<in> set (node_ends Q)" and len: "length bitmap \<le> 16 * 1024 * 1024"
    and i: "i < length Q"
  shows "select_one ss i = Some (node_ends Q ! i)"
proof -
  let ?E = "node_ends Q"
  have lenE: "length ?E = length Q" by (simp add: node_ends_def)
  have small: "j < 2 ^ 30" if "j \<in> set ?E" for j
    using word_bit_bound [of bitmap j] bits that len by simp
  have k: "i div 32 < (length ?E + 31) div 32" "32 * (i div 32) + i mod 32 = i"
    using i lenE div_le_mono [of "i + 32" "length Q + 31" 32] by simp_all
  have at: "32 * (i div 32) < length ?E" using k(2) i lenE by linarith
  then have "?E ! (32 * (i div 32)) < 2 ^ 30" using small by simp
  then have "unat (of_nat (?E ! (32 * (i div 32))) :: u32) = ?E ! (32 * (i div 32))"
    by (simp add: unat_of_nat take_bit_nat_eq_self)
  moreover have "advance_ones bitmap (?E ! (32 * (i div 32))) (i mod 32) = Some (?E ! (32 * (i div 32) + i mod 32))"
    using advance_ones_nth [OF node_ends_ascending bits, of "32 * (i div 32)" "i mod 32"] small i lenE k(2) by fastforce
  ultimately show ?thesis
    using k(1) i by (simp add: select_one_def assms(1-3) blocks_of_def k(2))
qed

lemma trie_nodes_length:
  assumes "trie_nodes Q"
  shows "length Q = Suc (length (concat (map kid_labels Q)))"
proof -
  have "length Q = length (hd Q # concat (map kid_lists Q))" using assms unfolding trie_nodes_def by metis
  then show ?thesis by (simp add: length_concat comp_def)
qed

lemma succinct_read_emitted:
  assumes Q: "trie_nodes Q" "length Q \<le> 8 * 1024 * 1024"
    and em: "emitted Q 0 0 [] [] [] (leaves, bitmap, labels)"
  obtains ss where "succinct_read ([0] @ write_u64_slice leaves @ write_u64_slice bitmap
      @ write_uvarint (of_nat (length labels)) @ labels @ rest) = Inr (ss, rest)" "represents ss Q"
proof -
  let ?B = "concat (map node_bits Q)"
  have lab: "labels = concat (map kid_labels Q)" using em by (simp add: emitted_def)
  have lf: "word_bit leaves j \<longleftrightarrow> j < length Q \<and> leaf (Q ! j)" for j using em by (auto simp: emitted_def)
  have bm: "word_bit bitmap j \<longleftrightarrow> j < length ?B \<and> ?B ! j" for j using em by (auto simp: emitted_def)
  have lenB: "length ?B = length labels + length Q"
    unfolding length_concat_offset offset_node_bits [OF order.refl] lab by (simp add: offset_kid_labels)
  have lenQ: "length Q = Suc (length labels)" using trie_nodes_length [OF Q(1)] by (simp add: lab)
  have "length leaves \<le> length Q" "length bitmap \<le> length ?B" using em by (simp_all add: emitted_def)
  then have small: "length leaves \<le> 16 * 1024 * 1024" "length bitmap \<le> 16 * 1024 * 1024" "length labels \<le> 16 * 1024 * 1024"
    using Q(2) lenB lenQ by linarith+
  have ones: "ones_from 0 bitmap = node_ends Q" by (rule ones_node_ends [OF bm])
  have bits: "word_bit bitmap j \<longleftrightarrow> j \<in> set (node_ends Q)" for j unfolding node_ends_bits bm ..
  have lenE: "length (node_ends Q) = length Q" by (simp add: node_ends_def)
  then have ne: "node_ends Q \<noteq> []" using lenQ by auto
  have last: "last (node_ends Q) = length labels + length labels"
  proof -
    obtain m where m: "length Q = Suc m" using lenQ by blast
    have "length ?B = offset node_bits Q m + length (kids (Q ! m)) + 1"
      unfolding length_concat_offset m by (simp add: m offset_Suc node_bits_def)
    moreover have "last (node_ends Q) = offset node_bits Q m + length (kids (Q ! m))" by (simp add: node_ends_def m)
    ultimately show ?thesis using lenB lenQ by simp
  qed
  define ss where "ss = \<lparr>ss_leaves = leaves @ replicate ((length Q + 63) div 64 - length leaves) 0,
    ss_bitmap = bitmap, ss_labels = labels, ss_select_blocks = blocks_of (node_ends Q), ss_node_count = length Q\<rparr>"
  have scan: "scan_bitmap 0 bitmap None ([], 0) = (Some (length labels + length labels), blocks_of (node_ends Q), length Q)"
    using scan_bitmap_ones [of 0 bitmap "[]"] ne lenE last by (simp add: ones blocks_of_def Let_def)
  have "succinct_read ([0] @ write_u64_slice leaves @ write_u64_slice bitmap
      @ write_uvarint (of_nat (length labels)) @ labels @ rest) = Inr (ss, rest)"
    using small scan lenQ
    by (simp add: succinct_read_def read_u64_slice_write read_byte_slice_write ss_def Let_def)
  moreover have "represents ss Q"
    unfolding represents_def
  proof (intro conjI allI impI)
    show "select_one ss i = Some (offset node_bits Q i + length (kids (Q ! i)))" if "i < length Q" for i
      using select_one_node_ends [of ss bitmap Q i, OF _ _ _ bits small(2) that] that
      by (simp add: ss_def node_ends_def)
  qed (simp_all add: ss_def lab lf bm)
  ultimately show ?thesis by (rule that)
qed

text \<open>Writing ascending keys succeeds, and the set read back matches what the keys match.\<close>

lemma write_read_matches:
  assumes keys: "ascending_keys keys" "keys \<noteq> []" "sum_list (map length keys) < 8 * 1024 * 1024"
    and wf: "\<forall>k \<in> set keys. key_wf k"
  obtains b ss where "write_succinct_set keys = Inr b" "succinct_read (b @ rest) = Inr (ss, rest)"
    "\<And>name. \<forall>c \<in> set name. 13 < c \<Longrightarrow> matches_domain_key ss name \<longleftrightarrow> (\<exists>k \<in> set keys. key_matches k name)"
proof -
  have ek: "entry_keys keys (0, length keys, 0) = keys" by (simp add: entry_keys_def map_nth)
  then have "\<forall>x \<in> set [(0, length keys, 0)]. entry_ok keys x" using keys by (simp add: entry_ok_def)
  from build_loop_correct [OF this, of 0 "[]" "[]" "[]" 0] obtain Q leaves bitmap labels where
    build: "build_loop keys [(0, length keys, 0)] 0 [] [] [] 0 = Inr (leaves, bitmap, labels)"
    and Q: "Q = keys # concat (map kid_lists Q)" and em: "emitted Q 0 0 [] [] [] (leaves, bitmap, labels)"
    and len: "length Q \<le> weight keys"
    by (auto simp: ek)
  have hd: "hd Q = keys" "Q \<noteq> []" by (metis Q list.sel(1)) (metis Q list.distinct(1))
  then have T: "trie_nodes Q" using Q unfolding trie_nodes_def by simp
  have "length Q \<le> 8 * 1024 * 1024" using len keys(3) by (simp add: weight_def)
  from succinct_read_emitted [OF T this em] obtain ss where
    ss: "succinct_read ([0] @ write_u64_slice leaves @ write_u64_slice bitmap
      @ write_uvarint (of_nat (length labels)) @ labels @ rest) = Inr (ss, rest)" "represents ss Q" by blast
  have "matches_domain_key ss name \<longleftrightarrow> (\<exists>k \<in> set keys. key_matches k name)" if "\<forall>c \<in> set name. 13 < c" for name
  proof -
    have "walk_key ss name 0 (offset node_bits Q 0) = trie_match (Q ! 0) name"
      using hd(2) by (intro walk_key_trie [OF ss(2) T]) simp
    then show ?thesis
      using trie_match_keys [OF keys(1) wf that] hd by (simp add: matches_domain_key_def hd_conv_nth)
  qed
  with build keys(2) ss(1) show ?thesis by (intro that [of _ ss]) (auto simp: write_succinct_set_def)
qed

subsection \<open>What the keys of a domain list match\<close>

definition ascii_text :: "bytes \<Rightarrow> bool" where
  "ascii_text s \<longleftrightarrow> (\<forall>b \<in> set s. 13 < b \<and> b < 128)"

definition domain_text :: "bytes \<Rightarrow> bool" where
  "domain_text s \<longleftrightarrow> s \<noteq> [] \<and> ascii_text s"

text \<open>A suffix item names a whole subtree; with a leading dot only what lies below it.\<close>

definition suffix_item :: "bytes \<Rightarrow> bytes \<Rightarrow> bool" where
  "suffix_item s d \<longleftrightarrow> (if hd s = 46 then suffix s d else d = s \<or> suffix (46 # s) d)"

lemma suffix_item_self: "suffix_item s s"
  by (simp add: suffix_item_def)

lemma utf8_chars_ascii: "\<forall>b \<in> set s. b < 128 \<Longrightarrow> utf8_chars s = map (\<lambda>b. [b]) s"
proof (induction s)
  case (Cons b s)
  have "\<not> utf8_continuation x" if "x \<in> set s" for x
  proof
    assume "utf8_continuation x"
    then have "0x80 \<le> x" using word_and_le2 [of x "0xc0"] by (simp add: utf8_continuation_def)
    with that Cons.prems show False by fastforce
  qed
  then have "takeWhile utf8_continuation s = []" "dropWhile utf8_continuation s = s" by (cases s; simp)+
  with Cons show ?case by simp
qed simp

lemma reverse_domain_ascii: "\<forall>b \<in> set s. b < 128 \<Longrightarrow> reverse_domain s = rev s"
  unfolding reverse_domain_def by (subst utf8_chars_ascii) (simp_all add: rev_map)

lemma key_matches_wild: "\<forall>b \<in> set x. 13 < b \<Longrightarrow> key_matches (x @ [13]) y \<longleftrightarrow> prefix x y"
proof (induction x arbitrary: y)
  case (Cons a x)
  then show ?case by (cases y) auto
qed simp

lemma key_matches_label:
  "\<forall>b \<in> set x. 13 < b \<Longrightarrow> key_matches (x @ [10]) y \<longleftrightarrow> y = x \<or> prefix (x @ [46]) y"
proof (induction x arbitrary: y)
  case Nil
  then show ?case by (cases y) auto
next
  case (Cons a x)
  then show ?case by (cases y) auto
qed

lemma key_matches_exact: "\<forall>b \<in> set x. 13 < b \<Longrightarrow> key_matches x y \<longleftrightarrow> y = x"
proof (induction x arbitrary: y)
  case (Cons a x)
  then have "a \<noteq> 13" "a \<noteq> 10" by auto
  with Cons show ?case by (cases y) auto
qed simp

lemma domain_keys:
  assumes "domain_text s"
  shows "key_matches (reverse_domain s) (rev d) \<longleftrightarrow> d = s"
    and "key_matches (reverse_domain (13 # s)) (rev d) \<longleftrightarrow> suffix s d"
    and "key_matches (reverse_domain (10 # s)) (rev d) \<longleftrightarrow> d = s \<or> suffix (46 # s) d"
    and "key_wf (reverse_domain s)" "key_wf (reverse_domain (13 # s))" "key_wf (reverse_domain (10 # s))"
    and "length (reverse_domain s) = length s" "length (reverse_domain (13 # s)) = Suc (length s)"
      "length (reverse_domain (10 # s)) = Suc (length s)"
proof -
  have low: "\<forall>b \<in> set s. b < 128" and hi: "\<forall>b \<in> set (rev s). 13 < b"
    using assms by (auto simp: domain_text_def ascii_text_def)
  have r: "reverse_domain s = rev s" "reverse_domain (13 # s) = rev s @ [13]" "reverse_domain (10 # s) = rev s @ [10]"
    using low by (simp_all add: reverse_domain_ascii)
  show "key_matches (reverse_domain s) (rev d) \<longleftrightarrow> d = s"
    unfolding r key_matches_exact [OF hi] by simp
  show "key_matches (reverse_domain (13 # s)) (rev d) \<longleftrightarrow> suffix s d"
    unfolding r key_matches_wild [OF hi] by (simp add: suffix_to_prefix)
  show "key_matches (reverse_domain (10 # s)) (rev d) \<longleftrightarrow> d = s \<or> suffix (46 # s) d"
    unfolding r key_matches_label [OF hi] by (simp add: suffix_to_prefix)
  have "s \<noteq> []" "13 \<le> last (rev s)"
    using assms hi last_in_set [of "rev s"] by (auto simp: domain_text_def order.strict_implies_order)
  then show "key_wf (reverse_domain s)" unfolding r key_wf_def
    using hi in_set_butlastD [of _ "rev s"] by blast
  show "key_wf (reverse_domain (13 # s))" "key_wf (reverse_domain (10 # s))"
    unfolding r key_wf_def using hi by auto
  show "length (reverse_domain s) = length s" "length (reverse_domain (13 # s)) = Suc (length s)"
    "length (reverse_domain (10 # s)) = Suc (length s)" by (simp_all add: r)
qed

definition keys_ok :: "nat \<Rightarrow> bytes list \<Rightarrow> bool" where
  "keys_ok n keys \<longleftrightarrow> (\<forall>k \<in> set keys. key_wf k) \<and> sum_list (map length keys) \<le> n"

definition keys_match :: "bytes list \<Rightarrow> bytes \<Rightarrow> bool" where
  "keys_match keys d \<longleftrightarrow> (\<exists>k \<in> set keys. key_matches k (rev d))"

text \<open>
  The loop over the suffixes: the keys match what the suffixes \<open>S\<close> handled so far describe, and
  every string in \<open>seen\<close> describes no more than they do.
\<close>

definition suffixes_pushed :: "bytes list \<Rightarrow> bytes list \<times> bytes set \<Rightarrow> bool" where
  "suffixes_pushed S = (\<lambda>(keys, seen). keys_ok (sum_list (map (\<lambda>s. 2 * Suc (length s)) S)) keys
     \<and> (\<forall>d. keys_match keys d \<longleftrightarrow> (\<exists>s \<in> set S. suffix_item s d))
     \<and> (\<forall>x \<in> seen. \<forall>d. suffix_item x d \<longrightarrow> (\<exists>s \<in> set S. suffix_item s d)))"

lemma keys_match_simps [simp]:
  "keys_match (keys @ keys') d \<longleftrightarrow> keys_match keys d \<or> keys_match keys' d"
  "keys_match [] d \<longleftrightarrow> False" "keys_match (k # keys) d \<longleftrightarrow> key_matches k (rev d) \<or> keys_match keys d"
  by (auto simp: keys_match_def)

lemma push_suffix_pushed:
  assumes "suffixes_pushed S st" "domain_text s"
  shows "suffixes_pushed (S @ [s]) (push_suffix legacy s st)"
proof -
  obtain keys seen where st: "st = (keys, seen)" by (cases st)
  define n where "n = sum_list (map (\<lambda>s. 2 * Suc (length s)) S)"
  have inv: "keys_ok n keys" "\<And>d. keys_match keys d \<longleftrightarrow> (\<exists>s \<in> set S. suffix_item s d)"
    "\<And>x d. x \<in> seen \<Longrightarrow> suffix_item x d \<Longrightarrow> \<exists>s \<in> set S. suffix_item s d"
    using assms(1) by (auto simp: suffixes_pushed_def st n_def)
  have dot: "domain_text (46 # s)" using assms(2) by (simp add: domain_text_def ascii_text_def)
  note k = domain_keys [OF assms(2)] and kd = domain_keys [OF dot]
  have dotted: "suffix_item (46 # s) d \<longleftrightarrow> suffix (46 # s) d" for d by (simp add: suffix_item_def)
  have ok: "keys_ok (n + 2 * Suc (length s)) (fst (push_suffix legacy s st))"
    using inv(1) unfolding st push_suffix_def Let_def by (auto simp: keys_ok_def k kd)
  have seen: "\<exists>t \<in> set (S @ [s]). suffix_item t d" if "x \<in> snd (push_suffix legacy s st)" "suffix_item x d" for x d
  proof -
    have "x \<in> seen \<or> x = s \<or> x = 46 # s \<and> hd s \<noteq> 46"
      using that(1) unfolding st push_suffix_def Let_def by (auto split: if_splits)
    then consider "x \<in> seen" | "x = s" | "x = 46 # s" "hd s \<noteq> 46" by blast
    then have "(\<exists>t \<in> set S. suffix_item t d) \<or> suffix_item s d"
    proof cases
      case 1
      then show ?thesis using inv(3) that(2) by blast
    qed (use that(2) in \<open>simp_all add: suffix_item_def\<close>)
    then show ?thesis by auto
  qed
  have match: "keys_match (fst (push_suffix legacy s st)) d \<longleftrightarrow> keys_match keys d \<or> suffix_item s d" for d
  proof (cases "s \<in> seen \<or> hd s = 46 \<or> \<not> legacy")
    case True
    have "s \<in> seen \<Longrightarrow> suffix_item s d \<Longrightarrow> keys_match keys d" using inv(2,3) by blast
    with True k(2,3) show ?thesis unfolding st push_suffix_def Let_def by (auto simp: suffix_item_def)
  next
    case False
    then have "suffix (46 # s) d \<Longrightarrow> 46 # s \<in> seen \<Longrightarrow> keys_match keys d" using inv(2,3) dotted by blast
    with False k(1) kd(2) show ?thesis unfolding st push_suffix_def Let_def by (auto simp: suffix_item_def)
  qed
  show ?thesis unfolding suffixes_pushed_def case_prod_unfold match inv(2)
    using ok seen by (auto simp: n_def)
qed

lemma push_suffixes_pushed:
  "suffixes_pushed S st \<Longrightarrow> \<forall>s \<in> set ss. domain_text s \<Longrightarrow>
    \<exists>st'. push_suffixes legacy ss st = Inr st' \<and> suffixes_pushed (S @ ss) st'"
proof (induction ss arbitrary: S st)
  case (Cons s ss)
  from Cons.IH [OF push_suffix_pushed [OF Cons.prems(1)]] Cons.prems(2) show ?case
    by (fastforce simp: domain_text_def)
qed simp

text \<open>The loop over the domains, which starts where the loop over the suffixes \<open>S\<close> ended.\<close>

definition described :: "bytes list \<Rightarrow> bytes list \<Rightarrow> bytes \<Rightarrow> bool" where
  "described domains domain_suffixes d \<longleftrightarrow> d \<in> set domains \<or> (\<exists>s \<in> set domain_suffixes. suffix_item s d)"

definition domains_pushed :: "bytes list \<Rightarrow> bytes list \<Rightarrow> bytes list \<times> bytes set \<Rightarrow> bool" where
  "domains_pushed S D = (\<lambda>(keys, seen).
     keys_ok (sum_list (map (\<lambda>s. 2 * Suc (length s)) S) + sum_list (map length D)) keys
     \<and> (\<forall>d. keys_match keys d \<longleftrightarrow> described D S d) \<and> (\<forall>x \<in> seen. described D S x))"

lemma suffixes_pushed_domains: "suffixes_pushed S st \<Longrightarrow> domains_pushed S [] st"
  unfolding suffixes_pushed_def domains_pushed_def described_def
  using suffix_item_self by auto

lemma push_domain_pushed:
  assumes "domains_pushed S D st" "domain_text d"
  shows "domains_pushed S (D @ [d]) (push_domain d st)"
  using assms(1) domain_keys(1,4,7) [OF assms(2)]
  by (auto simp: domains_pushed_def push_domain_def described_def case_prod_unfold keys_ok_def)

lemma push_domains_pushed:
  "domains_pushed S D st \<Longrightarrow> \<forall>d \<in> set ds. domain_text d \<Longrightarrow>
    \<exists>st'. push_domains ds st = Inr st' \<and> domains_pushed S (D @ ds) st'"
proof (induction ds arbitrary: D st)
  case (Cons d ds)
  from Cons.IH [OF push_domain_pushed [OF Cons.prems(1)]] Cons.prems(2) show ?case
    by (fastforce simp: domain_text_def)
qed simp

subsection \<open>The matcher of a domain list\<close>

lemma remdups_adj_ascending: "sorted xs \<Longrightarrow> sorted_wrt (<) (remdups_adj xs)" for xs :: "'a :: linorder list"
proof (induction xs rule: remdups_adj.induct)
  case (3 x y xs)
  then have "x \<noteq> y \<Longrightarrow> \<forall>z \<in> set (y # xs). x < z" by (auto intro: less_le_trans)
  with 3 show ?case by simp
qed simp_all

lemma sum_list_sort: "sum_list (map f (sort xs)) = sum_list (map f xs)" for f :: "'a :: linorder \<Rightarrow> nat"
proof -
  have "sum_list (map f (insort x ys)) = f x + sum_list (map f ys)" for x ys by (induction ys) simp_all
  then show ?thesis by (induction xs) simp_all
qed

lemma sum_list_remdups_adj: "sum_list (map f (remdups_adj xs)) \<le> sum_list (map f xs)" for f :: "'a \<Rightarrow> nat"
  by (induction xs rule: remdups_adj.induct) (simp_all add: trans_le_add2)

lemma build_domain_keys_described:
  assumes "\<forall>d \<in> set domains. domain_text d" "\<forall>s \<in> set domain_suffixes. domain_text s"
  obtains keys where "build_domain_keys domains domain_suffixes legacy = Inr keys" "ascending_keys keys"
    "keys_ok (sum_list (map (\<lambda>s. 2 * Suc (length s)) domain_suffixes) + sum_list (map length domains)) keys"
    "\<And>d. keys_match keys d \<longleftrightarrow> described domains domain_suffixes d"
proof -
  have "suffixes_pushed [] ([], {})" by (simp add: suffixes_pushed_def keys_ok_def keys_match_def)
  from push_suffixes_pushed [OF this assms(2), of legacy] obtain st where
    st: "push_suffixes legacy domain_suffixes ([], {}) = Inr st" "suffixes_pushed domain_suffixes st" by auto
  from push_domains_pushed [OF suffixes_pushed_domains [OF st(2)] assms(1)] obtain keys seen where
    k: "push_domains domains st = Inr (keys, seen)" "domains_pushed domain_suffixes domains (keys, seen)" by auto
  show ?thesis
  proof (rule that [of "remdups_adj (sort keys)"])
    show "build_domain_keys domains domain_suffixes legacy = Inr (remdups_adj (sort keys))"
      by (simp add: build_domain_keys_def st k)
    have "sum_list (map length (remdups_adj (sort keys))) \<le> sum_list (map length keys)"
      using sum_list_remdups_adj [of length "sort keys"] by (simp add: sum_list_sort)
    then show "keys_ok (sum_list (map (\<lambda>s. 2 * Suc (length s)) domain_suffixes) + sum_list (map length domains))
        (remdups_adj (sort keys))"
      using k(2) by (simp add: domains_pushed_def keys_ok_def)
    show "keys_match (remdups_adj (sort keys)) d \<longleftrightarrow> described domains domain_suffixes d" for d
      using k(2) by (simp add: domains_pushed_def keys_match_def)
  qed (simp add: remdups_adj_ascending)
qed

lemma compiled_domains_described:
  assumes "domains @ domain_suffixes \<noteq> []" "\<forall>d \<in> set (domains @ domain_suffixes). domain_text d"
    and "sum_list (map (\<lambda>s. length s + 1) (domains @ domain_suffixes)) < 4 * 1024 * 1024"
  obtains keys b ss where "build_domain_keys domains domain_suffixes legacy = Inr keys"
    "write_succinct_set keys = Inr b" "succinct_read (b @ rest) = Inr (ss, rest)"
    "\<And>d. ascii_text d \<Longrightarrow> matches_domain ss d \<longleftrightarrow> described domains domain_suffixes d"
proof -
  from assms(2) obtain keys where keys: "build_domain_keys domains domain_suffixes legacy = Inr keys" "ascending_keys keys"
    "keys_ok (sum_list (map (\<lambda>s. 2 * Suc (length s)) domain_suffixes) + sum_list (map length domains)) keys"
    "\<And>d. keys_match keys d \<longleftrightarrow> described domains domain_suffixes d"
    using build_domain_keys_described [of domains domain_suffixes legacy] by auto
  have "sum_list (map (\<lambda>s. 2 * Suc (length s)) domain_suffixes) = 2 * sum_list (map (\<lambda>s. length s + 1) domain_suffixes)"
    "sum_list (map length domains) \<le> sum_list (map (\<lambda>s. length s + 1) domains)"
    by (simp_all add: sum_list_const_mult [symmetric] sum_list_mono)
  then have "sum_list (map length keys) < 8 * 1024 * 1024" using keys(3) assms(3) by (simp add: keys_ok_def)
  moreover have "keys \<noteq> []"
  proof -
    obtain d where "described domains domain_suffixes d"
      using assms(1) suffix_item_self unfolding described_def by (metis append_Nil ex_in_conv set_empty)
    then show ?thesis using keys(4) by (auto simp: keys_match_def)
  qed
  moreover have "\<forall>k \<in> set keys. key_wf k" using keys(3) by (simp add: keys_ok_def)
  ultimately obtain b ss where b: "write_succinct_set keys = Inr b" "succinct_read (b @ rest) = Inr (ss, rest)"
    and m: "\<And>name. \<forall>c \<in> set name. 13 < c \<Longrightarrow> matches_domain_key ss name \<longleftrightarrow> (\<exists>k \<in> set keys. key_matches k name)"
    using write_read_matches [OF keys(2)] by metis
  have "matches_domain ss d \<longleftrightarrow> described domains domain_suffixes d" if "ascii_text d" for d
    using that m [of "rev d"] keys(4) [of d]
    by (simp add: matches_domain_def reverse_domain_ascii ascii_text_def keys_match_def)
  with b keys(1) show ?thesis by (intro that)
qed

text \<open>
  Property C6. Compiling a domain list and a suffix list to the binary format and reading it back
  loses nothing: building the keys and writing the succinct set succeed, reading consumes exactly
  what was written, and the matcher read back accepts a name if and only if the name is one of the
  domains, or lies below a suffix with a leading dot, or is or lies below a suffix without one. This
  holds for both key layouts (version 1 and later).
\<close>

theorem compiled_domains_match:
  assumes "domains @ domain_suffixes \<noteq> []" "\<forall>d \<in> set (domains @ domain_suffixes). domain_text d"
    and "sum_list (map (\<lambda>s. length s + 1) (domains @ domain_suffixes)) < 4 * 1024 * 1024"
  shows "\<exists>keys b ss. build_domain_keys domains domain_suffixes legacy = Inr keys
    \<and> write_succinct_set keys = Inr b \<and> succinct_read (b @ rest) = Inr (ss, rest)
    \<and> (\<forall>d. ascii_text d \<longrightarrow> (matches_domain ss d \<longleftrightarrow> d \<in> set domains
          \<or> (\<exists>s \<in> set domain_suffixes. if hd s = 46 then suffix s d else d = s \<or> suffix (46 # s) d)))"
proof -
  from compiled_domains_described [OF assms, of legacy rest] obtain keys b ss where
    "build_domain_keys domains domain_suffixes legacy = Inr keys" "write_succinct_set keys = Inr b"
    "succinct_read (b @ rest) = Inr (ss, rest)"
    "\<And>d. ascii_text d \<Longrightarrow> matches_domain ss d \<longleftrightarrow> described domains domain_suffixes d" by blast
  then show ?thesis by (auto simp: described_def suffix_item_def)
qed

text \<open>The domain \<open>a.b\<close> and the suffixes \<open>b\<close> and \<open>.c\<close>.\<close>

theorem compiled_domains_match_witness:
  "\<exists>keys b ss. build_domain_keys [[97, 46, 98]] [[98], [46, 99]] False = Inr keys
    \<and> write_succinct_set keys = Inr b \<and> succinct_read (b @ []) = Inr (ss, [])
    \<and> matches_domain ss [97, 46, 99] \<and> \<not> matches_domain ss [99]"
  using compiled_domains_match [of "[[97, 46, 98]]" "[[98], [46, 99]]" False "[]"]
  by (auto simp: domain_text_def ascii_text_def suffix_def)

end
