(* ===== verification/Route_Match.thy ===== *)
theory Route_Match
  imports Route_Types Srs_Matcher
begin

text \<open>
  Rule matching (\<open>route/mod.rs\<close>): the conditions of a default rule, the headless rules of a
  rule-set, and how a rule and its rule-sets combine. A compiled \<open>Regex\<close> is the predicate
  \<open>is_match\<close>, a compiled \<open>IpNet\<close> the predicate \<open>contains\<close>; their parsers are arguments of the
  functions that compile a rule.
\<close>

type_synonym regex = "string \<Rightarrow> bool"
type_synonym ip_net = "ip_addr \<Rightarrow> bool"

subsection \<open>The configured rule\<close>

record raw_default_rule =
  rd_inbound :: "string list"
  rd_ip_version :: int
  rd_network :: "string list"
  rd_auth_user :: "string list"
  rd_protocol :: "string list"
  rd_client :: "string list"
  rd_domain :: "string list"
  rd_domain_suffix :: "string list"
  rd_domain_keyword :: "string list"
  rd_domain_regex :: "string list"
  rd_geosite :: "string list"
  rd_source_geoip :: "string list"
  rd_geoip :: "string list"
  rd_source_ip_cidr :: "string list"
  rd_source_ip_is_private :: bool
  rd_ip_cidr :: "string list"
  rd_ip_is_private :: bool
  rd_source_port :: "u16 list"
  rd_source_port_range :: "string list"
  rd_port :: "u16 list"
  rd_port_range :: "string list"
  rd_process_name :: "string list"
  rd_process_path :: "string list"
  rd_process_path_regex :: "string list"
  rd_package_name :: "string list"
  rd_package_name_regex :: "string list"
  rd_user :: "string list"
  rd_user_id :: "int list"
  rd_clash_mode :: string
  rd_network_type :: "string list"
  rd_network_is_expensive :: bool
  rd_network_is_constrained :: bool
  rd_wifi_ssid :: "string list"
  rd_wifi_bssid :: "string list"
  rd_interface_address :: "(string \<times> string list) list"
  rd_network_interface_address :: "(string \<times> string list) list"
  rd_default_interface_address :: "string list"
  rd_source_mac_address :: "string list"
  rd_source_hostname :: "string list"
  rd_preferred_by :: "string list"
  rd_rule_set :: "string list"
  rd_rule_set_ip_cidr_match_source :: bool
  rd_rule_set_ipcidr_match_source :: bool
  rd_invert :: bool

definition raw_default :: raw_default_rule where
  "raw_default =
     \<lparr>rd_inbound = [], rd_ip_version = 0, rd_network = [], rd_auth_user = [], rd_protocol = [],
      rd_client = [], rd_domain = [], rd_domain_suffix = [], rd_domain_keyword = [], rd_domain_regex = [],
      rd_geosite = [], rd_source_geoip = [], rd_geoip = [], rd_source_ip_cidr = [],
      rd_source_ip_is_private = False, rd_ip_cidr = [], rd_ip_is_private = False, rd_source_port = [],
      rd_source_port_range = [], rd_port = [], rd_port_range = [], rd_process_name = [],
      rd_process_path = [], rd_process_path_regex = [], rd_package_name = [], rd_package_name_regex = [],
      rd_user = [], rd_user_id = [], rd_clash_mode = [], rd_network_type = [],
      rd_network_is_expensive = False, rd_network_is_constrained = False, rd_wifi_ssid = [],
      rd_wifi_bssid = [], rd_interface_address = [], rd_network_interface_address = [],
      rd_default_interface_address = [], rd_source_mac_address = [], rd_source_hostname = [],
      rd_preferred_by = [], rd_rule_set = [], rd_rule_set_ip_cidr_match_source = False,
      rd_rule_set_ipcidr_match_source = False, rd_invert = False\<rparr>"

record port_range =
  pr_start :: u16
  pr_end :: u16

definition port_range_contains :: "port_range \<Rightarrow> u16 \<Rightarrow> bool" where
  "port_range_contains r port \<longleftrightarrow> pr_start r \<le> port \<and> port \<le> pr_end r"

text \<open>The compiled conditions of a default rule; its rule-sets, action and reject counter come later.\<close>

record default_matcher =
  dm_raw :: raw_default_rule
  dm_domain_regex :: "regex list"
  dm_process_path_regex :: "regex list"
  dm_package_name_regex :: "regex list"
  dm_source_prefixes :: "ip_net list"
  dm_destination_prefixes :: "ip_net list"
  dm_source_port_ranges :: "port_range list"
  dm_port_ranges :: "port_range list"
  dm_interface_prefixes :: "(string \<times> ip_net list) list"
  dm_network_interface_prefixes :: "(string \<times> ip_net list) list"
  dm_default_interface_prefixes :: "ip_net list"

subsection \<open>Compiling a rule\<close>

datatype route_error =
  BadRegex string | BadPrefix string | BadPortRange string | InvalidIpVersion int | EmptyDomainItem
| EmptyDomainSuffixItem | EmptyHeadlessRule | NestedTooDeep | NoChildRules | DeprecatedGeosite
| DeprecatedGeoip | DeprecatedRuleSetIpcidr | UnknownRuleSetFormat string | DecodeFailed | ValidatorRejected

text \<open>The parsers of the regular expression and network prefix crates.\<close>

record rule_parsers =
  regex_new :: "string \<Rightarrow> regex option"
  ipnet_parse :: "string \<Rightarrow> ip_net option"
  ipnet_new :: "ip_addr \<Rightarrow> nat \<Rightarrow> ip_net option"

definition compile_regexes :: "rule_parsers \<Rightarrow> string list \<Rightarrow> route_error + regex list" where
  "compile_regexes ps = collect_results (\<lambda>p. case regex_new ps p of None \<Rightarrow> Inl (BadRegex p) | Some r \<Rightarrow> Inr r)"

definition compile_prefix :: "rule_parsers \<Rightarrow> string \<Rightarrow> route_error + ip_net" where
  "compile_prefix ps value =
     (case ipnet_parse ps value of
        Some net \<Rightarrow> Inr net
      | None \<Rightarrow>
          (case parse_ip value of
             None \<Rightarrow> Inl (BadPrefix value)
           | Some address \<Rightarrow>
               (case ipnet_new ps address (if is_ipv4 address then 32 else 128) of
                  None \<Rightarrow> Inl (BadPrefix value) | Some net \<Rightarrow> Inr net)))"

definition compile_prefixes :: "rule_parsers \<Rightarrow> string list \<Rightarrow> route_error + ip_net list" where
  "compile_prefixes ps = collect_results (compile_prefix ps)"

definition compile_prefix_map ::
  "rule_parsers \<Rightarrow> (string \<times> string list) list \<Rightarrow> route_error + (string \<times> ip_net list) list" where
  "compile_prefix_map ps =
     collect_results (\<lambda>(kind, values). and_then (compile_prefixes ps values) (\<lambda>v. Inr (kind, v)))"

text \<open>\<open>split_once(':')\<close>, then an empty bound is the end of the port space on its side.\<close>

definition split_once :: "char \<Rightarrow> string \<Rightarrow> (string \<times> string) option" where
  "split_once c s =
     (case dropWhile (\<lambda>x. x \<noteq> c) s of [] \<Rightarrow> None | _ # rest \<Rightarrow> Some (takeWhile (\<lambda>x. x \<noteq> c) s, rest))"

definition compile_port_range :: "string \<Rightarrow> route_error + port_range" where
  "compile_port_range value =
     (case split_once (CHR '':'') value of
        None \<Rightarrow> Inl (BadPortRange value)
      | Some (start, ende) \<Rightarrow>
          (case (if start = [] then Some 0 else parse_u16 start) of
             None \<Rightarrow> Inl (BadPortRange value)
           | Some s \<Rightarrow>
               (case (if ende = [] then Some 0xffff else parse_u16 ende) of
                  None \<Rightarrow> Inl (BadPortRange value)
                | Some e \<Rightarrow> Inr \<lparr>pr_start = s, pr_end = e\<rparr>)))"

definition compile_port_ranges :: "string list \<Rightarrow> route_error + port_range list" where
  "compile_port_ranges = collect_results compile_port_range"

definition validate_domain_items :: "string list \<Rightarrow> string list \<Rightarrow> route_error + unit" where
  "validate_domain_items domains domain_suffixes =
     (if list_ex (\<lambda>d. d = []) domains then Inl EmptyDomainItem
      else if list_ex (\<lambda>s. s = []) domain_suffixes then Inl EmptyDomainSuffixItem else Inr ())"

definition validate_deprecated_default_rule_fields :: "raw_default_rule \<Rightarrow> route_error + unit" where
  "validate_deprecated_default_rule_fields raw =
     (if rd_geosite raw \<noteq> [] then Inl DeprecatedGeosite
      else if rd_source_geoip raw \<noteq> [] \<or> rd_geoip raw \<noteq> [] then Inl DeprecatedGeoip
      else if rd_rule_set raw \<noteq> [] \<and> rd_rule_set_ipcidr_match_source raw then Inl DeprecatedRuleSetIpcidr
      else Inr ())"

definition from_raw :: "rule_parsers \<Rightarrow> raw_default_rule \<Rightarrow> route_error + default_matcher" where
  "from_raw ps raw =
     (if rd_ip_version raw \<notin> {0, 4, 6} then Inl (InvalidIpVersion (rd_ip_version raw)) else
      and_then (validate_domain_items (rd_domain raw) (rd_domain_suffix raw)) (\<lambda>_.
      and_then (compile_prefix_map ps (rd_interface_address raw)) (\<lambda>interface_prefixes.
      and_then (compile_prefix_map ps (rd_network_interface_address raw)) (\<lambda>network_prefixes.
      and_then (compile_prefixes ps (rd_default_interface_address raw)) (\<lambda>default_prefixes.
      and_then (compile_regexes ps (rd_domain_regex raw)) (\<lambda>domain_regexes.
      and_then (compile_regexes ps (rd_process_path_regex raw)) (\<lambda>path_regexes.
      and_then (compile_regexes ps (rd_package_name_regex raw)) (\<lambda>package_regexes.
      and_then (compile_prefixes ps (rd_source_ip_cidr raw)) (\<lambda>source_prefixes.
      and_then (compile_prefixes ps (rd_ip_cidr raw)) (\<lambda>destination_prefixes.
      and_then (compile_port_ranges (rd_source_port_range raw)) (\<lambda>source_ranges.
      and_then (compile_port_ranges (rd_port_range raw)) (\<lambda>ranges.
      Inr \<lparr>dm_raw = raw, dm_domain_regex = domain_regexes, dm_process_path_regex = path_regexes,
           dm_package_name_regex = package_regexes, dm_source_prefixes = source_prefixes,
           dm_destination_prefixes = destination_prefixes, dm_source_port_ranges = source_ranges,
           dm_port_ranges = ranges, dm_interface_prefixes = interface_prefixes,
           dm_network_interface_prefixes = network_prefixes,
           dm_default_interface_prefixes = default_prefixes\<rparr>))))))))))))"

subsection \<open>Single conditions\<close>

definition matches_list :: "string list \<Rightarrow> string \<Rightarrow> bool" where
  "matches_list values actual \<longleftrightarrow> values = [] \<or> actual \<in> set values"

definition matches_optional :: "'a list \<Rightarrow> 'a option \<Rightarrow> bool" where
  "matches_optional values actual \<longleftrightarrow> values = [] \<or> (case actual of Some a \<Rightarrow> a \<in> set values | None \<Rightarrow> False)"

definition matches_regex :: "regex list \<Rightarrow> string \<Rightarrow> bool" where
  "matches_regex patterns actual \<longleftrightarrow> patterns = [] \<or> list_ex (\<lambda>p. p actual) patterns"

definition matches_port :: "u16 list \<Rightarrow> port_range list \<Rightarrow> u16 option \<Rightarrow> bool" where
  "matches_port exact ranges actual \<longleftrightarrow>
     (if exact = [] \<and> ranges = [] then True
      else case actual of
             Some port \<Rightarrow> port \<in> set exact \<or> list_ex (\<lambda>r. port_range_contains r port) ranges
           | None \<Rightarrow> False)"

definition matches_ip_version :: "int \<Rightarrow> u8 option \<Rightarrow> ip_addr option \<Rightarrow> bool" where
  "matches_ip_version version explicit address \<longleftrightarrow>
     (let actual = (case address of Some a \<Rightarrow> Some (if is_ipv4 a then 4 else 6) | None \<Rightarrow> explicit)
      in if version = 0 then True
         else if version = 4 then actual = Some 4
         else if version = 6 then actual = Some 6
         else False)"

definition matches_interface_prefixes ::
  "(string \<times> ip_net list) list \<Rightarrow> (string \<Rightarrow> ip_addr list option) \<Rightarrow> bool" where
  "matches_interface_prefixes configured actual \<longleftrightarrow>
     list_all (\<lambda>(kind, nets). case actual kind of
        Some addresses \<Rightarrow> list_all (\<lambda>p. list_ex p addresses) nets | None \<Rightarrow> False) configured"

definition matches_any_prefix :: "ip_net list \<Rightarrow> ip_addr list \<Rightarrow> bool" where
  "matches_any_prefix nets addresses \<longleftrightarrow> list_all (\<lambda>p. list_ex p addresses) nets"

definition domain_matches_suffix :: "string \<Rightarrow> string \<Rightarrow> bool" where
  "domain_matches_suffix domain configured \<longleftrightarrow>
     (let subdomains_only = (configured \<noteq> [] \<and> hd configured = CHR ''.'');
          suf = to_ascii_lowercase (trim_end_matches (CHR ''.'') (trim_start_matches (CHR ''.'') configured))
      in (\<not> subdomains_only \<and> domain = suf)
         \<or> (case strip_suffix suf domain of Some p \<Rightarrow> suffix ''.'' p | None \<Rightarrow> False))"

text \<open>\<open>str::trim\<close> removes Unicode white space, here by its UTF-8 encodings.\<close>

definition white_space :: "string list" where
  "white_space = map (map char_of)
     ([[9], [10], [11], [12], [13], [32], [0xc2, 0x85], [0xc2, 0xa0], [0xe1, 0x9a, 0x80],
       [0xe2, 0x80, 0xa8], [0xe2, 0x80, 0xa9], [0xe2, 0x80, 0xaf], [0xe2, 0x81, 0x9f], [0xe3, 0x80, 0x80]]
      @ map (\<lambda>b. [0xe2, 0x80, b]) [0x80 ..< 0x8b :: nat])"

function trim_front :: "string list \<Rightarrow> string \<Rightarrow> string" where
  "trim_front ws s =
     (case find (\<lambda>w. w \<noteq> [] \<and> prefix w s) ws of None \<Rightarrow> s | Some w \<Rightarrow> trim_front ws (drop (length w) s))"
  by auto
termination
  by (relation "measure (length \<circ> snd)") (auto simp: find_Some_iff prefix_def)

declare trim_front.simps [simp del]

definition trim :: "string \<Rightarrow> string" where
  "trim s = rev (trim_front (map rev white_space) (rev (trim_front white_space s)))"

definition parse_hex_octets :: "string list \<Rightarrow> u8 list option" where
  "parse_hex_octets octets = those (map u8_from_hex octets)"

text \<open>\<open>{octet:02x}\<close> joined by colons.\<close>

definition hex2 :: "u8 \<Rightarrow> string" where
  "hex2 b = [digit_char (unat b div 16), digit_char (unat b mod 16)]"

definition format_hardware_address :: "u8 list \<Rightarrow> string" where
  "format_hardware_address address = join_with '':'' (map hex2 address)"

definition normalize_hardware_address :: "string \<Rightarrow> bool \<Rightarrow> string" where
  "normalize_hardware_address value0 wifi =
     (let v = (if wifi then trim value0 else value0);
          accept = (\<lambda>parsed. case parsed of
             Some octets \<Rightarrow> if length octets \<in> (if wifi then {6} else {6, 8, 20}) then format_hardware_address octets else v
           | None \<Rightarrow> v)
      in if wifi \<and> length v = 12 \<and> list_all (is_digit 16) v then accept (parse_hex_octets (chunks_exact2 v))
         else if CHR ''.'' \<in> set v
         then (let groups = split_on (CHR ''.'') v
               in if length groups = 3 \<and> list_all (\<lambda>g. length g = 4 \<and> list_all (\<lambda>c. (of_char c :: nat) < 128) g) groups
                  then accept (parse_hex_octets (chunks_exact2 (concat groups))) else v)
         else if CHR '':'' \<in> set v \<or> CHR ''-'' \<in> set v
         then (let groups = split_on (if CHR '':'' \<in> set v then CHR '':'' else CHR ''-'') v
               in if list_all (\<lambda>g. length g = 2) groups then accept (parse_hex_octets groups) else v)
         else v)"

definition matches_hardware_addresses :: "string list \<Rightarrow> string \<Rightarrow> bool \<Rightarrow> bool" where
  "matches_hardware_addresses configured actual wifi \<longleftrightarrow>
     (if configured = [] then True
      else let a = normalize_hardware_address actual wifi
           in list_ex (\<lambda>v. normalize_hardware_address v wifi = a) configured)"

subsection \<open>Evaluating a default rule\<close>

text \<open>
  A match is the conjunction of the ordinary conditions and of four groups; a group is required when
  the rule has a condition in it, and satisfied when one of them holds.
\<close>

abbreviation MATCH_SOURCE_ADDRESS :: u8 where "MATCH_SOURCE_ADDRESS \<equiv> 1"
abbreviation MATCH_SOURCE_PORT :: u8 where "MATCH_SOURCE_PORT \<equiv> 2"
abbreviation MATCH_DESTINATION_ADDRESS :: u8 where "MATCH_DESTINATION_ADDRESS \<equiv> 4"
abbreviation MATCH_DESTINATION_PORT :: u8 where "MATCH_DESTINATION_PORT \<equiv> 8"

record rule_match =
  rm_ordinary :: bool
  rm_required :: u8
  rm_satisfied :: u8

definition match_done :: "rule_match \<Rightarrow> bool" where
  "match_done m \<longleftrightarrow> rm_ordinary m \<and> rm_required m AND NOT (rm_satisfied m) = 0"

definition match_merge :: "rule_match \<Rightarrow> rule_match \<Rightarrow> rule_match" where
  "match_merge m n =
     \<lparr>rm_ordinary = (rm_ordinary m \<and> rm_ordinary n), rm_required = rm_required m OR rm_required n,
      rm_satisfied = rm_satisfied m OR rm_satisfied n\<rparr>"

text \<open>One group of the evaluation: when \<open>needed\<close>, its bit is required, and satisfied if \<open>ok\<close>.\<close>

definition match_group :: "u8 \<Rightarrow> bool \<Rightarrow> bool \<Rightarrow> rule_match \<Rightarrow> rule_match" where
  "match_group b needed ok m =
     (if needed
      then m\<lparr>rm_required := rm_required m OR b,
             rm_satisfied := (if ok then rm_satisfied m OR b else rm_satisfied m)\<rparr>
      else m)"

definition rule_matches_domain :: "default_matcher \<Rightarrow> string option \<Rightarrow> bool" where
  "rule_matches_domain dm domain_opt =
     (case domain_opt of
        None \<Rightarrow> False
      | Some d \<Rightarrow>
          (let domain = to_ascii_lowercase (trim_end_matches (CHR ''.'') d); raw = dm_raw dm
           in list_ex (\<lambda>v. eq_ignore_ascii_case (trim_end_matches (CHR ''.'') v) domain) (rd_domain raw)
              \<or> list_ex (domain_matches_suffix domain) (rd_domain_suffix raw)
              \<or> list_ex (\<lambda>k. str_contains domain (to_ascii_lowercase k)) (rd_domain_keyword raw)
              \<or> list_ex (\<lambda>p. p domain) (dm_domain_regex dm)))"

definition has_domain_condition :: "default_matcher \<Rightarrow> bool" where
  "has_domain_condition dm \<longleftrightarrow>
     rd_domain (dm_raw dm) \<noteq> [] \<or> rd_domain_suffix (dm_raw dm) \<noteq> []
     \<or> rd_domain_keyword (dm_raw dm) \<noteq> [] \<or> dm_domain_regex dm \<noteq> []"

text \<open>\<open>address.is_some_and(f)\<close>.\<close>

definition is_some_and :: "'a option \<Rightarrow> ('a \<Rightarrow> bool) \<Rightarrow> bool" where
  "is_some_and x f \<longleftrightarrow> (case x of Some a \<Rightarrow> f a | None \<Rightarrow> False)"

definition matches_source_address :: "default_matcher \<Rightarrow> ip_addr option \<Rightarrow> bool" where
  "matches_source_address dm address \<longleftrightarrow>
     (let has_cidr = (rd_source_ip_cidr (dm_raw dm) \<noteq> []); is_private = rd_source_ip_is_private (dm_raw dm)
      in if \<not> has_cidr \<and> \<not> is_private then True
         else (has_cidr \<and> is_some_and address (\<lambda>a. list_ex (\<lambda>net. net a) (dm_source_prefixes dm)))
              \<or> (is_private \<and> is_some_and address is_private_address))"

definition matches_ip_address :: "default_matcher \<Rightarrow> ip_addr option \<Rightarrow> bool" where
  "matches_ip_address dm address \<longleftrightarrow>
     (rd_ip_cidr (dm_raw dm) \<noteq> [] \<and> is_some_and address (\<lambda>a. list_ex (\<lambda>net. net a) (dm_destination_prefixes dm)))
     \<or> (rd_ip_is_private (dm_raw dm) \<and> is_some_and address is_private_address)"

definition matches_destination_ip_address :: "default_matcher \<Rightarrow> metadata \<Rightarrow> bool" where
  "matches_destination_ip_address dm md =
     (case destination_ip md of
        Some address \<Rightarrow> matches_ip_address dm (Some address)
      | None \<Rightarrow> list_ex (\<lambda>address. matches_ip_address dm (Some address)) (md_destination_addresses md))"

definition ordinary_conditions :: "default_matcher \<Rightarrow> metadata \<Rightarrow> bool" where
  "ordinary_conditions dm md =
     (let raw = dm_raw dm in
      matches_list (rd_inbound raw) (md_inbound md)
      \<and> matches_optional (rd_network raw) (map_option network_as_str (md_network md))
      \<and> matches_list (rd_auth_user raw) (md_auth_user md)
      \<and> matches_list (rd_protocol raw) (md_protocol md)
      \<and> matches_list (rd_client raw) (md_client md)
      \<and> matches_ip_version (rd_ip_version raw) (md_ip_version md) (destination_ip md)
      \<and> matches_list (rd_process_name raw) (md_process_name md)
      \<and> matches_list (rd_process_path raw) (md_process_path md)
      \<and> matches_regex (dm_process_path_regex dm) (md_process_path md)
      \<and> matches_list (rd_package_name raw) (md_package_name md)
      \<and> matches_regex (dm_package_name_regex dm) (md_package_name md)
      \<and> matches_list (rd_user raw) (md_user md)
      \<and> matches_optional (rd_user_id raw) (md_user_id md)
      \<and> (rd_clash_mode raw = [] \<or> eq_ignore_ascii_case (rd_clash_mode raw) (md_clash_mode md))
      \<and> matches_list (rd_network_type raw) (md_network_type md)
      \<and> (\<not> rd_network_is_expensive raw \<or> md_network_is_expensive md)
      \<and> (\<not> rd_network_is_constrained raw \<or> md_network_is_constrained md)
      \<and> matches_list (rd_wifi_ssid raw) (md_wifi_ssid md)
      \<and> matches_hardware_addresses (rd_wifi_bssid raw) (md_wifi_bssid md) True
      \<and> matches_interface_prefixes (dm_interface_prefixes dm) (md_interface_address md)
      \<and> matches_interface_prefixes (dm_network_interface_prefixes dm) (md_network_interface_address md)
      \<and> matches_any_prefix (dm_default_interface_prefixes dm) (md_default_interface_address md)
      \<and> matches_hardware_addresses (rd_source_mac_address raw) (md_source_mac_address md) False
      \<and> matches_list (rd_source_hostname raw) (md_source_hostname md)
      \<and> (rd_preferred_by raw = [] \<or> list_ex (\<lambda>tag. tag \<in> set (md_preferred_by md)) (rd_preferred_by raw)))"

definition evaluate_with_ip_source_and_empty :: "default_matcher \<Rightarrow> metadata \<Rightarrow> bool \<Rightarrow> bool \<Rightarrow> rule_match" where
  "evaluate_with_ip_source_and_empty dm md ip_cidr_match_source ip_cidr_accept_empty =
     (let raw = dm_raw dm;
          has_source_address = (rd_source_ip_cidr raw \<noteq> [] \<or> rd_source_ip_is_private raw);
          has_destination_ip = (rd_ip_cidr raw \<noteq> [] \<or> rd_ip_is_private raw);
          result = \<lparr>rm_ordinary = ordinary_conditions dm md, rm_required = 0, rm_satisfied = 0\<rparr>;
          result1 = match_group MATCH_SOURCE_ADDRESS
            (has_source_address \<or> ip_cidr_match_source \<and> has_destination_ip)
            (has_source_address \<and> matches_source_address dm (source_ip md)
             \<or> ip_cidr_match_source \<and> has_destination_ip \<and> matches_ip_address dm (source_ip md)) result;
          result2 = match_group MATCH_SOURCE_PORT
            (rd_source_port raw \<noteq> [] \<or> dm_source_port_ranges dm \<noteq> [])
            (matches_port (rd_source_port raw) (dm_source_port_ranges dm) (map_option socks_port (md_source md))) result1;
          result3 = match_group MATCH_DESTINATION_ADDRESS
            (has_domain_condition dm \<or> \<not> ip_cidr_match_source \<and> has_destination_ip)
            (has_domain_condition dm \<and> rule_matches_domain dm (metadata_domain md)
             \<or> \<not> ip_cidr_match_source \<and> has_destination_ip
               \<and> (matches_destination_ip_address dm md
                  \<or> ip_cidr_accept_empty \<and> destination_ip md = None \<and> md_destination_addresses md = [])) result2
      in match_group MATCH_DESTINATION_PORT
           (rd_port raw \<noteq> [] \<or> dm_port_ranges dm \<noteq> [])
           (matches_port (rd_port raw) (dm_port_ranges dm) (map_option socks_port (md_destination md))) result3)"

subsection \<open>Headless rules and rule-sets\<close>

datatype logical_mode = And | Or

record headless_default_rule =
  hr_query_type :: "u16 list"
  hr_base :: default_matcher
  hr_network_interface_prefixes :: "(string \<times> ip_net list) list"
  hr_default_interface_prefixes :: "ip_net list"
  hr_adguard_regex :: "regex list"
  hr_compact_domain :: "succinct_set option"
  hr_compact_adguard :: "succinct_set option"

datatype headless_rule =
  HeadlessDefault headless_default_rule
| HeadlessLogical logical_mode "headless_rule list" bool

definition utf8_bytes :: "string \<Rightarrow> bytes" where
  "utf8_bytes s = map of_char s"

text \<open>The text handed to a compact matcher.\<close>

definition compact_key :: "string \<Rightarrow> bytes" where
  "compact_key domain = utf8_bytes (to_ascii_lowercase (trim_end_matches (CHR ''.'') domain))"

definition headless_evaluate :: "headless_default_rule \<Rightarrow> metadata \<Rightarrow> bool \<Rightarrow> bool \<Rightarrow> rule_match" where
  "headless_evaluate hr md ip_cidr_match_source ip_cidr_accept_empty =
     (let m = evaluate_with_ip_source_and_empty (hr_base hr) md ip_cidr_match_source ip_cidr_accept_empty;
          m0 = m\<lparr>rm_ordinary := rm_ordinary m
            \<and> matches_optional (hr_query_type hr) (md_query_type md)
            \<and> matches_interface_prefixes (hr_network_interface_prefixes hr) (md_network_interface_address md)
            \<and> matches_any_prefix (hr_default_interface_prefixes hr) (md_default_interface_address md)\<rparr>;
          m1 = match_group MATCH_DESTINATION_ADDRESS (hr_adguard_regex hr \<noteq> [])
            (is_some_and (metadata_domain md) (\<lambda>d. list_ex (\<lambda>p. p d) (hr_adguard_regex hr))) m0;
          m2 = match_group MATCH_DESTINATION_ADDRESS (hr_compact_domain hr \<noteq> None)
            (is_some_and (metadata_domain md) (\<lambda>d. is_some_and (hr_compact_domain hr)
               (\<lambda>ss. matches_domain ss (compact_key d)))) m1
      in match_group MATCH_DESTINATION_ADDRESS (hr_compact_adguard hr \<noteq> None)
           (is_some_and (metadata_domain md) (\<lambda>d. is_some_and (hr_compact_adguard hr)
               (\<lambda>ss. matches_adguard ss (compact_key d)))) m2)"

definition headless_default_matches :: "headless_default_rule \<Rightarrow> metadata \<Rightarrow> bool \<Rightarrow> bool \<Rightarrow> bool" where
  "headless_default_matches hr md ip_source accept_empty \<longleftrightarrow>
     match_done (headless_evaluate hr md ip_source accept_empty) \<noteq> rd_invert (dm_raw (hr_base hr))"

text \<open>The children of a logical rule are combined by \<open>all\<close> or \<open>any\<close>.\<close>

definition logical_combine :: "logical_mode \<Rightarrow> bool list \<Rightarrow> bool" where
  "logical_combine mode results = (case mode of And \<Rightarrow> list_all id results | Or \<Rightarrow> list_ex id results)"

fun headless_matches :: "headless_rule \<Rightarrow> metadata \<Rightarrow> bool \<Rightarrow> bool \<Rightarrow> bool" where
  "headless_matches (HeadlessDefault hr) md ip_source accept_empty =
     headless_default_matches hr md ip_source accept_empty"
| "headless_matches (HeadlessLogical mode rules invert) md ip_source accept_empty =
     (logical_combine mode (map (\<lambda>r. headless_matches r md ip_source accept_empty) rules) \<noteq> invert)"

text \<open>A single default rule that is not inverted joins the groups of the outer rule.\<close>

definition matches_with_outer_accept_empty ::
  "headless_rule list \<Rightarrow> metadata \<Rightarrow> rule_match \<Rightarrow> bool \<Rightarrow> bool \<Rightarrow> bool" where
  "matches_with_outer_accept_empty rules md outer ip_source accept_empty =
     (let any_rule = (match_done outer \<and> list_ex (\<lambda>r. headless_matches r md ip_source accept_empty) rules)
      in case rules of
           [HeadlessDefault hr] \<Rightarrow>
             if \<not> rd_invert (dm_raw (hr_base hr))
             then match_done (match_merge outer (headless_evaluate hr md ip_source accept_empty))
             else any_rule
         | _ \<Rightarrow> any_rule)"

text \<open>
  A default rule with rule-sets, each given by the rules of its current snapshot. \<open>matches\<close> of
  \<open>DefaultRule\<close>.
\<close>

definition default_rule_matches :: "default_matcher \<Rightarrow> headless_rule list list \<Rightarrow> metadata \<Rightarrow> bool" where
  "default_rule_matches dm rule_sets md \<longleftrightarrow>
     (let outer = evaluate_with_ip_source_and_empty dm md False False;
          matched = (if rule_sets = [] then match_done outer
                     else list_ex (\<lambda>rules. matches_with_outer_accept_empty rules md outer
                            (rd_rule_set_ip_cidr_match_source (dm_raw dm)) False) rule_sets)
      in matched \<noteq> rd_invert (dm_raw dm))"

subsection \<open>Examples\<close>

text \<open>A matcher with domain items only, and a connection to a host name.\<close>

definition domain_matcher :: "string list \<Rightarrow> string list \<Rightarrow> default_matcher" where
  "domain_matcher domains domain_suffixes =
     \<lparr>dm_raw = raw_default\<lparr>rd_domain := domains, rd_domain_suffix := domain_suffixes\<rparr>,
      dm_domain_regex = [], dm_process_path_regex = [], dm_package_name_regex = [], dm_source_prefixes = [],
      dm_destination_prefixes = [], dm_source_port_ranges = [], dm_port_ranges = [], dm_interface_prefixes = [],
      dm_network_interface_prefixes = [], dm_default_interface_prefixes = []\<rparr>"

definition connection_to :: "string \<Rightarrow> metadata" where
  "connection_to host = metadata_default\<lparr>md_destination := Some (DomainDestination host 443)\<rparr>"

end
