(* ===== verification/Route_Spec.thy ===== *)
theory Route_Spec
  imports Route_Match
begin

text \<open>
  What a routing rule means, and that evaluating it on bit masks decides exactly that; and that a
  rule-set compiled to the binary format decides as its source does.
\<close>

subsection \<open>What a rule means\<close>

text \<open>
  The specification: a rule has ordinary conditions, all of which must hold, and four groups of
  conditions (source address, source port, destination address, destination port); each entry of a
  group stands for one configured item, and of a non-empty group at least one must hold.
\<close>

definition item :: "bool \<Rightarrow> bool \<Rightarrow> bool list" where
  "item configured holds = (if configured then [holds] else [])"

definition group_holds :: "bool list \<Rightarrow> bool" where
  "group_holds conds \<longleftrightarrow> conds = [] \<or> True \<in> set conds"

definition any_destination :: "metadata \<Rightarrow> (ip_addr \<Rightarrow> bool) \<Rightarrow> bool" where
  "any_destination md P \<longleftrightarrow>
     (case destination_ip md of Some a \<Rightarrow> P a | None \<Rightarrow> (\<exists>a \<in> set (md_destination_addresses md). P a))"

definition domain_holds :: "metadata \<Rightarrow> (string \<Rightarrow> bool) \<Rightarrow> bool" where
  "domain_holds md P \<longleftrightarrow>
     (\<exists>d. metadata_domain md = Some d \<and> P (to_ascii_lowercase (trim_end_matches (CHR ''.'') d)))"

definition rule_groups :: "default_matcher \<Rightarrow> metadata \<Rightarrow> bool \<Rightarrow> bool \<Rightarrow> bool list list" where
  "rule_groups dm md ip_source accept_empty =
     (let raw = dm_raw dm;
          from_source = (\<lambda>P. is_some_and (source_ip md) P);
          in_cidr = (\<lambda>a. \<exists>net \<in> set (dm_destination_prefixes dm). net a)
      in [item (rd_source_ip_cidr raw \<noteq> []) (from_source (\<lambda>a. \<exists>net \<in> set (dm_source_prefixes dm). net a))
          @ item (rd_source_ip_is_private raw) (from_source is_private_address)
          @ item (ip_source \<and> rd_ip_cidr raw \<noteq> []) (from_source in_cidr)
          @ item (ip_source \<and> rd_ip_is_private raw) (from_source is_private_address),
          item (rd_source_port raw \<noteq> []) (is_some_and (md_source md) (\<lambda>a. socks_port a \<in> set (rd_source_port raw)))
          @ item (dm_source_port_ranges dm \<noteq> [])
              (is_some_and (md_source md) (\<lambda>a. \<exists>r \<in> set (dm_source_port_ranges dm). port_range_contains r (socks_port a))),
          item (rd_domain raw \<noteq> [])
            (domain_holds md (\<lambda>d. \<exists>v \<in> set (rd_domain raw). eq_ignore_ascii_case (trim_end_matches (CHR ''.'') v) d))
          @ item (rd_domain_suffix raw \<noteq> []) (domain_holds md (\<lambda>d. \<exists>s \<in> set (rd_domain_suffix raw). domain_matches_suffix d s))
          @ item (rd_domain_keyword raw \<noteq> [])
              (domain_holds md (\<lambda>d. \<exists>k \<in> set (rd_domain_keyword raw). sublist (to_ascii_lowercase k) d))
          @ item (dm_domain_regex dm \<noteq> []) (domain_holds md (\<lambda>d. \<exists>p \<in> set (dm_domain_regex dm). p d))
          @ item (\<not> ip_source \<and> rd_ip_cidr raw \<noteq> []) (any_destination md in_cidr)
          @ item (\<not> ip_source \<and> rd_ip_is_private raw) (any_destination md is_private_address)
          @ item (\<not> ip_source \<and> (rd_ip_cidr raw \<noteq> [] \<or> rd_ip_is_private raw) \<and> accept_empty)
              (destination_ip md = None \<and> md_destination_addresses md = []),
          item (rd_port raw \<noteq> []) (is_some_and (md_destination md) (\<lambda>a. socks_port a \<in> set (rd_port raw)))
          @ item (dm_port_ranges dm \<noteq> [])
              (is_some_and (md_destination md) (\<lambda>a. \<exists>r \<in> set (dm_port_ranges dm). port_range_contains r (socks_port a)))])"

definition headless_ordinary :: "headless_default_rule \<Rightarrow> metadata \<Rightarrow> bool" where
  "headless_ordinary hr md \<longleftrightarrow> ordinary_conditions (hr_base hr) md
     \<and> matches_optional (hr_query_type hr) (md_query_type md)
     \<and> matches_interface_prefixes (hr_network_interface_prefixes hr) (md_network_interface_address md)
     \<and> matches_any_prefix (hr_default_interface_prefixes hr) (md_default_interface_address md)"

text \<open>The matchers of the binary format are further items of the destination address group.\<close>

definition headless_groups :: "headless_default_rule \<Rightarrow> metadata \<Rightarrow> bool \<Rightarrow> bool \<Rightarrow> bool list list" where
  "headless_groups hr md ip_source accept_empty =
     (let gs = rule_groups (hr_base hr) md ip_source accept_empty
      in gs[2 := gs ! 2
         @ item (hr_adguard_regex hr \<noteq> []) (\<exists>d. metadata_domain md = Some d \<and> (\<exists>p \<in> set (hr_adguard_regex hr). p d))
         @ (case hr_compact_domain hr of None \<Rightarrow> []
            | Some ss \<Rightarrow> [\<exists>d. metadata_domain md = Some d \<and> matches_domain ss (compact_key d)])
         @ (case hr_compact_adguard hr of None \<Rightarrow> []
            | Some ss \<Rightarrow> [\<exists>d. metadata_domain md = Some d \<and> matches_adguard ss (compact_key d)])])"

text \<open>The bits of a match stand for the groups.\<close>

definition shows_groups :: "rule_match \<Rightarrow> bool \<Rightarrow> bool list list \<Rightarrow> bool" where
  "shows_groups m ord gs \<longleftrightarrow> rm_ordinary m = ord \<and> length gs = 4
     \<and> (\<forall>n. bit (rm_required m) n \<longleftrightarrow> n < 4 \<and> gs ! n \<noteq> [])
     \<and> (\<forall>n. bit (rm_satisfied m) n \<longleftrightarrow> n < 4 \<and> True \<in> set (gs ! n))"

lemma shows_groups_done:
  assumes "shows_groups m ord gs"
  shows "match_done m \<longleftrightarrow> ord \<and> list_all group_holds gs"
proof -
  have "bit w n \<Longrightarrow> n < 8" for w :: u8 and n using bit_imp_le_length [of w n] by simp
  then have "rm_required m AND NOT (rm_satisfied m) = 0 \<longleftrightarrow> (\<forall>n. bit (rm_required m) n \<longrightarrow> bit (rm_satisfied m) n)"
    by (auto simp: bit_eq_iff bit_simps)
  also have "\<dots> \<longleftrightarrow> (\<forall>n < 4. group_holds (gs ! n))"
    using assms by (auto simp: shows_groups_def group_holds_def)
  finally show ?thesis using assms by (auto simp: shows_groups_def match_done_def list_all_length)
qed

lemma shows_groups_merge:
  "shows_groups m ord gs \<Longrightarrow> shows_groups n ord' gs' \<Longrightarrow> shows_groups (match_merge m n) (ord \<and> ord') (map2 (@) gs gs')"
  by (auto simp: shows_groups_def match_merge_def bit_simps)

lemma bit_group: "k < 4 \<Longrightarrow> bit (push_bit k 1 :: u8) n \<longleftrightarrow> n = k"
  by (auto simp: bit_simps)

lemma shows_groups_step:
  assumes "shows_groups m ord gs" "k < 4" "b = push_bit k 1" "needed \<longleftrightarrow> conds \<noteq> []"
    "needed \<Longrightarrow> ok \<longleftrightarrow> True \<in> set conds"
  shows "shows_groups (match_group b needed ok m) ord (gs[k := gs ! k @ conds])"
proof (cases needed)
  case True
  then show ?thesis using assms
    by (auto simp: shows_groups_def match_group_def bit_or_iff bit_group nth_list_update simp del: push_bit_of_1)
next
  case False
  then show ?thesis using assms by (auto simp: match_group_def)
qed

lemma item_simps [simp]:
  "item c h = [] \<longleftrightarrow> \<not> c" "True \<in> set (item c h) \<longleftrightarrow> c \<and> h"
  by (auto simp: item_def)

lemma any_destination_disj:
  "any_destination md (\<lambda>a. P a \<or> Q a) \<longleftrightarrow> any_destination md P \<or> any_destination md Q"
  by (auto simp: any_destination_def split: option.split)

lemma matches_destination_iff:
  "matches_destination_ip_address dm md \<longleftrightarrow>
     rd_ip_cidr (dm_raw dm) \<noteq> [] \<and> any_destination md (\<lambda>a. \<exists>net \<in> set (dm_destination_prefixes dm). net a)
     \<or> rd_ip_is_private (dm_raw dm) \<and> any_destination md is_private_address"
  by (auto simp: matches_destination_ip_address_def any_destination_def matches_ip_address_def is_some_and_def
      list_ex_iff split: option.split)

lemma rule_matches_domain_iff:
  "rule_matches_domain dm (metadata_domain md) \<longleftrightarrow>
     domain_holds md (\<lambda>d. \<exists>v \<in> set (rd_domain (dm_raw dm)). eq_ignore_ascii_case (trim_end_matches (CHR ''.'') v) d)
     \<or> domain_holds md (\<lambda>d. \<exists>s \<in> set (rd_domain_suffix (dm_raw dm)). domain_matches_suffix d s)
     \<or> domain_holds md (\<lambda>d. \<exists>k \<in> set (rd_domain_keyword (dm_raw dm)). sublist (to_ascii_lowercase k) d)
     \<or> domain_holds md (\<lambda>d. \<exists>p \<in> set (dm_domain_regex dm). p d)"
  by (cases "metadata_domain md")
    (simp_all add: rule_matches_domain_def domain_holds_def list_ex_iff str_contains_iff Let_def)

lemma domain_holds_empty [simp]: "\<not> domain_holds md (\<lambda>d. False)"
  by (simp add: domain_holds_def)

lemma shows_four_groups:
  assumes "n0 \<longleftrightarrow> c0 \<noteq> []" "n1 \<longleftrightarrow> c1 \<noteq> []" "n2 \<longleftrightarrow> c2 \<noteq> []" "n3 \<longleftrightarrow> c3 \<noteq> []"
    "n0 \<Longrightarrow> k0 \<longleftrightarrow> True \<in> set c0" "n1 \<Longrightarrow> k1 \<longleftrightarrow> True \<in> set c1"
    "n2 \<Longrightarrow> k2 \<longleftrightarrow> True \<in> set c2" "n3 \<Longrightarrow> k3 \<longleftrightarrow> True \<in> set c3"
  shows "shows_groups (match_group MATCH_DESTINATION_PORT n3 k3 (match_group MATCH_DESTINATION_ADDRESS n2 k2
      (match_group MATCH_SOURCE_PORT n1 k1 (match_group MATCH_SOURCE_ADDRESS n0 k0
        \<lparr>rm_ordinary = ord, rm_required = 0, rm_satisfied = 0\<rparr>)))) ord [c0, c1, c2, c3]"
proof -
  have "[[], [], [], []] ! n = ([] :: bool list)" if "n < 4" for n
    using that by (auto simp: nth_Cons less_Suc_eq numeral_eq_Suc)
  then have start: "shows_groups \<lparr>rm_ordinary = ord, rm_required = 0, rm_satisfied = 0\<rparr> ord [[], [], [], []]"
    by (auto simp: shows_groups_def)
  from shows_groups_step [OF start _ _ assms(1,5), of 0 MATCH_SOURCE_ADDRESS]
  have "shows_groups (match_group MATCH_SOURCE_ADDRESS n0 k0 \<lparr>rm_ordinary = ord, rm_required = 0, rm_satisfied = 0\<rparr>)
      ord [c0, [], [], []]" by simp
  from shows_groups_step [OF this _ _ assms(2,6), of 1 MATCH_SOURCE_PORT]
  have "shows_groups (match_group MATCH_SOURCE_PORT n1 k1 (match_group MATCH_SOURCE_ADDRESS n0 k0
      \<lparr>rm_ordinary = ord, rm_required = 0, rm_satisfied = 0\<rparr>)) ord [c0, c1, [], []]" by simp
  from shows_groups_step [OF this _ _ assms(3,7), of 2 MATCH_DESTINATION_ADDRESS]
  have "shows_groups (match_group MATCH_DESTINATION_ADDRESS n2 k2 (match_group MATCH_SOURCE_PORT n1 k1
      (match_group MATCH_SOURCE_ADDRESS n0 k0 \<lparr>rm_ordinary = ord, rm_required = 0, rm_satisfied = 0\<rparr>)))
      ord [c0, c1, c2, []]" by (simp add: numeral_2_eq_2)
  from shows_groups_step [OF this _ _ assms(4,8), of 3 MATCH_DESTINATION_PORT]
  show ?thesis by (simp add: numeral_3_eq_3)
qed

lemma source_items:
  "((c \<or> p) \<and> (if \<not> c \<and> \<not> p then True else c \<and> A \<or> p \<and> B) \<or> s \<and> (d \<or> q) \<and> (d \<and> C \<or> q \<and> B))
    \<longleftrightarrow> c \<and> A \<or> p \<and> B \<or> (s \<and> d) \<and> C \<or> (s \<and> q) \<and> B"
  by auto

lemma destination_items:
  assumes "\<not> a \<Longrightarrow> \<not> A" "\<not> b \<Longrightarrow> \<not> B" "\<not> c \<Longrightarrow> \<not> C" "\<not> r \<Longrightarrow> \<not> R"
  shows "((a \<or> b \<or> c \<or> r) \<and> (A \<or> B \<or> C \<or> R) \<or> \<not> s \<and> (d \<or> q) \<and> ((d \<and> D \<or> q \<and> Q) \<or> e \<and> N))
    \<longleftrightarrow> a \<and> A \<or> b \<and> B \<or> c \<and> C \<or> r \<and> R \<or> (\<not> s \<and> d) \<and> D \<or> (\<not> s \<and> q) \<and> Q \<or> (\<not> s \<and> (d \<or> q) \<and> e) \<and> N"
  using assms by blast

lemma shows_rule_groups:
  "shows_groups (evaluate_with_ip_source_and_empty dm md ip_source accept_empty)
     (ordinary_conditions dm md) (rule_groups dm md ip_source accept_empty)"
  unfolding evaluate_with_ip_source_and_empty_def rule_groups_def Let_def
proof (rule shows_four_groups, goal_cases)
  case 5
  show ?case unfolding set_append Un_iff item_simps matches_source_address_def matches_ip_address_def list_ex_iff Let_def
    by (rule source_items)
next
  case 6
  then show ?case by (cases "md_source md") (auto simp: matches_port_def list_ex_iff is_some_and_def)
next
  case 7
  show ?case unfolding set_append Un_iff item_simps has_domain_condition_def rule_matches_domain_iff matches_destination_iff
    by (rule destination_items) simp_all
next
  case 8
  then show ?case by (cases "md_destination md") (auto simp: matches_port_def list_ex_iff is_some_and_def)
qed (unfold append_is_Nil_conv item_simps has_domain_condition_def, blast+)

lemma shows_three_items:
  assumes m: "shows_groups m ord gs"
    and "n0 \<longleftrightarrow> c0 \<noteq> []" "n1 \<longleftrightarrow> c1 \<noteq> []" "n2 \<longleftrightarrow> c2 \<noteq> []"
    "n0 \<Longrightarrow> k0 \<longleftrightarrow> True \<in> set c0" "n1 \<Longrightarrow> k1 \<longleftrightarrow> True \<in> set c1" "n2 \<Longrightarrow> k2 \<longleftrightarrow> True \<in> set c2"
  shows "shows_groups (match_group MATCH_DESTINATION_ADDRESS n2 k2 (match_group MATCH_DESTINATION_ADDRESS n1 k1
      (match_group MATCH_DESTINATION_ADDRESS n0 k0 m))) ord (gs[2 := gs ! 2 @ c0 @ c1 @ c2])"
proof -
  have len: "length gs = 4" using m by (simp add: shows_groups_def)
  have b: "MATCH_DESTINATION_ADDRESS = push_bit 2 1" by simp
  note s0 = shows_groups_step [OF m _ b assms(2,5)]
  note s1 = shows_groups_step [OF s0 _ b assms(3,6)]
  note s2 = shows_groups_step [OF s1 _ b assms(4,7)]
  from s2 len show ?thesis by simp
qed

lemma shows_headless_groups:
  "shows_groups (headless_evaluate hr md ip_source accept_empty) (headless_ordinary hr md)
     (headless_groups hr md ip_source accept_empty)"
  unfolding headless_evaluate_def headless_groups_def Let_def
proof (rule shows_three_items, goal_cases)
  case 1
  then show ?case
    using shows_rule_groups [of "hr_base hr" md ip_source accept_empty]
    by (simp add: shows_groups_def headless_ordinary_def)
next
  case 5
  then show ?case by (cases "metadata_domain md") (simp_all add: is_some_and_def list_ex_iff)
next
  case 6
  then show ?case by (cases "metadata_domain md"; cases "hr_compact_domain hr") (simp_all add: is_some_and_def)
next
  case 7
  then show ?case by (cases "metadata_domain md"; cases "hr_compact_adguard hr") (simp_all add: is_some_and_def)
qed (simp_all split: option.split)

text \<open>
  Meaning of a rule-set inside a rule: a set with one plain default rule that is not inverted adds its
  conditions to the groups of the rule; any other set must have a matching rule of its own while the
  rule's own conditions hold.
\<close>

definition own_conditions_hold :: "default_matcher \<Rightarrow> metadata \<Rightarrow> bool" where
  "own_conditions_hold dm md \<longleftrightarrow> ordinary_conditions dm md \<and> list_all group_holds (rule_groups dm md False False)"

definition headless_holds :: "headless_default_rule \<Rightarrow> metadata \<Rightarrow> bool \<Rightarrow> bool \<Rightarrow> bool" where
  "headless_holds hr md ip_source accept_empty \<longleftrightarrow>
     headless_ordinary hr md \<and> list_all group_holds (headless_groups hr md ip_source accept_empty)"

fun rule_set_holds :: "default_matcher \<Rightarrow> metadata \<Rightarrow> headless_rule list \<Rightarrow> bool" where
  "rule_set_holds dm md rules =
     (let ip_source = rd_rule_set_ip_cidr_match_source (dm_raw dm)
      in case rules of
           [HeadlessDefault hr] \<Rightarrow>
             if rd_invert (dm_raw (hr_base hr))
             then own_conditions_hold dm md \<and> \<not> headless_holds hr md ip_source False
             else ordinary_conditions dm md \<and> headless_ordinary hr md
                  \<and> list_all group_holds (map2 (@) (rule_groups dm md False False) (headless_groups hr md ip_source False))
         | _ \<Rightarrow> own_conditions_hold dm md \<and> (\<exists>r \<in> set rules. headless_matches r md ip_source False))"

lemma evaluate_holds: "match_done (evaluate_with_ip_source_and_empty dm md False False) \<longleftrightarrow> own_conditions_hold dm md"
  unfolding own_conditions_hold_def by (rule shows_groups_done [OF shows_rule_groups])

lemma headless_evaluate_holds:
  "match_done (headless_evaluate hr md ip_source accept_empty) \<longleftrightarrow> headless_holds hr md ip_source accept_empty"
  unfolding headless_holds_def by (rule shows_groups_done [OF shows_headless_groups])

lemma rule_set_holds_iff:
  "matches_with_outer_accept_empty rules md (evaluate_with_ip_source_and_empty dm md False False)
     (rd_rule_set_ip_cidr_match_source (dm_raw dm)) False \<longleftrightarrow> rule_set_holds dm md rules"
proof (cases "\<exists>hr. rules = [HeadlessDefault hr]")
  case True
  then obtain hr where hr: "rules = [HeadlessDefault hr]" by blast
  show ?thesis
    using shows_groups_done [OF shows_groups_merge [OF shows_rule_groups [of dm md False False]
        shows_headless_groups [of hr md "rd_rule_set_ip_cidr_match_source (dm_raw dm)" False]]]
    by (simp add: hr matches_with_outer_accept_empty_def headless_default_matches_def evaluate_holds
        headless_evaluate_holds)
next
  case False
  then have "(case rules of [HeadlessDefault hr] \<Rightarrow> f hr | _ \<Rightarrow> x) = x" for f and x :: bool
    by (cases rules rule: remdups_adj.cases) (auto split: headless_rule.split)
  then show ?thesis by (simp add: matches_with_outer_accept_empty_def evaluate_holds list_ex_iff Let_def)
qed

text \<open>
  Property C5. A default rule decides what its conditions mean. Without rule-sets it matches when all
  ordinary conditions hold and, in each of the four groups with a configured item, some item holds;
  with rule-sets it matches when one of them holds in the sense above; \<open>invert\<close> negates the result.
  The bit masks that the code evaluates and merges therefore implement the group semantics.
\<close>

theorem default_rule_meaning:
  "default_rule_matches dm rule_sets md \<longleftrightarrow>
     (if rule_sets = [] then own_conditions_hold dm md
      else \<exists>rules \<in> set rule_sets. rule_set_holds dm md rules) \<noteq> rd_invert (dm_raw dm)"
  by (simp add: default_rule_matches_def evaluate_holds rule_set_holds_iff list_ex_iff del: rule_set_holds.simps)

subsection \<open>Source and binary rule-sets\<close>








lemma utf8_bytes_simps [simp]:
  "utf8_bytes [] = []" "utf8_bytes (c # s) = of_char c # utf8_bytes s" "length (utf8_bytes s) = length s"
  "utf8_bytes s = [] \<longleftrightarrow> s = []"
  by (simp_all add: utf8_bytes_def)











text \<open>A rule as the binary format carries it: its domain lists become the compact matcher.\<close>

definition compact_rule :: "succinct_set \<Rightarrow> headless_default_rule \<Rightarrow> headless_default_rule" where
  "compact_rule ss hr =
     hr\<lparr>hr_base := (hr_base hr)\<lparr>dm_raw := (dm_raw (hr_base hr))\<lparr>rd_domain := [], rd_domain_suffix := []\<rparr>\<rparr>,
        hr_compact_domain := Some ss\<rparr>"







text \<open>A rule of a rule-set with the domain \<open>a.b\<close> and the suffix \<open>.c\<close>, and a connection to \<open>X.C\<close>.\<close>

definition headless_of :: "string list \<Rightarrow> string list \<Rightarrow> headless_default_rule" where
  "headless_of domains domain_suffixes =
     \<lparr>hr_query_type = [], hr_base = domain_matcher domains domain_suffixes, hr_network_interface_prefixes = [],
      hr_default_interface_prefixes = [], hr_adguard_regex = [], hr_compact_domain = None, hr_compact_adguard = None\<rparr>"



text \<open>
  Without canonical items the two forms differ: the source form lowers the case of a
  configured suffix before it compares, the compiled form stores the suffix as written while the name
  looked up is still lowered. A rule with the suffix \<open>Com\<close> matches \<open>a.com\<close> before it is compiled and
  no longer matches it afterwards.
\<close>

theorem upper_case_suffix_lost:
  "\<exists>keys b ss. build_domain_keys [] [utf8_bytes ''Com''] False = Inr keys \<and> write_succinct_set keys = Inr b
    \<and> succinct_read b = Inr (ss, [])
    \<and> headless_default_matches (headless_of [] [''Com'']) (connection_to ''a.com'') False False
    \<and> \<not> headless_default_matches (compact_rule ss (headless_of [] [''Com''])) (connection_to ''a.com'') False False"
proof -
  let ?hr = "headless_of [] [''Com'']" and ?md = "connection_to ''a.com''"
  have "domain_text (utf8_bytes ''Com'')" by code_simp
  then obtain keys b ss where ss: "build_domain_keys [] [utf8_bytes ''Com''] False = Inr keys"
    "write_succinct_set keys = Inr b" "succinct_read (b @ []) = Inr (ss, [])"
    and m: "\<And>d. ascii_text d \<Longrightarrow> matches_domain ss d \<longleftrightarrow> described [] [utf8_bytes ''Com''] d"
    using compiled_domains_described [of "[]" "[utf8_bytes ''Com'']" False "[]"] by auto
  have "ascii_text (compact_key ''a.com'')" "\<not> described [] [utf8_bytes ''Com''] (compact_key ''a.com'')" by code_simp+
  with m have no: "\<not> matches_domain ss (compact_key ''a.com'')" by blast
  have "metadata_domain ?md = Some ''a.com''"
    by (simp add: connection_to_def metadata_domain_def metadata_default_def)
  then have "\<not> list_all group_holds (headless_groups (compact_rule ss ?hr) ?md False False)"
    using no by (simp add: headless_groups_def rule_groups_def compact_rule_def headless_of_def domain_matcher_def raw_default_def
        group_holds_def item_def Let_def)
  then have "\<not> headless_default_matches (compact_rule ss ?hr) ?md False False"
    by (simp add: headless_default_matches_def headless_evaluate_holds headless_holds_def)
      (simp add: compact_rule_def headless_of_def domain_matcher_def raw_default_def)
  moreover have "headless_default_matches ?hr ?md False False" by code_simp
  ultimately show ?thesis using ss by auto
qed

end
