(* ===== verification/Route_Walk.thy ===== *)
theory Route_Walk
  imports Route_Match
begin

text \<open>
  The router (\<open>route/mod.rs\<close>): rules with their actions and reject counters, the metadata that the
  runtime adds before matching (\<open>outbound.rs\<close> for the preferred endpoints), and the two ways the rule
  list is walked: \<open>route\<close>, which returns the decision in one pass, and \<open>route_next\<close>, which returns
  at every action that the caller must carry out and continues behind it. The collaborators (endpoints,
  the reverse DNS cache, the neighbour table and the process table) are given by their answers.
\<close>

subsection \<open>Rules\<close>

text \<open>A rule-set is shared by reference: a rule holds its tag, the router the current snapshots.\<close>

type_synonym rule_sets = "string \<Rightarrow> headless_rule list option"

text \<open>The instants of the recent rejects of a rule, oldest first.\<close>

type_synonym reject_flood = "instant list"

record default_rule =
  dr_matcher :: default_matcher
  dr_rule_sets :: "string list"
  dr_action :: action
  dr_reject_flood :: reject_flood

datatype rule =
  DefaultRule default_rule
| LogicalRule logical_mode "rule list" bool action reject_flood

definition rules_of :: "rule_sets \<Rightarrow> string \<Rightarrow> headless_rule list" where
  "rules_of sets tag = (case sets tag of Some rules \<Rightarrow> rules | None \<Rightarrow> [])"

fun rule_matches :: "rule_sets \<Rightarrow> metadata \<Rightarrow> rule \<Rightarrow> bool" where
  "rule_matches sets md (DefaultRule dr) =
     default_rule_matches (dr_matcher dr) (map (rules_of sets) (dr_rule_sets dr)) md"
| "rule_matches sets md (LogicalRule mode rules invert act flood) =
     (logical_combine mode (map (rule_matches sets md) rules) \<noteq> invert)"

fun rule_action :: "rule \<Rightarrow> action" where
  "rule_action (DefaultRule dr) = dr_action dr"
| "rule_action (LogicalRule mode rules invert act flood) = act"

definition is_drop :: "instant \<Rightarrow> action \<Rightarrow> reject_flood \<Rightarrow> bool \<times> reject_flood" where
  "is_drop now act recent =
     (case act of
        Reject method no_drop \<Rightarrow>
          if method = ''drop'' then (True, recent)
          else if no_drop \<or> (method \<noteq> [] \<and> method \<noteq> ''default'') then (False, recent)
          else let recent' = dropWhile (\<lambda>timestamp. now - timestamp > secs 30) recent @ [now]
               in (length recent' > 50, recent')
      | _ \<Rightarrow> (False, recent))"

fun reject_is_drop :: "instant \<Rightarrow> rule \<Rightarrow> bool \<times> rule" where
  "reject_is_drop now (DefaultRule dr) =
     (let (dropped, flood) = is_drop now (dr_action dr) (dr_reject_flood dr)
      in (dropped, DefaultRule (dr\<lparr>dr_reject_flood := flood\<rparr>)))"
| "reject_is_drop now (LogicalRule mode rules invert act flood) =
     (let (dropped, flood') = is_drop now act flood in (dropped, LogicalRule mode rules invert act flood'))"

subsection \<open>The metadata added by the runtime\<close>

record endpoint =
  preferred_domain :: "string \<Rightarrow> bool"
  preferred_address :: "ip_addr \<Rightarrow> bool"

record bridge =
  bridge_tag :: string
  preferred_address_for_pre_match :: "ip_addr \<Rightarrow> bool"

record outbound_manager =
  om_endpoint_entries :: "string \<Rightarrow> endpoint option"
  om_endpoint_order :: "string list"
  om_bridges :: "bridge list"
  om_reverse_mapping :: "ip_addr \<Rightarrow> string option"

definition lookup_targets :: "metadata \<Rightarrow> ip_addr list" where
  "lookup_targets md =
     (case destination_ip md of
        Some a \<Rightarrow> if a \<in> set (md_destination_addresses md) then md_destination_addresses md
                  else md_destination_addresses md @ [a]
      | None \<Rightarrow> md_destination_addresses md)"

fun prefer_endpoints :: "outbound_manager \<Rightarrow> string option \<Rightarrow> ip_addr list \<Rightarrow> string list \<Rightarrow> string list \<Rightarrow> string list" where
  "prefer_endpoints om domain addresses [] preferred = preferred"
| "prefer_endpoints om domain addresses (tag # order) preferred =
     prefer_endpoints om domain addresses order
       (if tag \<in> set preferred then preferred
        else case om_endpoint_entries om tag of
               None \<Rightarrow> preferred
             | Some dialer \<Rightarrow>
                 if is_some_and domain (preferred_domain dialer) \<or> list_ex (preferred_address dialer) addresses
                 then preferred @ [tag] else preferred)"

fun prefer_bridges :: "ip_addr list \<Rightarrow> bridge list \<Rightarrow> string list \<Rightarrow> string list" where
  "prefer_bridges addresses [] preferred = preferred"
| "prefer_bridges addresses (b # bs) preferred =
     prefer_bridges addresses bs
       (if bridge_tag b \<in> set preferred then preferred
        else if list_ex (preferred_address_for_pre_match b) addresses then preferred @ [bridge_tag b]
        else preferred)"

definition populate_preferred_by :: "outbound_manager \<Rightarrow> bool \<Rightarrow> metadata \<Rightarrow> metadata" where
  "populate_preferred_by om pre_match md =
     (let kept = filter (\<lambda>candidate. candidate \<notin> set (om_endpoint_order om)
                           \<and> candidate \<notin> bridge_tag ` set (om_bridges om)) (md_preferred_by md);
          addresses = lookup_targets md;
          preferred = prefer_endpoints om (metadata_domain md) addresses (om_endpoint_order om) kept
      in md\<lparr>md_preferred_by :=
              (if pre_match then prefer_bridges addresses (om_bridges om) preferred else preferred)\<rparr>)"

record neighbor_resolver =
  lookup_mac :: "ip_addr \<Rightarrow> u8 list option"
  lookup_hostname :: "ip_addr \<Rightarrow> string option"

record process_info =
  pi_process_name :: string
  pi_process_path :: string
  pi_package_name :: string
  pi_user :: string
  pi_user_id :: "int option"

datatype process_lookup_status =
  Found | PlatformMonitor | UdpCache | SocketSnapshotMiss | KernelSocket | ProcessExited | PermissionDenied
| ResolverError | NonLocalSource

fun status_as_str :: "process_lookup_status \<Rightarrow> string" where
  "status_as_str Found = ''found''"
| "status_as_str PlatformMonitor = ''platform_monitor''"
| "status_as_str UdpCache = ''udp_cache''"
| "status_as_str SocketSnapshotMiss = ''socket_snapshot_miss''"
| "status_as_str KernelSocket = ''kernel_socket''"
| "status_as_str ProcessExited = ''process_exited''"
| "status_as_str PermissionDenied = ''permission_denied''"
| "status_as_str ResolverError = ''resolver_error''"
| "status_as_str NonLocalSource = ''non_local_source''"

type_synonym process_resolver =
  "network \<Rightarrow> socket_addr \<Rightarrow> socket_addr option \<Rightarrow> process_info option \<times> process_lookup_status"

record router =
  ro_rules :: "rule list"
  ro_rule_sets :: rule_sets
  ro_final_outbound :: string
  ro_clash_mode :: "string option"
  ro_clash_modes :: "string list"
  ro_preferred_outbounds :: "outbound_manager option"
  ro_neighbor_resolver :: "neighbor_resolver option"
  ro_process_resolver :: "process_resolver option"

definition set_clash_mode :: "string \<Rightarrow> router \<Rightarrow> bool \<times> router" where
  "set_clash_mode mode ro =
     (case find (\<lambda>candidate. eq_ignore_ascii_case candidate mode) (ro_clash_modes ro) of
        None \<Rightarrow> (False, ro)
      | Some m \<Rightarrow> (True, if ro_clash_mode ro = Some m then ro else ro\<lparr>ro_clash_mode := Some m\<rparr>))"

definition apply_clash_mode :: "router \<Rightarrow> metadata \<Rightarrow> metadata" where
  "apply_clash_mode ro md = (case ro_clash_mode ro of Some mode \<Rightarrow> md\<lparr>md_clash_mode := mode\<rparr> | None \<Rightarrow> md)"

definition apply_outbounds :: "router \<Rightarrow> bool \<Rightarrow> metadata \<Rightarrow> metadata" where
  "apply_outbounds ro pre_match md =
     (case ro_preferred_outbounds ro of
        None \<Rightarrow> md
      | Some om \<Rightarrow>
          populate_preferred_by om pre_match
            (if md_domain md = [] \<and> \<not> md_fake_ip md
             then case destination_ip md of
                    None \<Rightarrow> md
                  | Some a \<Rightarrow> (case om_reverse_mapping om a of None \<Rightarrow> md | Some d \<Rightarrow> md\<lparr>md_domain := d\<rparr>)
             else md))"

definition apply_neighbor :: "router \<Rightarrow> metadata \<Rightarrow> metadata" where
  "apply_neighbor ro md =
     (case (ro_neighbor_resolver ro, source_ip md) of
        (Some nr, Some a) \<Rightarrow>
          (let md1 = (if md_source_mac_address md = []
                      then case lookup_mac nr a of
                             Some mac \<Rightarrow> md\<lparr>md_source_mac_address := format_hardware_address mac\<rparr> | None \<Rightarrow> md
                      else md)
           in if md_source_hostname md1 = []
              then case lookup_hostname nr a of Some h \<Rightarrow> md1\<lparr>md_source_hostname := h\<rparr> | None \<Rightarrow> md1
              else md1)
      | _ \<Rightarrow> md)"

text \<open>\<open>or_else\<close> over the three destinations a flow may be known by.\<close>

definition process_destination :: "metadata \<Rightarrow> socket_addr option" where
  "process_destination md =
     (let ip = (\<lambda>address. Option.bind address socks_ip)
      in case ip (md_process_origin_destination md) of
           Some a \<Rightarrow> Some a
         | None \<Rightarrow> (case ip (md_origin_destination md) of Some a \<Rightarrow> Some a | None \<Rightarrow> ip (md_destination md)))"

definition apply_process :: "router \<Rightarrow> metadata \<Rightarrow> metadata" where
  "apply_process ro md =
     (case (ro_process_resolver ro, md_network md, Option.bind (md_source md) socks_ip) of
        (Some resolver, Some nw, Some source) \<Rightarrow>
          if md_process_lookup md = [] \<and> md_process_name md = [] \<and> md_process_path md = []
             \<and> md_package_name md = [] \<and> md_user_id md = None
          then (let (process, status) = resolver nw source (process_destination md);
                    md1 = md\<lparr>md_process_lookup := status_as_str status\<rparr>
                in case process of
                     None \<Rightarrow> md1
                   | Some p \<Rightarrow> md1\<lparr>md_process_name := pi_process_name p, md_process_path := pi_process_path p,
                        md_package_name := pi_package_name p,
                        md_user := (if md_user md1 = [] then pi_user p else md_user md1),
                        md_user_id := pi_user_id p\<rparr>)
          else md
      | _ \<Rightarrow> md)"

definition apply_runtime_metadata :: "router \<Rightarrow> bool \<Rightarrow> metadata \<Rightarrow> metadata" where
  "apply_runtime_metadata ro pre_match md =
     (let md1 = (case destination_ip md of
                   Some a \<Rightarrow> md\<lparr>md_ip_version := Some (if is_ipv4 a then 4 else 6)\<rparr> | None \<Rightarrow> md)
      in apply_process ro (apply_neighbor ro (apply_outbounds ro pre_match (apply_clash_mode ro md1))))"

definition refresh_preferred_by :: "router \<Rightarrow> bool \<Rightarrow> metadata \<Rightarrow> metadata" where
  "refresh_preferred_by ro pre_match md =
     (case ro_preferred_outbounds ro of None \<Rightarrow> md | Some om \<Rightarrow> populate_preferred_by om pre_match md)"

subsection \<open>Decisions\<close>

record route_decision =
  dec_action :: "action option"
  dec_options :: connection_override
  dec_final_outbound :: string
  dec_reject_drop :: bool

definition decision_outbound :: "route_decision \<Rightarrow> string option" where
  "decision_outbound d =
     (let final = (if dec_final_outbound d = [] then None else Some (dec_final_outbound d))
      in case dec_action d of
           Some (Route out _) \<Rightarrow> if out \<noteq> [] then Some out else final
         | Some (Bypass out _) \<Rightarrow> if out \<noteq> [] then Some out else final
         | Some Direct \<Rightarrow> None
         | Some (DirectOptions out) \<Rightarrow> if out \<noteq> [] then Some out else None
         | Some (Reject _ _) \<Rightarrow> None
         | Some HijackDns \<Rightarrow> None
         | _ \<Rightarrow> final)"

fun terminal_options :: "action option \<Rightarrow> connection_override option" where
  "terminal_options (Some (Route out options)) = Some options"
| "terminal_options (Some (Bypass out options)) = Some options"
| "terminal_options _ = None"

definition decision_destination :: "route_decision \<Rightarrow> socks_addr \<Rightarrow> socks_addr" where
  "decision_destination d original =
     (let destination = override_apply (dec_options d) original
      in case terminal_options (dec_action d) of
           Some options \<Rightarrow> override_apply options destination | None \<Rightarrow> destination)"

definition connection_options :: "route_decision \<Rightarrow> connection_override" where
  "connection_options d =
     (let options = (case terminal_options (dec_action d) of
                       Some terminal \<Rightarrow> override_update (dec_options d) terminal | None \<Rightarrow> dec_options d)
      in options\<lparr>co_network := (co_network options)\<lparr>nd_external_connection := True\<rparr>\<rparr>)"

subsection \<open>Walking the rules\<close>

text \<open>A \<open>route-options\<close> action changes the destination that later rules see.\<close>

definition apply_route_options :: "router \<Rightarrow> bool \<Rightarrow> connection_override \<Rightarrow> metadata \<Rightarrow> metadata" where
  "apply_route_options ro pre_match next current =
     (let c1 = (case md_destination current of
                  Some d \<Rightarrow> current\<lparr>md_destination := Some (override_apply next d)\<rparr> | None \<Rightarrow> current);
          c2 = (if \<not> pre_match \<and> co_address next \<noteq> [] then c1\<lparr>md_destination_addresses := []\<rparr> else c1)
      in refresh_preferred_by ro pre_match c2)"

text \<open>The loop of \<open>route\<close>. The rules are returned because the decisive one counts its reject.\<close>

definition decide :: "router \<Rightarrow> action option \<Rightarrow> connection_override \<Rightarrow> bool \<Rightarrow> route_decision" where
  "decide ro act options dropped =
     \<lparr>dec_action = act, dec_options = options, dec_final_outbound = ro_final_outbound ro, dec_reject_drop = dropped\<rparr>"

definition route_passes :: "bool \<Rightarrow> bool \<Rightarrow> string \<Rightarrow> action \<Rightarrow> bool" where
  "route_passes skip_sniff skip_resolve protocol act \<longleftrightarrow>
     (case act of
        Bypass out _ \<Rightarrow> out = []
      | Sniff _ \<Rightarrow> skip_sniff \<or> protocol \<noteq> []
      | Resolve _ \<Rightarrow> skip_resolve
      | _ \<Rightarrow> False)"

fun route_loop :: "router \<Rightarrow> instant \<Rightarrow> bool \<Rightarrow> bool \<Rightarrow> string \<Rightarrow> rule list \<Rightarrow> connection_override \<Rightarrow> metadata
    \<Rightarrow> route_decision \<times> rule list" where
  "route_loop ro now skip_sniff skip_resolve protocol [] options current =
     (decide ro None options False, [])"
| "route_loop ro now skip_sniff skip_resolve protocol (r # rs) options current =
     (let go = (\<lambda>options' current'.
        (case route_loop ro now skip_sniff skip_resolve protocol rs options' current' of (d, rs') \<Rightarrow> (d, r # rs')))
      in if \<not> rule_matches (ro_rule_sets ro) current r then go options current
         else case rule_action r of
                RouteOptions next \<Rightarrow> go (override_update options next) (apply_route_options ro False next current)
              | act \<Rightarrow>
                  if route_passes skip_sniff skip_resolve protocol act then go options current
                  else case reject_is_drop now r of (dropped, r') \<Rightarrow> (decide ro (Some act) options dropped, r' # rs))"

definition route_internal :: "instant \<Rightarrow> router \<Rightarrow> metadata \<Rightarrow> bool \<Rightarrow> bool \<Rightarrow> route_decision \<times> router" where
  "route_internal now ro md skip_sniff skip_resolve =
     (case route_loop ro now skip_sniff skip_resolve (md_protocol md) (ro_rules ro) connection_override_default
             (apply_runtime_metadata ro False md) of
        (d, rules) \<Rightarrow> (d, ro\<lparr>ro_rules := rules\<rparr>))"


definition route_after_sniff :: "instant \<Rightarrow> router \<Rightarrow> metadata \<Rightarrow> route_decision \<times> router" where
  "route_after_sniff now ro md = route_internal now ro md True False"

definition match_rule :: "router \<Rightarrow> metadata \<Rightarrow> rule option" where
  "match_rule ro md = find (rule_matches (ro_rule_sets ro) (apply_runtime_metadata ro False md)) (ro_rules ro)"

text \<open>The resumable walk and its state.\<close>

record route_state =
  rst_next_rule :: nat
  rst_options :: connection_override

definition route_state_default :: route_state where
  "route_state_default = \<lparr>rst_next_rule = 0, rst_options = connection_override_default\<rparr>"

definition next_passes :: "bool \<Rightarrow> string \<Rightarrow> action \<Rightarrow> bool" where
  "next_passes pre_match protocol act \<longleftrightarrow>
     (case act of
        Bypass out _ \<Rightarrow> out = [] \<and> \<not> pre_match
      | Sniff _ \<Rightarrow> protocol \<noteq> []
      | _ \<Rightarrow> False)"

fun route_next_loop :: "router \<Rightarrow> instant \<Rightarrow> bool \<Rightarrow> string \<Rightarrow> nat \<Rightarrow> rule list \<Rightarrow> route_state \<Rightarrow> metadata
    \<Rightarrow> route_decision \<times> route_state \<times> rule list" where
  "route_next_loop ro now pre_match protocol index [] st current =
     (decide ro None (rst_options st) False, st, [])"
| "route_next_loop ro now pre_match protocol index (r # rs) st current =
     (let go = (\<lambda>st' current'.
        (case route_next_loop ro now pre_match protocol (Suc index) rs st' current' of
           (d, st'', rs') \<Rightarrow> (d, st'', r # rs')))
      in if \<not> rule_matches (ro_rule_sets ro) current r then go st current
         else let st1 = st\<lparr>rst_next_rule := Suc index\<rparr>
              in case rule_action r of
                   RouteOptions next \<Rightarrow>
                     go (st1\<lparr>rst_options := override_update (rst_options st1) next\<rparr>)
                       (apply_route_options ro pre_match next current)
                 | act \<Rightarrow>
                     if next_passes pre_match protocol act then go st1 current
                     else case reject_is_drop now r of
                            (dropped, r') \<Rightarrow> (decide ro (Some act) (rst_options st1) dropped, st1, r' # rs))"

definition resume_metadata :: "bool \<Rightarrow> route_state \<Rightarrow> metadata \<Rightarrow> metadata" where
  "resume_metadata pre_match st md =
     (case md_destination md of
        None \<Rightarrow> md
      | Some d \<Rightarrow>
          (let md1 = md\<lparr>md_destination := Some (override_apply (rst_options st) d)\<rparr>
           in if \<not> pre_match \<and> co_address (rst_options st) \<noteq> []
              then md1\<lparr>md_destination_addresses := []\<rparr> else md1))"

definition route_next_internal ::
  "instant \<Rightarrow> router \<Rightarrow> metadata \<Rightarrow> route_state \<Rightarrow> bool \<Rightarrow> route_decision \<times> route_state \<times> router" where
  "route_next_internal now ro md st pre_match =
     (case route_next_loop ro now pre_match (md_protocol md) (rst_next_rule st) (drop (rst_next_rule st) (ro_rules ro)) st
             (apply_runtime_metadata ro pre_match (resume_metadata pre_match st md)) of
        (d, st', rules) \<Rightarrow> (d, st', ro\<lparr>ro_rules := take (rst_next_rule st) (ro_rules ro) @ rules\<rparr>))"

definition route_next :: "instant \<Rightarrow> router \<Rightarrow> metadata \<Rightarrow> route_state \<Rightarrow> route_decision \<times> route_state \<times> router" where
  "route_next now ro md st = route_next_internal now ro md st False"

definition route_pre_match_next ::
  "instant \<Rightarrow> router \<Rightarrow> metadata \<Rightarrow> route_state \<Rightarrow> route_decision \<times> route_state \<times> router" where
  "route_pre_match_next now ro md st = route_next_internal now ro md st True"

subsection \<open>The reject counter\<close>

lemma dropWhile_sorted: "sorted ts \<Longrightarrow> dropWhile (\<lambda>t. now - t > w) ts = filter (\<lambda>t. now - t \<le> w) ts"
  for now w :: nat
proof (induction ts)
  case (Cons t ts)
  have "filter (\<lambda>t. now - t \<le> w) ts = ts" if "now - t \<le> w"
    using that Cons.prems by (intro filter_True) (auto intro: order.trans [OF diff_le_mono2])
  with Cons show ?case by auto
qed simp

definition counted_reject :: "action \<Rightarrow> bool" where
  "counted_reject act \<longleftrightarrow> act = Reject [] False \<or> act = Reject ''default'' False"

definition reject_history :: "action \<Rightarrow> instant list \<Rightarrow> reject_flood" where
  "reject_history act ts = fold (\<lambda>t recent. snd (is_drop t act recent)) ts []"

lemma is_drop_counted:
  "counted_reject act \<Longrightarrow> is_drop now act recent =
     (let r = dropWhile (\<lambda>t. now - t > secs 30) recent @ [now] in (50 < length r, r))"
  by (auto simp: counted_reject_def is_drop_def Let_def)

lemma reject_history_window:
  assumes "counted_reject act"
  shows "sorted (ts @ [now]) \<Longrightarrow>
    dropWhile (\<lambda>t. now - t > secs 30) (reject_history act ts) = filter (\<lambda>t. now - t \<le> secs 30) ts"
proof (induction ts arbitrary: now rule: rev_induct)
  case (snoc t ts)
  then have s: "sorted (ts @ [t])" "t \<le> now" "\<forall>x \<in> set ts. x \<le> t" by (auto simp: sorted_append)
  have "reject_history act (ts @ [t]) = filter (\<lambda>x. t - x \<le> secs 30) ts @ [t]"
    using snoc.IH [OF s(1)] assms by (simp add: reject_history_def is_drop_counted Let_def)
  moreover have "sorted (filter (\<lambda>x. t - x \<le> secs 30) ts @ [t])" using s by (auto simp: sorted_append sorted_wrt_filter)
  moreover have "filter (\<lambda>x. now - x \<le> secs 30) (filter (\<lambda>x. t - x \<le> secs 30) ts) = filter (\<lambda>x. now - x \<le> secs 30) ts"
    using s by (auto intro!: filter_cong)
  ultimately show ?case by (simp add: dropWhile_sorted)
qed (simp add: reject_history_def)

text \<open>
  The reject counter of a rule: with rejects at ascending instants behind it, a default
  reject without \<open>no_drop\<close> turns silent exactly when at least 50 of the earlier ones lie within the
  last 30 seconds. It is the 51st reject in a rolling window that is dropped, none before and every
  one after it while the window stays full.
\<close>

theorem reject_flood_exact:
  assumes "counted_reject act" "sorted (ts @ [now])"
  shows "fst (is_drop now act (reject_history act ts)) \<longleftrightarrow> 50 \<le> length (filter (\<lambda>t. now - t \<le> secs 30) ts)"
  using reject_history_window [OF assms] assms(1) by (auto simp: is_drop_counted Let_def)

theorem reject_flood_exact_witness:
  "fst (is_drop (secs 30) (Reject [] False) (reject_history (Reject [] False) (replicate 50 0)))
   \<and> \<not> fst (is_drop (secs 31) (Reject [] False) (reject_history (Reject [] False) (replicate 50 0)))"
  using reject_flood_exact [of "Reject [] False" "replicate 50 0" "secs 30"]
    reject_flood_exact [of "Reject [] False" "replicate 50 0" "secs 31"]
  by (simp add: counted_reject_def sorted_append)

subsection \<open>Routing\<close>











text \<open>Every decision with an action moves the walk behind the rule that gave it.\<close>

definition advances :: "nat \<Rightarrow> nat \<Rightarrow> route_state \<Rightarrow> route_decision \<times> route_state \<times> rule list \<Rightarrow> bool" where
  "advances index n st = (\<lambda>(d, st', rs'). length rs' = n
     \<and> (rst_next_rule st' = rst_next_rule st \<or> index < rst_next_rule st' \<and> rst_next_rule st' \<le> index + n)
     \<and> (dec_action d \<noteq> None \<longrightarrow> index < rst_next_rule st' \<and> rst_next_rule st' \<le> index + n))"

lemma advances_Cons:
  assumes "advances (Suc index) n st1 res" "rst_next_rule st1 = rst_next_rule st \<or> rst_next_rule st1 = Suc index"
  shows "advances index (Suc n) st (case res of (d, st', rs') \<Rightarrow> (d, st', r # rs'))"
  using assms by (auto simp: advances_def split: prod.splits)

lemma route_next_loop_advances:
  "advances index (length rs) st (route_next_loop ro now pre_match protocol index rs st current)"
proof (induction rs arbitrary: index st current)
  case (Cons r rs)
  have "advances index (length (r # rs)) st
      (case reject_is_drop now r of
         (dropped, r') \<Rightarrow> (decide ro (Some act) (rst_options st1) dropped, st\<lparr>rst_next_rule := Suc index\<rparr>, r' # rs))" for act st1
    by (simp add: advances_def split: prod.split)
  then show ?case
    by (auto simp: Let_def intro!: advances_Cons [OF Cons] split: action.split simp del: length_Cons)
qed (simp add: advances_def decide_def)

text \<open>A caller that carries out every action it is handed, with whatever metadata it then has.\<close>

fun route_run :: "router \<Rightarrow> route_state \<Rightarrow> (instant \<times> metadata) list \<Rightarrow> route_decision list" where
  "route_run ro st [] = []"
| "route_run ro st ((now, md) # inputs) =
     (case route_next now ro md st of
        (d, st', ro') \<Rightarrow> d # (if dec_action d = None then [] else route_run ro' st' inputs))"

lemma route_next_advances:
  assumes "route_next now ro md st = (d, st', ro')"
  shows "length (ro_rules ro') = length (ro_rules ro)"
    "rst_next_rule st \<le> length (ro_rules ro) \<Longrightarrow> dec_action d \<noteq> None \<Longrightarrow>
      rst_next_rule st < rst_next_rule st' \<and> rst_next_rule st' \<le> length (ro_rules ro)"
proof -
  obtain rules where r: "route_next_loop ro now False (md_protocol md) (rst_next_rule st) (drop (rst_next_rule st) (ro_rules ro)) st
      (apply_runtime_metadata ro False (resume_metadata False st md)) = (d, st', rules)"
    and ro': "ro' = ro\<lparr>ro_rules := take (rst_next_rule st) (ro_rules ro) @ rules\<rparr>"
    using assms by (auto simp: route_next_def route_next_internal_def split: prod.splits)
  have "advances (rst_next_rule st) (length (drop (rst_next_rule st) (ro_rules ro))) st (d, st', rules)"
    using route_next_loop_advances [of "rst_next_rule st" "drop (rst_next_rule st) (ro_rules ro)" st ro now False
        "md_protocol md" "apply_runtime_metadata ro False (resume_metadata False st md)"] r by simp
  then show "length (ro_rules ro') = length (ro_rules ro)"
    "rst_next_rule st \<le> length (ro_rules ro) \<Longrightarrow> dec_action d \<noteq> None \<Longrightarrow>
      rst_next_rule st < rst_next_rule st' \<and> rst_next_rule st' \<le> length (ro_rules ro)"
    by (auto simp: advances_def ro')
qed

lemma route_run_length:
  "rst_next_rule st \<le> length (ro_rules ro) \<Longrightarrow>
    length (route_run ro st inputs) \<le> Suc (length (ro_rules ro) - rst_next_rule st)"
proof (induction ro st inputs rule: route_run.induct)
  case (2 ro st now md inputs)
  obtain d st' ro' where n: "route_next now ro md st = (d, st', ro')" by (metis prod_cases3)
  show ?case
  proof (cases "dec_action d = None")
    case False
    note adv = route_next_advances [OF n]
    from adv(2) [OF 2(2) False] adv(1) 2(1) [OF n [symmetric] refl False] show ?thesis
      using n False by (auto simp: Suc_diff_le)
  qed (simp add: n)
qed simp

text \<open>
  Property C33. Evaluating a connection terminates: however the metadata changes between the steps,
  a caller that starts afresh and carries out each sniff, resolve or other action it is handed gets at
  most one decision per rule before the walk ends, since a rule in front of an action already returned is
  never considered again.
\<close>

theorem route_run_terminates:
  "length (route_run ro route_state_default inputs) \<le> Suc (length (ro_rules ro))"
  using route_run_length [of route_state_default ro inputs] by (simp add: route_state_default_def)

text \<open>
  The destination of a decision and its connection options agree: the destination that
  \<open>destination\<close> computes by applying the accumulated override and then that of the terminal action is
  the one that the combined \<open>connection_options\<close> describe.
\<close>

theorem decision_destination_options:
  "decision_destination d original = override_apply (connection_options d) original"
proof -
  have "override_apply (co\<lparr>co_network := nw\<rparr>) a = override_apply co a" for co nw a by (simp add: override_apply_def)
  then show ?thesis
    by (simp add: decision_destination_def connection_options_def override_apply_update Let_def split: option.split)
qed

end
