(* ===== verification/Dns_Store.thy ===== *)
theory Dns_Store
  imports Ip_Text
begin

text \<open>
  The persistent store of \<open>dns/persistent.rs\<close>: six SQL tables shared by every handle on the same
  database file, each row tagged with the \<open>cache_id\<close> of the handle that wrote it.

  \<^item> A table is the list of its rows as pairs of primary key and remaining columns. The statements
    are those of the source: \<open>SELECT\<close> by key, \<open>INSERT .. ON CONFLICT DO UPDATE\<close>, plain \<open>INSERT\<close>
    (which fails on a key or uniqueness conflict) and \<open>DELETE .. WHERE\<close>.
  \<^item> A statement can also fail for reasons outside the program (a locked or damaged file, a
    poisoned mutex). Every operation takes that outcome as its argument \<open>ok\<close>; a failed statement or
    a transaction that is not committed leaves the tables as they were.
  \<^item> \<open>SystemTime\<close> is an integer number of nanoseconds from \<open>UNIX_EPOCH\<close>; \<open>i64\<close> columns are integers
    and the conversions test their range.
  \<^item> The DNS message codec and the text form of \<open>IpNet\<close> belong to other crates and are arguments.
\<close>

subsection \<open>Tables\<close>

type_synonym ('k, 'v) table = "('k \<times> 'v) list"

definition sql_select :: "('k, 'v) table \<Rightarrow> 'k \<Rightarrow> 'v option" where
  "sql_select t k = map_of t k"

definition sql_upsert :: "'k \<Rightarrow> 'v \<Rightarrow> ('k, 'v) table \<Rightarrow> ('k, 'v) table" where
  "sql_upsert k v t =
     (if k \<in> fst ` set t then map (\<lambda>row. if fst row = k then (k, v) else row) t else t @ [(k, v)])"

definition sql_delete :: "('k \<times> 'v \<Rightarrow> bool) \<Rightarrow> ('k, 'v) table \<Rightarrow> ('k, 'v) table" where
  "sql_delete cond t = filter (\<lambda>row. \<not> cond row) t"

lemma map_of_replace:
  "map_of (map (\<lambda>row. if fst row = k then (k, v) else row) t) k' =
    (if k' = k \<and> map_of t k \<noteq> None then Some v else map_of t k')"
  by (induction t) auto

lemma select_upsert: "sql_select (sql_upsert k v t) = (sql_select t)(k \<mapsto> v)"
proof
  fix k'
  have "k \<in> fst ` set t \<longleftrightarrow> map_of t k \<noteq> None"
    by (metis map_of_eq_None_iff)
  then show "sql_select (sql_upsert k v t) k' = ((sql_select t)(k \<mapsto> v)) k'"
    by (cases "map_of t k'")
      (simp_all add: sql_select_def sql_upsert_def map_of_replace map_add_def)
qed

lemma select_delete:
  assumes "distinct (map fst t)"
  shows "sql_select (sql_delete cond t) k = (case sql_select t k of
    Some v \<Rightarrow> if cond (k, v) then None else Some v | None \<Rightarrow> None)"
proof -
  have "k \<notin> fst ` set u \<Longrightarrow> map_of (filter (\<lambda>row. \<not> cond row) u) k = None" for u
    by (metis (no_types, lifting) filter_is_subset image_mono map_of_eq_None_iff subsetD)
  with assms show ?thesis
    unfolding sql_select_def sql_delete_def
  proof (induction t)
    case (Cons row t)
    obtain a b where row: "row = (a, b)" by fastforce
    have "map_of (filter (\<lambda>row. \<not> cond row) t) a = None" if "k = a"
      using Cons.prems row that by simp
    with Cons row show ?case by (simp split: option.split)
  qed simp
qed

lemma keys_upsert:
  assumes "distinct (map fst t)"
  shows "distinct (map fst (sql_upsert k v t))"
proof -
  have "fst \<circ> (\<lambda>row. if fst row = k then (k, v) else row) = fst" by (rule ext) simp
  with assms show ?thesis by (simp add: sql_upsert_def)
qed

lemma keys_delete: "distinct (map fst t) \<Longrightarrow> distinct (map fst (sql_delete cond t))"
  by (simp add: sql_delete_def distinct_map_filter)

subsection \<open>Rows\<close>

text \<open>
  \<open>PersistentFakeIpMetadata\<close>, with \<open>IpNet\<close> by the two values its accessors return, and
  \<open>PersistentRuleSetEntry\<close>.
\<close>

record net_value =
  net_addr :: ip_addr
  net_prefix_len :: nat

record fakeip_metadata =
  md_inet4_range :: "net_value option"
  md_inet6_range :: "net_value option"
  md_current4 :: "ip_addr option"
  md_current6 :: "ip_addr option"

type_synonym fakeip_metadata_row = "string option \<times> string option \<times> string option \<times> string option"

type_synonym system_time = int

record rule_set_entry =
  rs_content :: bytes
  rs_last_updated :: system_time
  rs_etag :: string
  rs_url_hash :: bytes

record 'm dns_entry =
  pe_message :: 'm
  pe_expires_at :: system_time

text \<open>
  Primary keys as in the \<open>CREATE TABLE\<close> statements: \<open>dns_cache\<close> by cache, transport, name, type,
  subnet and TTL column; \<open>fakeip_cache\<close> by cache and address text, with domain and family as columns
  and unique per cache, domain and family.
\<close>

type_synonym dns_key = "string \<times> string \<times> string \<times> u16 \<times> string \<times> int"

record sqlite_db =
  db_dns_cache :: "(dns_key, int \<times> bytes) table"
  db_fakeip_cache :: "(string \<times> string, string \<times> bool) table"
  db_fakeip_metadata :: "(string, fakeip_metadata_row) table"
  db_runtime_state :: "(string \<times> string \<times> string, string) table"
  db_rdrc_cache :: "(string \<times> string \<times> string \<times> u16, int) table"
  db_rule_set_cache :: "(string \<times> string, bytes \<times> int \<times> string \<times> bytes) table"

definition open_new :: sqlite_db where
  "open_new = \<lparr>db_dns_cache = [], db_fakeip_cache = [], db_fakeip_metadata = [], db_runtime_state = [],
     db_rdrc_cache = [], db_rule_set_cache = []\<rparr>"

datatype store_error =
    StatementFailed | UniqueViolation | NegativeExpiry | NegativeTimestamp | MessageError
  | BeforeEpoch | TimeOverflow | AddressSyntax | NetSyntax | NotBoolean

subsection \<open>Time columns\<close>

text \<open>
  \<open>duration_since(UNIX_EPOCH)?.as_secs()\<close> and then \<open>i64::try_from\<close>; reading back, \<open>u64::try_from\<close> and
  \<open>UNIX_EPOCH + Duration::from_secs\<close>.
\<close>

definition epoch_secs :: "system_time \<Rightarrow> store_error + int" where
  "epoch_secs t =
     (if t < 0 then Inl BeforeEpoch
      else let s = t div 1000000000 in if s \<le> 2 ^ 63 - 1 then Inr s else Inl TimeOverflow)"

definition from_epoch_secs :: "int \<Rightarrow> system_time" where
  "from_epoch_secs s = s * 1000000000"

lemma epoch_secs_back:
  assumes "epoch_secs t = Inr s"
  shows "0 \<le> s" "from_epoch_secs s \<le> t" "t < from_epoch_secs s + 1000000000"
  using assms by (auto simp: epoch_secs_def from_epoch_secs_def Let_def split: if_splits)

subsection \<open>DNS responses\<close>

record 'm message_codec =
  msg_emit :: "'m \<Rightarrow> bytes option"
  msg_read :: "bytes \<Rightarrow> 'm option"

definition dns_row_key :: "string \<Rightarrow> string \<Rightarrow> string \<Rightarrow> u16 \<Rightarrow> string option \<Rightarrow> u32 option \<Rightarrow> dns_key" where
  "dns_row_key cache_id transport qname qtype client_subnet rewrite_ttl =
     (cache_id, transport, qname, qtype,
      case client_subnet of Some s \<Rightarrow> s | None \<Rightarrow> [],
      case rewrite_ttl of Some ttl \<Rightarrow> uint ttl | None \<Rightarrow> - 1)"

definition load_dns ::
  "'m message_codec \<Rightarrow> string \<Rightarrow> bool \<Rightarrow> sqlite_db \<Rightarrow> string \<Rightarrow> string \<Rightarrow> u16 \<Rightarrow> string option \<Rightarrow> u32 option
    \<Rightarrow> store_error + 'm dns_entry option" where
  "load_dns codec cache_id ok db transport qname qtype client_subnet rewrite_ttl =
     (if \<not> ok then Inl StatementFailed
      else case sql_select (db_dns_cache db)
                  (dns_row_key cache_id transport qname qtype client_subnet rewrite_ttl) of
        None \<Rightarrow> Inr None
      | Some (expires_at, bs) \<Rightarrow>
          if expires_at < 0 then Inl NegativeExpiry
          else case msg_read codec bs of
            None \<Rightarrow> Inl MessageError
          | Some message \<Rightarrow>
              Inr (Some \<lparr>pe_message = message, pe_expires_at = from_epoch_secs expires_at\<rparr>))"

definition save_dns ::
  "'m message_codec \<Rightarrow> string \<Rightarrow> bool \<Rightarrow> sqlite_db \<Rightarrow> string \<Rightarrow> string \<Rightarrow> u16 \<Rightarrow> string option \<Rightarrow> u32 option
    \<Rightarrow> 'm \<Rightarrow> system_time \<Rightarrow> store_error + sqlite_db" where
  "save_dns codec cache_id ok db transport qname qtype client_subnet rewrite_ttl message expires_at =
     (case msg_emit codec message of
        None \<Rightarrow> Inl MessageError
      | Some bs \<Rightarrow> and_then (epoch_secs expires_at) (\<lambda>seconds.
          if \<not> ok then Inl StatementFailed
          else Inr (db\<lparr>db_dns_cache :=
            sql_upsert (dns_row_key cache_id transport qname qtype client_subnet rewrite_ttl)
              (seconds, bs) (db_dns_cache db)\<rparr>)))"

definition clear_dns :: "string \<Rightarrow> bool \<Rightarrow> sqlite_db \<Rightarrow> store_error + sqlite_db" where
  "clear_dns cache_id ok db =
     (if \<not> ok then Inl StatementFailed
      else Inr (db\<lparr>db_dns_cache := sql_delete (\<lambda>row. fst (fst row) = cache_id) (db_dns_cache db)\<rparr>))"

subsection \<open>Fake addresses\<close>

text \<open>What the sources use of \<open>IpNet\<close>: \<open>Display\<close>, \<open>FromStr\<close> and \<open>contains\<close>.\<close>

record net_crate =
  net_display :: "net_value \<Rightarrow> string"
  net_parse :: "string \<Rightarrow> net_value option"
  net_contains :: "net_value \<Rightarrow> ip_addr \<Rightarrow> bool"

definition load_fakeip_by_address ::
  "string \<Rightarrow> bool \<Rightarrow> sqlite_db \<Rightarrow> ip_addr \<Rightarrow> store_error + string option" where
  "load_fakeip_by_address cache_id ok db address =
     (if \<not> ok then Inl StatementFailed
      else Inr (map_option fst (sql_select (db_fakeip_cache db) (cache_id, ip_to_string address))))"

definition load_fakeip_by_domain ::
  "string \<Rightarrow> bool \<Rightarrow> sqlite_db \<Rightarrow> string \<Rightarrow> bool \<Rightarrow> store_error + ip_addr option" where
  "load_fakeip_by_domain cache_id ok db domain ipv6 =
     (if \<not> ok then Inl StatementFailed
      else case find (\<lambda>row. fst (fst row) = cache_id \<and> snd row = (domain, ipv6)) (db_fakeip_cache db) of
        None \<Rightarrow> Inr None
      | Some row \<Rightarrow>
          (case parse_ip (snd (fst row)) of
             None \<Rightarrow> Inl AddressSyntax
           | Some address \<Rightarrow> Inr (Some address)))"

definition save_fakeip :: "string \<Rightarrow> bool \<Rightarrow> sqlite_db \<Rightarrow> ip_addr \<Rightarrow> string \<Rightarrow> store_error + sqlite_db" where
  "save_fakeip cache_id ok db address domain =
     (if \<not> ok then Inl StatementFailed
      else
        let ipv6 = \<not> is_ipv4 address;
            kept = sql_delete (\<lambda>row. fst (fst row) = cache_id
              \<and> (snd (fst row) = ip_to_string address \<or> snd row = (domain, ipv6))) (db_fakeip_cache db)
        in if list_ex (\<lambda>row. fst (fst row) = cache_id
                \<and> (snd (fst row) = ip_to_string address \<or> snd row = (domain, ipv6))) kept
           then Inl UniqueViolation
           else Inr (db\<lparr>db_fakeip_cache := kept @ [((cache_id, ip_to_string address), (domain, ipv6))]\<rparr>))"

definition display_optional :: "('a \<Rightarrow> string) \<Rightarrow> 'a option \<Rightarrow> string option" where
  "display_optional to_string value = map_option to_string value"

definition parse_optional ::
  "(string \<Rightarrow> 'a option) \<Rightarrow> store_error \<Rightarrow> string option \<Rightarrow> store_error + 'a option" where
  "parse_optional parse e value =
     (case value of
        None \<Rightarrow> Inr None
      | Some s \<Rightarrow> (case parse s of None \<Rightarrow> Inl e | Some x \<Rightarrow> Inr (Some x)))"

definition load_fakeip_metadata ::
  "net_crate \<Rightarrow> string \<Rightarrow> bool \<Rightarrow> sqlite_db \<Rightarrow> store_error + fakeip_metadata option" where
  "load_fakeip_metadata nt cache_id ok db =
     (if \<not> ok then Inl StatementFailed
      else case sql_select (db_fakeip_metadata db) cache_id of
        None \<Rightarrow> Inr None
      | Some (inet4_range, inet6_range, current4, current6) \<Rightarrow>
          and_then (parse_optional (net_parse nt) NetSyntax inet4_range) (\<lambda>r4.
          and_then (parse_optional (net_parse nt) NetSyntax inet6_range) (\<lambda>r6.
          and_then (parse_optional parse_ip AddressSyntax current4) (\<lambda>c4.
          and_then (parse_optional parse_ip AddressSyntax current6) (\<lambda>c6.
            Inr (Some \<lparr>md_inet4_range = r4, md_inet6_range = r6, md_current4 = c4, md_current6 = c6\<rparr>))))))"

definition save_fakeip_metadata ::
  "net_crate \<Rightarrow> string \<Rightarrow> bool \<Rightarrow> sqlite_db \<Rightarrow> fakeip_metadata \<Rightarrow> store_error + sqlite_db" where
  "save_fakeip_metadata nt cache_id ok db metadata =
     (if \<not> ok then Inl StatementFailed
      else Inr (db\<lparr>db_fakeip_metadata := sql_upsert cache_id
        (display_optional (net_display nt) (md_inet4_range metadata),
         display_optional (net_display nt) (md_inet6_range metadata),
         display_optional ip_to_string (md_current4 metadata),
         display_optional ip_to_string (md_current6 metadata)) (db_fakeip_metadata db)\<rparr>))"

definition clear_fakeip :: "string \<Rightarrow> bool \<Rightarrow> sqlite_db \<Rightarrow> store_error + sqlite_db" where
  "clear_fakeip cache_id ok db =
     (if \<not> ok then Inl StatementFailed
      else Inr (db\<lparr>
        db_fakeip_cache := sql_delete (\<lambda>row. fst (fst row) = cache_id) (db_fakeip_cache db),
        db_fakeip_metadata := sql_delete (\<lambda>row. fst row = cache_id) (db_fakeip_metadata db)\<rparr>))"

subsection \<open>Runtime state\<close>

definition load_runtime_state ::
  "string \<Rightarrow> bool \<Rightarrow> sqlite_db \<Rightarrow> string \<Rightarrow> string \<Rightarrow> store_error + string option" where
  "load_runtime_state cache_id ok db kind name =
     (if \<not> ok then Inl StatementFailed
      else Inr (sql_select (db_runtime_state db) (cache_id, kind, name)))"

definition save_runtime_state ::
  "string \<Rightarrow> bool \<Rightarrow> sqlite_db \<Rightarrow> string \<Rightarrow> string \<Rightarrow> string \<Rightarrow> store_error + sqlite_db" where
  "save_runtime_state cache_id ok db kind name val =
     (if \<not> ok then Inl StatementFailed
      else Inr (db\<lparr>db_runtime_state := sql_upsert (cache_id, kind, name) val (db_runtime_state db)\<rparr>))"

definition load_selected :: "string \<Rightarrow> bool \<Rightarrow> sqlite_db \<Rightarrow> string \<Rightarrow> store_error + string option" where
  "load_selected cache_id ok db grp = load_runtime_state cache_id ok db ''selected'' grp"

definition save_selected :: "string \<Rightarrow> bool \<Rightarrow> sqlite_db \<Rightarrow> string \<Rightarrow> string \<Rightarrow> store_error + sqlite_db" where
  "save_selected cache_id ok db grp selected = save_runtime_state cache_id ok db ''selected'' grp selected"

definition load_mode :: "string \<Rightarrow> bool \<Rightarrow> sqlite_db \<Rightarrow> store_error + string option" where
  "load_mode cache_id ok db = load_runtime_state cache_id ok db ''mode'' []"

definition save_mode :: "string \<Rightarrow> bool \<Rightarrow> sqlite_db \<Rightarrow> string \<Rightarrow> store_error + sqlite_db" where
  "save_mode cache_id ok db mode = save_runtime_state cache_id ok db ''mode'' [] mode"

definition load_group_expand :: "string \<Rightarrow> bool \<Rightarrow> sqlite_db \<Rightarrow> string \<Rightarrow> store_error + bool option" where
  "load_group_expand cache_id ok db grp =
     and_then (load_runtime_state cache_id ok db ''group_expand'' grp) (\<lambda>val.
       case val of
         None \<Rightarrow> Inr None
       | Some s \<Rightarrow>
           if s = ''true'' then Inr (Some True)
           else if s = ''false'' then Inr (Some False)
           else Inl NotBoolean)"

definition save_group_expand :: "string \<Rightarrow> bool \<Rightarrow> sqlite_db \<Rightarrow> string \<Rightarrow> bool \<Rightarrow> store_error + sqlite_db" where
  "save_group_expand cache_id ok db grp expanded =
     save_runtime_state cache_id ok db ''group_expand'' grp (if expanded then ''true'' else ''false'')"

subsection \<open>Rule sets and rejected responses\<close>

definition load_rule_set :: "string \<Rightarrow> bool \<Rightarrow> sqlite_db \<Rightarrow> string \<Rightarrow> store_error + rule_set_entry option" where
  "load_rule_set cache_id ok db tag =
     (if \<not> ok then Inl StatementFailed
      else case sql_select (db_rule_set_cache db) (cache_id, tag) of
        None \<Rightarrow> Inr None
      | Some (content, last_updated, etag, url_hash) \<Rightarrow>
          if last_updated < 0 then Inl NegativeTimestamp
          else Inr (Some \<lparr>rs_content = content, rs_last_updated = from_epoch_secs last_updated,
            rs_etag = etag, rs_url_hash = url_hash\<rparr>))"

definition save_rule_set :: "string \<Rightarrow> bool \<Rightarrow> sqlite_db \<Rightarrow> string \<Rightarrow> rule_set_entry \<Rightarrow> store_error + sqlite_db" where
  "save_rule_set cache_id ok db tag entry =
     and_then (epoch_secs (rs_last_updated entry)) (\<lambda>last_updated.
       if \<not> ok then Inl StatementFailed
       else Inr (db\<lparr>db_rule_set_cache := sql_upsert (cache_id, tag)
         (rs_content entry, last_updated, rs_etag entry, rs_url_hash entry) (db_rule_set_cache db)\<rparr>))"

text \<open>
  The cache of rejected responses. \<open>load_rdrc\<close> deletes a row whose time has come; the read and the
  delete are two statements and each can fail. \<open>SystemTime::now()\<close> and the largest representable
  time are arguments.
\<close>

definition load_rdrc ::
  "string \<Rightarrow> bool \<Rightarrow> bool \<Rightarrow> system_time \<Rightarrow> sqlite_db \<Rightarrow> string \<Rightarrow> string \<Rightarrow> u16 \<Rightarrow> sqlite_db \<times> (store_error + bool)" where
  "load_rdrc cache_id ok_read ok_delete now db transport qname qtype =
     (case epoch_secs now of
        Inl e \<Rightarrow> (db, Inl e)
      | Inr now_secs \<Rightarrow>
          if \<not> ok_read then (db, Inl StatementFailed)
          else
            let key = (cache_id, transport, qname, qtype);
                expires_at = sql_select (db_rdrc_cache db) key
            in case expires_at of
                 None \<Rightarrow> (db, Inr False)
               | Some e \<Rightarrow>
                   if e \<le> now_secs then
                     if \<not> ok_delete then (db, Inl StatementFailed)
                     else (db\<lparr>db_rdrc_cache := sql_delete (\<lambda>row. fst row = key) (db_rdrc_cache db)\<rparr>, Inr False)
                   else (db, Inr True))"

definition save_rdrc ::
  "string \<Rightarrow> bool \<Rightarrow> system_time \<Rightarrow> system_time \<Rightarrow> sqlite_db \<Rightarrow> string \<Rightarrow> string \<Rightarrow> u16 \<Rightarrow> duration
    \<Rightarrow> store_error + sqlite_db" where
  "save_rdrc cache_id ok max_time now db transport qname qtype timeout =
     (if now + int timeout > max_time then Inl TimeOverflow
      else and_then (epoch_secs (now + int timeout)) (\<lambda>expires_at.
        if \<not> ok then Inl StatementFailed
        else Inr (db\<lparr>db_rdrc_cache :=
          sql_upsert (cache_id, transport, qname, qtype) expires_at (db_rdrc_cache db)\<rparr>)))"

subsection \<open>What a handle reads back\<close>

text \<open>
  The contract the tables give their users: a write changes what its own key loads and nothing else,
  so that a run of writes leaves under every key the last value written there.
\<close>

locale keyed_store =
  fixes load :: "'s \<Rightarrow> 'k \<Rightarrow> 'v option"
    and save :: "'k \<Rightarrow> 'v \<Rightarrow> 's \<Rightarrow> 's"
  assumes load_save: "load (save k v s) k' = (if k' = k then Some v else load s k')"
begin

lemma load_run:
  "load (fold (\<lambda>(k, v). save k v) ws s) k = (case map_of (rev ws) k of Some v \<Rightarrow> Some v | None \<Rightarrow> load s k)"
  by (induction ws arbitrary: s) (auto simp: load_save map_add_def split: option.split)

end

definition write_state :: "string \<times> string \<times> string \<Rightarrow> string \<Rightarrow> sqlite_db \<Rightarrow> sqlite_db" where
  "write_state k v db = (case save_runtime_state (fst k) True db (fst (snd k)) (snd (snd k)) v of Inl _ \<Rightarrow> db | Inr db' \<Rightarrow> db')"

definition read_state :: "sqlite_db \<Rightarrow> string \<times> string \<times> string \<Rightarrow> string option" where
  "read_state db k = (case load_runtime_state (fst k) True db (fst (snd k)) (snd (snd k)) of Inl _ \<Rightarrow> None | Inr v \<Rightarrow> v)"

interpretation runtime_settings: keyed_store read_state write_state
  by unfold_locales
    (simp add: read_state_def write_state_def load_runtime_state_def save_runtime_state_def select_upsert)

text \<open>
  A run of the settings operations of several handles on one file: each names its handle's
  \<open>cache_id\<close> and whether the statement succeeded.
\<close>

datatype setting = SetSelected string string | SetMode string | SetGroupExpand string bool

fun save_setting :: "string \<Rightarrow> bool \<Rightarrow> setting \<Rightarrow> sqlite_db \<Rightarrow> store_error + sqlite_db" where
  "save_setting cache_id ok (SetSelected grp selected) db = save_selected cache_id ok db grp selected"
| "save_setting cache_id ok (SetMode mode) db = save_mode cache_id ok db mode"
| "save_setting cache_id ok (SetGroupExpand grp expanded) db = save_group_expand cache_id ok db grp expanded"

fun settings_step :: "string \<times> bool \<times> setting \<Rightarrow> sqlite_db \<Rightarrow> sqlite_db" where
  "settings_step (cache_id, ok, e) db = (case save_setting cache_id ok e db of Inl _ \<Rightarrow> db | Inr db' \<Rightarrow> db')"

text \<open>The last successful write of a handle that \<open>pick\<close> selects.\<close>

definition last_written :: "string \<Rightarrow> (setting \<Rightarrow> 'a option) \<Rightarrow> (string \<times> bool \<times> setting) list \<Rightarrow> 'a option" where
  "last_written cache_id pick es =
     (case [v. (c, ok, e) \<leftarrow> rev es, c = cache_id \<and> ok, Some v \<leftarrow> [pick e]] of [] \<Rightarrow> None | v # _ \<Rightarrow> Some v)"

fun setting_row :: "string \<Rightarrow> setting \<Rightarrow> (string \<times> string \<times> string) \<times> string" where
  "setting_row c (SetSelected grp selected) = ((c, ''selected'', grp), selected)"
| "setting_row c (SetMode mode) = ((c, ''mode'', []), mode)"
| "setting_row c (SetGroupExpand grp expanded) = ((c, ''group_expand'', grp), if expanded then ''true'' else ''false'')"

definition setting_writes :: "(string \<times> bool \<times> setting) list \<Rightarrow> ((string \<times> string \<times> string) \<times> string) list" where
  "setting_writes es = map (\<lambda>(c, ok, e). setting_row c e) (filter (\<lambda>(c, ok, e). ok) es)"

lemma settings_step_row:
  "settings_step (c, ok, e) db = (if ok then write_state (fst (setting_row c e)) (snd (setting_row c e)) db else db)"
  by (cases e) (simp_all add: write_state_def save_selected_def save_mode_def save_group_expand_def
      save_runtime_state_def)

lemma settings_run:
  "fold settings_step es db = fold (\<lambda>(k, v). write_state k v) (setting_writes es) db"
  by (induction es arbitrary: db)
    (auto simp: setting_writes_def settings_step_row case_prod_beta simp del: settings_step.simps)

lemma read_settings_run:
  "read_state (fold settings_step es open_new) k = map_of (rev (setting_writes es)) k"
  unfolding settings_run runtime_settings.load_run
  by (simp add: read_state_def load_runtime_state_def open_new_def sql_select_def split: option.split)

lemma last_written_Nil [simp]: "last_written c pick [] = None"
  by (simp add: last_written_def)

lemma last_written_snoc:
  "last_written c pick (es @ [(c', ok, e)]) =
    (if c' = c \<and> ok \<and> pick e \<noteq> None then pick e else last_written c pick es)"
  by (auto simp: last_written_def)

lemma setting_writes_snoc:
  "rev (setting_writes (es @ [(c, ok, e)])) = (if ok then [setting_row c e] else []) @ rev (setting_writes es)"
  by (simp add: setting_writes_def)

lemma last_written_rows:
  assumes "\<And>e. (case pick e of Some v \<Rightarrow> setting_row c e = (k, disp v) | None \<Rightarrow> fst (setting_row c e) \<noteq> k)"
    and "fst k = c"
  shows "map_of (rev (setting_writes es)) k = map_option disp (last_written c pick es)"
proof (induction es rule: rev_induct)
  case Nil
  show ?case by (simp add: setting_writes_def)
next
  case (snoc x es)
  obtain c' ok e where x: "x = (c', ok, e)" using prod_cases3 by blast
  have other: "c' \<noteq> c \<Longrightarrow> fst (setting_row c' e) \<noteq> k" using assms(2) by (cases e) auto
  obtain k' v' where row: "setting_row c' e = (k', v')" by fastforce
  show ?case
  proof (cases "c' = c")
    case True
    then show ?thesis
      using assms(1) [of e] snoc row
      by (cases "pick e") (auto simp: x setting_writes_snoc last_written_snoc)
  next
    case False
    then show ?thesis
      using snoc other row by (auto simp: x setting_writes_snoc last_written_snoc)
  qed
qed

text \<open>
  Property C37. Runtime settings. After any run of setting writes by any handles on one file, a
  handle reads as selected outbound, as mode and as expanded state exactly the value of its own last
  successful write for that group, or none: handles with different cache ids, the three kinds of
  setting and different groups never disturb each other, and a failed write changes nothing. The
  expanded flag always reads back as a boolean.
\<close>

theorem settings_last_write:
  "load_selected c True (fold settings_step es open_new) g =
      Inr (last_written c (\<lambda>e. case e of SetSelected g' v \<Rightarrow> if g' = g then Some v else None | _ \<Rightarrow> None) es)
    \<and> load_mode c True (fold settings_step es open_new) =
      Inr (last_written c (\<lambda>e. case e of SetMode v \<Rightarrow> Some v | _ \<Rightarrow> None) es)
    \<and> load_group_expand c True (fold settings_step es open_new) g =
      Inr (last_written c (\<lambda>e. case e of SetGroupExpand g' b \<Rightarrow> if g' = g then Some b else None | _ \<Rightarrow> None) es)"
proof (intro conjI)
  have load: "load_runtime_state c True db kind name = Inr (read_state db (c, kind, name))" for db kind name
    by (simp add: read_state_def load_runtime_state_def)
  note rows = last_written_rows [where c = c and es = es]
  show "load_selected c True (fold settings_step es open_new) g =
      Inr (last_written c (\<lambda>e. case e of SetSelected g' v \<Rightarrow> if g' = g then Some v else None | _ \<Rightarrow> None) es)"
    unfolding load_selected_def load read_settings_run
    by (subst rows [where disp = id]) (auto split: setting.splits option.splits simp: option.map_id)
  show "load_mode c True (fold settings_step es open_new) =
      Inr (last_written c (\<lambda>e. case e of SetMode v \<Rightarrow> Some v | _ \<Rightarrow> None) es)"
    unfolding load_mode_def load read_settings_run
    by (subst rows [where disp = id]) (auto split: setting.splits option.splits simp: option.map_id)
  show "load_group_expand c True (fold settings_step es open_new) g =
      Inr (last_written c (\<lambda>e. case e of SetGroupExpand g' b \<Rightarrow> if g' = g then Some b else None | _ \<Rightarrow> None) es)"
    unfolding load_group_expand_def load read_settings_run and_then.simps
    by (subst rows [where disp = "\<lambda>b. if b then ''true'' else ''false''"
          and pick = "\<lambda>e. case e of SetGroupExpand g' b \<Rightarrow> if g' = g then Some b else None | _ \<Rightarrow> None"])
      (auto split: setting.splits option.splits)
qed

lemma dns_row_key_inj:
  assumes "cs \<noteq> Some []" "cs' \<noteq> Some []"
  shows "dns_row_key c tr q ty cs ttl = dns_row_key c' tr' q' ty' cs' ttl' \<longleftrightarrow>
    (c, tr, q, ty, cs, ttl) = (c', tr', q', ty', cs', ttl')"
proof -
  have "(case ttl of Some n \<Rightarrow> uint n | None \<Rightarrow> - 1) = (case ttl' of Some n \<Rightarrow> uint n | None \<Rightarrow> - 1)
      \<longleftrightarrow> ttl = ttl'"
  proof -
    have "uint n \<noteq> - 1" for n :: u32 using uint_ge_0 [of n] by linarith
    then show ?thesis by (auto split: option.split simp: word_uint_eq_iff) (metis)
  qed
  with assms show ?thesis by (auto simp: dns_row_key_def split: option.splits)
qed

definition codec_ok :: "'m message_codec \<Rightarrow> bool" where
  "codec_ok codec \<longleftrightarrow> (\<forall>m b. msg_emit codec m = Some b \<longrightarrow> msg_read codec b = Some m)"

text \<open>
  Property C27. Stored DNS responses. When \<open>save\<close> succeeds, the same handle loads the same message
  under the same transport, name, type, client subnet and TTL override, with the expiry rounded down
  to a whole second, and every other lookup, of this or of another cache id, returns what it returned
  before. The message codec is assumed to read what it emits; an empty text is no client subnet, as
  the column cannot tell the two apart.
\<close>

theorem dns_store_round_trip:
  assumes "codec_ok codec"
    and "save_dns codec c ok db tr q ty cs ttl m t = Inr db'"
    and "cs \<noteq> Some []"
  shows "load_dns codec c True db' tr q ty cs ttl =
      Inr (Some \<lparr>pe_message = m, pe_expires_at = t div 1000000000 * 1000000000\<rparr>)
    \<and> (\<forall>c' ok' tr' q' ty' cs' ttl'. cs' \<noteq> Some [] \<and> (c, tr, q, ty, cs, ttl) \<noteq> (c', tr', q', ty', cs', ttl')
        \<longrightarrow> load_dns codec c' ok' db' tr' q' ty' cs' ttl' = load_dns codec c' ok' db tr' q' ty' cs' ttl')"
proof -
  obtain bs seconds where enc: "msg_emit codec m = Some bs" and secs: "epoch_secs t = Inr seconds" and
      db': "db' = db\<lparr>db_dns_cache := sql_upsert (dns_row_key c tr q ty cs ttl) (seconds, bs) (db_dns_cache db)\<rparr>"
    using assms(2) by (auto simp: save_dns_def and_then_Inr split: option.splits if_splits)
  have "msg_read codec bs = Some m" using assms(1) enc by (simp add: codec_ok_def)
  moreover have "0 \<le> seconds" "seconds = t div 1000000000"
    using secs by (auto simp: epoch_secs_def Let_def split: if_splits)
  ultimately have "load_dns codec c True db' tr q ty cs ttl =
      Inr (Some \<lparr>pe_message = m, pe_expires_at = t div 1000000000 * 1000000000\<rparr>)"
    by (simp add: load_dns_def db' select_upsert from_epoch_secs_def)
  moreover have "load_dns codec c' ok' db' tr' q' ty' cs' ttl' = load_dns codec c' ok' db tr' q' ty' cs' ttl'"
    if "cs' \<noteq> Some []" "(c, tr, q, ty, cs, ttl) \<noteq> (c', tr', q', ty', cs', ttl')" for c' ok' tr' q' ty' cs' ttl'
  proof -
    from that assms(3) have "dns_row_key c' tr' q' ty' cs' ttl' \<noteq> dns_row_key c tr q ty cs ttl"
      by (metis dns_row_key_inj)
    then show ?thesis by (simp add: load_dns_def db' select_upsert)
  qed
  ultimately show ?thesis by blast
qed

definition plain_codec :: "bytes message_codec" where
  "plain_codec = \<lparr>msg_emit = Some, msg_read = Some\<rparr>"

theorem dns_store_round_trip_witness:
  "\<exists>db'. save_dns plain_codec ''one'' True open_new ''udp'' ''example.com'' 1 None None [1, 2] 2500000000 = Inr db'
    \<and> load_dns plain_codec ''one'' True db' ''udp'' ''example.com'' 1 None None =
      Inr (Some \<lparr>pe_message = [1, 2], pe_expires_at = 2500000000 div 1000000000 * 1000000000\<rparr>)"
proof -
  have "codec_ok plain_codec" by (simp add: codec_ok_def plain_codec_def)
  moreover obtain db' where
    "save_dns plain_codec ''one'' True open_new ''udp'' ''example.com'' 1 None None [1, 2] 2500000000 = Inr db'"
    by (simp add: save_dns_def plain_codec_def epoch_secs_def)
  ultimately show ?thesis
    using dns_store_round_trip [of plain_codec "''one''" True open_new "''udp''" "''example.com''" 1 None None
        "[1, 2]" 2500000000 db'] by (intro exI [of _ db']) simp
qed

lemma rdrc_expires:
  assumes "save_rdrc c True max_time now db tr q ty timeout = Inr db'" and "epoch_secs later = Inr s"
  shows "snd (load_rdrc c True True later db' tr q ty) =
    Inr (later div 1000000000 < (now + int timeout) div 1000000000)"
  using assms
  by (auto simp: save_rdrc_def load_rdrc_def and_then_Inr epoch_secs_def Let_def select_upsert
      split: if_splits option.splits)

lemma rdrc_expired_gone:
  assumes "distinct (map fst (db_rdrc_cache db))"
    and "load_rdrc c True True now db tr q ty = (db', Inr False)"
  shows "sql_select (db_rdrc_cache db') (c, tr, q, ty) = None"
  using assms
  by (auto simp: load_rdrc_def Let_def select_delete split: if_splits option.splits sum.splits)

subsection \<open>Stored fake addresses\<close>

text \<open>
  The fake-address rows of one handle as a relation between addresses and domains. Every row is in
  the form \<open>save_fakeip\<close> writes it, and the key and the uniqueness constraint hold.
\<close>

definition fakeip_row :: "sqlite_db \<Rightarrow> string \<Rightarrow> ip_addr \<Rightarrow> string \<Rightarrow> bool" where
  "fakeip_row db c a d \<longleftrightarrow> ((c, ip_to_string a), (d, \<not> is_ipv4 a)) \<in> set (db_fakeip_cache db)"

definition fakeip_rows_wf :: "sqlite_db \<Rightarrow> bool" where
  "fakeip_rows_wf db \<longleftrightarrow>
     (\<forall>row \<in> set (db_fakeip_cache db). \<exists>a. snd (fst row) = ip_to_string a \<and> snd (snd row) = (\<not> is_ipv4 a))
   \<and> distinct (map fst (db_fakeip_cache db))
   \<and> distinct (map (\<lambda>row. (fst (fst row), snd row)) (db_fakeip_cache db))
   \<and> distinct (map fst (db_fakeip_metadata db))"

lemma ip_to_string_inj [simp]: "ip_to_string a = ip_to_string b \<longleftrightarrow> a = b"
  by (metis option.inject parse_ip_to_string)

lemma fakeip_rows_wf_new [simp]: "fakeip_rows_wf open_new"
  by (simp add: fakeip_rows_wf_def open_new_def)

lemma load_by_address_row:
  assumes "fakeip_rows_wf db"
  shows "load_fakeip_by_address c True db a = Inr (Some d) \<longleftrightarrow> fakeip_row db c a d"
proof -
  have "load_fakeip_by_address c True db a = Inr (Some d) \<longleftrightarrow>
      (\<exists>b. ((c, ip_to_string a), (d, b)) \<in> set (db_fakeip_cache db))"
    using assms by (auto simp: load_fakeip_by_address_def sql_select_def fakeip_rows_wf_def)
  also have "\<dots> \<longleftrightarrow> fakeip_row db c a d"
    using assms by (fastforce simp: fakeip_row_def fakeip_rows_wf_def)
  finally show ?thesis .
qed

lemma load_by_domain_row:
  assumes "fakeip_rows_wf db"
  shows "load_fakeip_by_domain c True db d ipv6 = Inr (Some a) \<longleftrightarrow> fakeip_row db c a d \<and> ipv6 = (\<not> is_ipv4 a)"
proof
  assume "load_fakeip_by_domain c True db d ipv6 = Inr (Some a)"
  then obtain row where row: "find (\<lambda>row. fst (fst row) = c \<and> snd row = (d, ipv6)) (db_fakeip_cache db) = Some row"
      and a: "parse_ip (snd (fst row)) = Some a"
    by (auto simp: load_fakeip_by_domain_def split: option.splits)
  from row have mem: "row \<in> set (db_fakeip_cache db)" "fst (fst row) = c" "snd row = (d, ipv6)"
    by (auto simp: find_Some_iff)
  with assms obtain b where "snd (fst row) = ip_to_string b" "ipv6 = (\<not> is_ipv4 b)"
    unfolding fakeip_rows_wf_def by (metis snd_conv)
  with a mem show "fakeip_row db c a d \<and> ipv6 = (\<not> is_ipv4 a)"
    by (cases row) (auto simp: fakeip_row_def parse_ip_to_string)
next
  assume *: "fakeip_row db c a d \<and> ipv6 = (\<not> is_ipv4 a)"
  let ?row = "((c, ip_to_string a), (d, ipv6))"
  have mem: "?row \<in> set (db_fakeip_cache db)" using * by (auto simp: fakeip_row_def)
  then obtain row where row: "find (\<lambda>row. fst (fst row) = c \<and> snd row = (d, ipv6)) (db_fakeip_cache db) = Some row"
    by (cases "find (\<lambda>row. fst (fst row) = c \<and> snd row = (d, ipv6)) (db_fakeip_cache db)") (auto simp: find_None_iff)
  then have "row \<in> set (db_fakeip_cache db)" "(fst (fst row), snd row) = (fst (fst ?row), snd ?row)"
    by (auto simp: find_Some_iff)
  with mem assms have "row = ?row"
    unfolding fakeip_rows_wf_def distinct_map inj_on_def by blast
  with row show "load_fakeip_by_domain c True db d ipv6 = Inr (Some a)"
    by (simp add: load_fakeip_by_domain_def parse_ip_to_string)
qed

lemma save_fakeip_row:
  assumes "fakeip_rows_wf db"
  obtains db' where "save_fakeip c True db a d = Inr db'" "fakeip_rows_wf db'"
    "\<And>c' a' d'. fakeip_row db' c' a' d' \<longleftrightarrow> (c' = c \<and> a' = a \<and> d' = d) \<or>
      (fakeip_row db c' a' d' \<and> \<not> (c' = c \<and> (a' = a \<or> (d' = d \<and> is_ipv4 a' = is_ipv4 a))))"
    "db_fakeip_metadata db' = db_fakeip_metadata db"
proof -
  let ?clash = "\<lambda>row. fst (fst row) = c \<and> (snd (fst row) = ip_to_string a \<or> snd row = (d, \<not> is_ipv4 a))"
  let ?kept = "filter (\<lambda>row. \<not> ?clash row) (db_fakeip_cache db)"
  let ?db = "db\<lparr>db_fakeip_cache := ?kept @ [((c, ip_to_string a), (d, \<not> is_ipv4 a))]\<rparr>"
  have "save_fakeip c True db a d = Inr ?db"
    by (auto simp: save_fakeip_def sql_delete_def Let_def list_ex_iff)
  moreover have "fakeip_rows_wf ?db"
    using assms unfolding fakeip_rows_wf_def by (auto simp: distinct_map inj_on_def)
  moreover have "fakeip_row ?db c' a' d' \<longleftrightarrow> (c' = c \<and> a' = a \<and> d' = d) \<or>
      (fakeip_row db c' a' d' \<and> \<not> (c' = c \<and> (a' = a \<or> (d' = d \<and> is_ipv4 a' = is_ipv4 a))))" for c' a' d'
    by (auto simp: fakeip_row_def)
  ultimately show ?thesis using that by simp
qed

lemma clear_fakeip_row:
  assumes "fakeip_rows_wf db"
  obtains db' where "clear_fakeip c True db = Inr db'" "fakeip_rows_wf db'"
    "\<And>c' a d. fakeip_row db' c' a d \<longleftrightarrow> fakeip_row db c' a d \<and> c' \<noteq> c"
    "sql_select (db_fakeip_metadata db') c = None"
proof -
  let ?db = "db\<lparr>db_fakeip_cache := sql_delete (\<lambda>row. fst (fst row) = c) (db_fakeip_cache db),
        db_fakeip_metadata := sql_delete (\<lambda>row. fst row = c) (db_fakeip_metadata db)\<rparr>"
  have "clear_fakeip c True db = Inr ?db" by (simp add: clear_fakeip_def)
  moreover have "fakeip_rows_wf ?db"
    using assms unfolding fakeip_rows_wf_def by (auto simp: sql_delete_def distinct_map inj_on_def)
  moreover have "fakeip_row ?db c' a d \<longleftrightarrow> fakeip_row db c' a d \<and> c' \<noteq> c" for c' a d
    by (auto simp: fakeip_row_def sql_delete_def)
  moreover have "sql_select (db_fakeip_metadata ?db) c = None"
    using assms by (simp add: fakeip_rows_wf_def select_delete split: option.split)
  ultimately show ?thesis using that by blast
qed

end
