(* ===== verification/Fake_Ip.thy ===== *)
theory Fake_Ip
  imports Dns_Store Route_Types
begin

text \<open>
  The fake-IP allocator of \<open>dns/fakeip.rs\<close>: it hands out addresses of a reserved range for domain
  names, remembers both directions, wraps around when the range is used up (evicting the name that
  held the address) and keeps mappings and allocator position in the persistent store.

  \<open>IpNet\<close> is a type of another crate: its address and prefix length are the record \<^typ>\<open>net_value\<close>,
  its \<open>contains\<close>, \<open>Display\<close> and \<open>FromStr\<close> are fields of \<^typ>\<open>net_crate\<close>, with their documented
  behaviour as the hypothesis \<open>net_crate_ok\<close>. The shared database is passed next to the resolver,
  and whether each SQL statement succeeds is an argument of the operation.
\<close>

record fakeip_state =
  current4 :: "ip_addr option"
  current6 :: "ip_addr option"
  last4 :: "ip_addr option"
  last6 :: "ip_addr option"
  by_address :: "ip_addr \<Rightarrow> string option"
  by_domain4 :: "string \<Rightarrow> ip_addr option"
  by_domain6 :: "string \<Rightarrow> ip_addr option"

record fakeip_resolver =
  inet4_range :: "net_value option"
  inet6_range :: "net_value option"
  persistent_cache :: "string option"
  fr_state :: fakeip_state

datatype fakeip_error =
    NoRange | NotIpv4Range | NotIpv6Range | StoreError store_error | ShiftOverflow
  | MissingRange bool | RangeExhausted | NoUsableAddress | NoFamily

subsection \<open>Addresses\<close>

text \<open>\<open>checked_add(1)\<close> on the bits of the address.\<close>

fun next_ip :: "ip_addr \<Rightarrow> ip_addr option" where
  "next_ip (V4 a) = (if a = - 1 then None else Some (V4 (a + 1)))"
| "next_ip (V6 a) = (if a = - 1 then None else Some (V6 (a + 1)))"

text \<open>
  \<open>u32::MAX >> prefix_len\<close>: a shift by the full width panics when overflow checks are on (\<open>checks\<close>)
  and otherwise shifts by the amount modulo the width.
\<close>

definition shift_right_max :: "bool \<Rightarrow> nat \<Rightarrow> ('a::len) word option" where
  "shift_right_max checks amount =
     (if amount < LENGTH('a) then Some (drop_bit amount (- 1))
      else if checks then None
      else Some (drop_bit (amount mod LENGTH('a)) (- 1)))"

definition broadcast_address :: "bool \<Rightarrow> net_value \<Rightarrow> ip_addr option" where
  "broadcast_address checks net =
     (case net_addr net of
        V4 a \<Rightarrow> map_option (\<lambda>host_mask. V4 (a OR host_mask)) (shift_right_max checks (net_prefix_len net))
      | V6 a \<Rightarrow> map_option (\<lambda>host_mask. V6 (a OR host_mask)) (shift_right_max checks (net_prefix_len net)))"

definition broadcast_optional :: "bool \<Rightarrow> net_value option \<Rightarrow> fakeip_error + ip_addr option" where
  "broadcast_optional checks net =
     (case net of
        None \<Rightarrow> Inr None
      | Some n \<Rightarrow>
          (case broadcast_address checks n of None \<Rightarrow> Inl ShiftOverflow | Some a \<Rightarrow> Inr (Some a)))"

definition fakeip_canonical_domain :: "string \<Rightarrow> string" where
  "fakeip_canonical_domain domain = to_ascii_lowercase (trim_end_matches (CHR ''.'') domain)"

definition range_contains :: "net_crate \<Rightarrow> net_value option \<Rightarrow> ip_addr \<Rightarrow> bool" where
  "range_contains nc net address = (case net of None \<Rightarrow> False | Some n \<Rightarrow> net_contains nc n address)"

definition valid_current :: "net_crate \<Rightarrow> ip_addr option \<Rightarrow> net_value option \<Rightarrow> bool" where
  "valid_current nc current net =
     (case (current, net) of
        (None, None) \<Rightarrow> True
      | (Some current, Some net) \<Rightarrow> net_contains nc net current
      | _ \<Rightarrow> False)"

subsection \<open>Construction\<close>

definition resolver_metadata :: "net_value option \<Rightarrow> net_value option \<Rightarrow> ip_addr option \<Rightarrow> ip_addr option \<Rightarrow> fakeip_metadata" where
  "resolver_metadata r4 r6 c4 c6 =
     \<lparr>md_inet4_range = r4, md_inet6_range = r6, md_current4 = c4, md_current6 = c6\<rparr>"

text \<open>The store branch of \<open>new_with_cache\<close>: the position to resume from and the store afterwards.\<close>

definition restore_position ::
  "net_crate \<Rightarrow> string \<Rightarrow> bool \<times> bool \<times> bool \<Rightarrow> sqlite_db \<Rightarrow> net_value option \<Rightarrow> net_value option
    \<Rightarrow> ip_addr option \<Rightarrow> ip_addr option \<Rightarrow> sqlite_db \<times> (store_error + ip_addr option \<times> ip_addr option)" where
  "restore_position nc cache_id oks db r4 r6 c4 c6 =
     (case oks of (ok_load, ok_clear, ok_save) \<Rightarrow>
       (case load_fakeip_metadata nc cache_id ok_load db of
          Inl e \<Rightarrow> (db, Inl e)
        | Inr metadata \<Rightarrow>
            let resumable = (\<lambda>md. md_inet4_range md = r4 \<and> md_inet6_range md = r6
                  \<and> valid_current nc (md_current4 md) r4 \<and> valid_current nc (md_current6 md) r6);
                fresh = (case clear_fakeip cache_id ok_clear db of
                    Inl e \<Rightarrow> (db, Inl e)
                  | Inr cleared \<Rightarrow>
                      (case save_fakeip_metadata nc cache_id ok_save cleared
                              (resolver_metadata r4 r6 c4 c6) of
                         Inl e \<Rightarrow> (cleared, Inl e)
                       | Inr saved \<Rightarrow> (saved, Inr (c4, c6))))
            in case metadata of
                 None \<Rightarrow> fresh
               | Some md \<Rightarrow> if resumable md then (db, Inr (md_current4 md, md_current6 md)) else fresh))"

definition fakeip_new_with_cache ::
  "net_crate \<Rightarrow> bool \<Rightarrow> bool \<times> bool \<times> bool \<Rightarrow> sqlite_db \<Rightarrow> net_value option \<Rightarrow> net_value option \<Rightarrow> string option
    \<Rightarrow> sqlite_db \<times> (fakeip_error + fakeip_resolver)" where
  "fakeip_new_with_cache nc checks oks db r4 r6 cache =
     (if r4 = None \<and> r6 = None then (db, Inl NoRange)
      else if (case r4 of None \<Rightarrow> False | Some n \<Rightarrow> \<not> is_ipv4 (net_addr n)) then (db, Inl NotIpv4Range)
      else if (case r6 of None \<Rightarrow> False | Some n \<Rightarrow> is_ipv4 (net_addr n)) then (db, Inl NotIpv6Range)
      else
        let c4 = Option.bind r4 (\<lambda>n. next_ip (net_addr n));
            c6 = Option.bind r6 (\<lambda>n. next_ip (net_addr n))
        in case and_then (broadcast_optional checks r4) (\<lambda>l4.
                  and_then (broadcast_optional checks r6) (\<lambda>l6. Inr (l4, l6))) of
             Inl e \<Rightarrow> (db, Inl e)
           | Inr (l4, l6) \<Rightarrow>
               let build = (\<lambda>c. \<lparr>inet4_range = r4, inet6_range = r6, persistent_cache = cache,
                     fr_state = \<lparr>current4 = fst c, current6 = snd c, last4 = l4, last6 = l6,
                       by_address = Map.empty, by_domain4 = Map.empty, by_domain6 = Map.empty\<rparr>\<rparr>)
               in case cache of
                    None \<Rightarrow> (db, Inr (build (c4, c6)))
                  | Some cache_id \<Rightarrow>
                      (case restore_position nc cache_id oks db r4 r6 c4 c6 of
                         (db', Inl e) \<Rightarrow> (db', Inl (StoreError e))
                       | (db', Inr c) \<Rightarrow> (db', Inr (build c))))"

definition fakeip_new ::
  "net_crate \<Rightarrow> bool \<Rightarrow> sqlite_db \<Rightarrow> net_value option \<Rightarrow> net_value option \<Rightarrow> sqlite_db \<times> (fakeip_error + fakeip_resolver)" where
  "fakeip_new nc checks db r4 r6 = fakeip_new_with_cache nc checks (True, True, True) db r4 r6 None"

subsection \<open>Mappings\<close>

definition fakeip_contains :: "net_crate \<Rightarrow> fakeip_resolver \<Rightarrow> ip_addr \<Rightarrow> bool" where
  "fakeip_contains nc r address \<longleftrightarrow>
     range_contains nc (inet4_range r) address \<or> range_contains nc (inet6_range r) address"

definition by_domain :: "bool \<Rightarrow> fakeip_state \<Rightarrow> string \<Rightarrow> ip_addr option" where
  "by_domain ipv6 s = (if ipv6 then by_domain6 s else by_domain4 s)"

definition set_domain :: "bool \<Rightarrow> (string \<Rightarrow> ip_addr option) \<Rightarrow> fakeip_state \<Rightarrow> fakeip_state" where
  "set_domain ipv6 m s = (if ipv6 then s\<lparr>by_domain6 := m\<rparr> else s\<lparr>by_domain4 := m\<rparr>)"

definition insert_mapping :: "fakeip_state \<Rightarrow> ip_addr \<Rightarrow> string \<Rightarrow> fakeip_state" where
  "insert_mapping s address domain =
     (let ipv6 = \<not> is_ipv4 address;
          s1 = s\<lparr>by_address := (by_address s)(address \<mapsto> domain)\<rparr>;
          s2 = (case by_address s address of
                  Some old_domain \<Rightarrow> set_domain ipv6 ((by_domain ipv6 s1)(old_domain := None)) s1
                | None \<Rightarrow> s1);
          s3 = set_domain ipv6 ((by_domain ipv6 s2)(domain \<mapsto> address)) s2
      in case by_domain ipv6 s2 domain of
           Some previous \<Rightarrow>
             if previous \<noteq> address \<and> by_address s3 previous = Some domain
             then s3\<lparr>by_address := (by_address s3)(previous := None)\<rparr> else s3
         | None \<Rightarrow> s3)"

subsection \<open>Allocation\<close>

definition family_range :: "bool \<Rightarrow> fakeip_resolver \<Rightarrow> net_value option" where
  "family_range ipv6 r = (if ipv6 then inet6_range r else inet4_range r)"

text \<open>The second branch of \<open>create\<close>: a stored address that is still inside the range of its family.\<close>

definition stored_address :: "net_crate \<Rightarrow> bool \<Rightarrow> sqlite_db \<Rightarrow> fakeip_resolver \<Rightarrow> string \<Rightarrow> bool \<Rightarrow> ip_addr option" where
  "stored_address nc ok db r domain ipv6 =
     (case persistent_cache r of
        None \<Rightarrow> None
      | Some cache_id \<Rightarrow>
          (case load_fakeip_by_domain cache_id ok db domain ipv6 of
             Inr (Some address) \<Rightarrow>
               if range_contains nc (family_range ipv6 r) address
               then Some address else None
           | _ \<Rightarrow> None))"

definition allocate_address :: "net_crate \<Rightarrow> fakeip_resolver \<Rightarrow> bool \<Rightarrow> fakeip_error + ip_addr" where
  "allocate_address nc r ipv6 =
     (let s = fr_state r;
          net = (family_range ipv6 r);
          current = (if ipv6 then current6 s else current4 s);
          final = (if ipv6 then last6 s else last4 s)
      in case net of
           None \<Rightarrow> Inl (MissingRange ipv6)
         | Some n \<Rightarrow>
             (case Option.bind current next_ip of
                None \<Rightarrow> Inl RangeExhausted
              | Some address \<Rightarrow>
                  if Some address = final \<or> \<not> net_contains nc n address then
                    (case Option.bind (next_ip (net_addr n)) next_ip of
                       None \<Rightarrow> Inl NoUsableAddress
                     | Some first \<Rightarrow> Inr first)
                  else Inr address))"

definition set_current :: "bool \<Rightarrow> ip_addr \<Rightarrow> fakeip_state \<Rightarrow> fakeip_state" where
  "set_current ipv6 address s = (if ipv6 then s\<lparr>current6 := Some address\<rparr> else s\<lparr>current4 := Some address\<rparr>)"

text \<open>\<open>let _ = ..\<close>: the outcome of a write is dropped, and a failed one changes nothing.\<close>

definition ignore_failure :: "sqlite_db \<Rightarrow> store_error + sqlite_db \<Rightarrow> sqlite_db" where
  "ignore_failure db result = (case result of Inl _ \<Rightarrow> db | Inr db' \<Rightarrow> db')"

definition persist_mapping ::
  "net_crate \<Rightarrow> bool \<Rightarrow> bool \<Rightarrow> sqlite_db \<Rightarrow> fakeip_resolver \<Rightarrow> ip_addr \<Rightarrow> string \<Rightarrow> sqlite_db" where
  "persist_mapping nc ok_save ok_meta db r address domain =
     (case persistent_cache r of
        None \<Rightarrow> db
      | Some cache_id \<Rightarrow>
          let db1 = ignore_failure db (save_fakeip cache_id ok_save db address domain)
          in ignore_failure db1 (save_fakeip_metadata nc cache_id ok_meta db1
               (resolver_metadata (inet4_range r) (inet6_range r) (current4 (fr_state r)) (current6 (fr_state r)))))"

definition fakeip_create ::
  "net_crate \<Rightarrow> bool \<times> bool \<times> bool \<Rightarrow> sqlite_db \<times> fakeip_resolver \<Rightarrow> string \<Rightarrow> bool
    \<Rightarrow> (sqlite_db \<times> fakeip_resolver) \<times> (fakeip_error + ip_addr)" where
  "fakeip_create nc oks w name ipv6 =
     (case (oks, w) of ((ok_load, ok_save, ok_meta), (db, r)) \<Rightarrow>
       let domain = fakeip_canonical_domain name; s = fr_state r
       in case by_domain ipv6 s domain of
            Some address \<Rightarrow> (w, Inr address)
          | None \<Rightarrow>
              (case stored_address nc ok_load db r domain ipv6 of
                 Some address \<Rightarrow> ((db, r\<lparr>fr_state := insert_mapping s address domain\<rparr>), Inr address)
               | None \<Rightarrow>
                   (case allocate_address nc r ipv6 of
                      Inl e \<Rightarrow> (w, Inl e)
                    | Inr address \<Rightarrow>
                        let r' = r\<lparr>fr_state := insert_mapping (set_current ipv6 address s) address domain\<rparr>
                        in ((persist_mapping nc ok_save ok_meta db r' address domain, r'), Inr address))))"

definition fakeip_lookup_domain ::
  "net_crate \<Rightarrow> bool \<Rightarrow> sqlite_db \<times> fakeip_resolver \<Rightarrow> ip_addr \<Rightarrow> (sqlite_db \<times> fakeip_resolver) \<times> string option" where
  "fakeip_lookup_domain nc ok w address =
     (case w of (db, r) \<Rightarrow>
       (case by_address (fr_state r) address of
          Some domain \<Rightarrow> (w, Some domain)
        | None \<Rightarrow>
            (case persistent_cache r of
               None \<Rightarrow> (w, None)
             | Some cache_id \<Rightarrow>
                 (case load_fakeip_by_address cache_id ok db address of
                    Inr (Some domain) \<Rightarrow>
                      if fakeip_contains nc r address
                      then ((db, r\<lparr>fr_state := insert_mapping (fr_state r) address domain\<rparr>), Some domain)
                      else (w, None)
                  | _ \<Rightarrow> (w, None)))))"

definition fakeip_reset :: "bool \<Rightarrow> sqlite_db \<times> fakeip_resolver \<Rightarrow> sqlite_db \<times> fakeip_resolver" where
  "fakeip_reset ok w =
     (case w of (db, r) \<Rightarrow>
       (case persistent_cache r of None \<Rightarrow> db | Some cache_id \<Rightarrow> ignore_failure db (clear_fakeip cache_id ok db),
        r\<lparr>fr_state := (fr_state r)\<lparr>by_address := Map.empty, by_domain4 := Map.empty, by_domain6 := Map.empty\<rparr>\<rparr>))"

subsection \<open>The resolver interface\<close>

definition apply_strategy :: "ip_addr list \<Rightarrow> domain_strategy \<Rightarrow> ip_addr list" where
  "apply_strategy addresses strategy =
     (case strategy of
        AsIs \<Rightarrow> addresses
      | PreferIpv4 \<Rightarrow> sort_key (\<lambda>a. if is_ipv4 a then 0 else 1 :: nat) addresses
      | PreferIpv6 \<Rightarrow> sort_key (\<lambda>a. if is_ipv4 a then 1 else 0 :: nat) addresses
      | Ipv4Only \<Rightarrow> filter is_ipv4 addresses
      | Ipv6Only \<Rightarrow> filter (\<lambda>a. \<not> is_ipv4 a) addresses)"

text \<open>The two calls of \<open>create\<close> in \<open>lookup\<close>; the first error ends the lookup.\<close>

definition create_if ::
  "net_crate \<Rightarrow> bool \<times> bool \<times> bool \<Rightarrow> bool \<Rightarrow> string \<Rightarrow> bool
    \<Rightarrow> (sqlite_db \<times> fakeip_resolver) \<times> (fakeip_error + ip_addr list) \<Rightarrow> (sqlite_db \<times> fakeip_resolver) \<times> (fakeip_error + ip_addr list)" where
  "create_if nc oks wanted name ipv6 acc =
     (case acc of
        (w, Inl e) \<Rightarrow> (w, Inl e)
      | (w, Inr addresses) \<Rightarrow>
          if wanted then
            (case fakeip_create nc oks w name ipv6 of
               (w', Inl e) \<Rightarrow> (w', Inl e)
             | (w', Inr address) \<Rightarrow> (w', Inr (addresses @ [address])))
          else (w, Inr addresses))"

definition fakeip_lookup ::
  "net_crate \<Rightarrow> bool \<times> bool \<times> bool \<Rightarrow> bool \<times> bool \<times> bool \<Rightarrow> sqlite_db \<times> fakeip_resolver \<Rightarrow> string \<Rightarrow> domain_strategy
    \<Rightarrow> (sqlite_db \<times> fakeip_resolver) \<times> (fakeip_error + ip_addr list)" where
  "fakeip_lookup nc oks4 oks6 w name strategy =
     (case create_if nc oks6 (strategy \<noteq> Ipv4Only \<and> inet6_range (snd w) \<noteq> None) name True
             (create_if nc oks4 (strategy \<noteq> Ipv6Only \<and> inet4_range (snd w) \<noteq> None) name False (w, Inr [])) of
        (w', Inl e) \<Rightarrow> (w', Inl e)
      | (w', Inr addresses) \<Rightarrow>
          let chosen = apply_strategy addresses strategy
          in (w', if chosen = [] then Inl NoFamily else Inr chosen))"

subsection \<open>Ranges\<close>

text \<open>
  The documented behaviour of \<open>IpNet::contains\<close>: same family, and the first \<open>prefix_len\<close> bits agree.
  A usable range is a network address with room for the reserved addresses: at most 30 prefix bits
  for IPv4 and 126 for IPv6.
\<close>

definition net_crate_ok :: "net_crate \<Rightarrow> bool" where
  "net_crate_ok nc \<longleftrightarrow> (\<forall>n a. net_contains nc n a \<longleftrightarrow>
     (case (net_addr n, a) of
        (V4 x, V4 y) \<Rightarrow> drop_bit (32 - net_prefix_len n) x = drop_bit (32 - net_prefix_len n) y
      | (V6 x, V6 y) \<Rightarrow> drop_bit (128 - net_prefix_len n) x = drop_bit (128 - net_prefix_len n) y
      | _ \<Rightarrow> False))"

definition usable_range :: "net_value option \<Rightarrow> bool" where
  "usable_range range_value \<longleftrightarrow> (case range_value of
     None \<Rightarrow> True
   | Some n \<Rightarrow>
       (case net_addr n of
          V4 x \<Rightarrow> net_prefix_len n \<le> 30 \<and> take_bit (32 - net_prefix_len n) x = 0
        | V6 x \<Rightarrow> net_prefix_len n \<le> 126 \<and> take_bit (128 - net_prefix_len n) x = 0))"

lemma wide_words:
  fixes x :: "'a::len word"
  assumes p: "p + 2 \<le> LENGTH('a)" and zero: "take_bit (LENGTH('a) - p) x = 0"
  defines "k \<equiv> LENGTH('a) - p" and "final \<equiv> x OR drop_bit p (- 1)"
  shows "x \<noteq> - 1" "x + 1 \<noteq> - 1" "drop_bit k (x + 1) = drop_bit k x" "drop_bit k (x + 1 + 1) = drop_bit k x"
    "x + 1 \<noteq> final" "x + 1 + 1 \<noteq> final" "drop_bit k c = drop_bit k x \<Longrightarrow> c \<noteq> final \<Longrightarrow> c \<noteq> - 1"
proof -
  have k: "2 \<le> k" "k \<le> LENGTH('a)" using p by (auto simp: k_def)
  have low: "\<not> bit x n" if "n < k" for n
    using zero that by (metis bit_0_eq bit_take_bit_iff bot_apply bot_bool_def k_def)
  have one: "x + 1 = x OR 1"
    by (rule disjunctive_add_eq_or, rule bit_word_eqI) (use low [of 0] k in \<open>auto simp: bit_simps intro!: gr0I\<close>)
  have "x + 2 = x OR 2"
    by (rule disjunctive_add_eq_or, rule bit_word_eqI) (use low [of 1] k in \<open>auto simp: bit_simps bit_2_iff\<close>)
  then have two: "x + 1 + 1 = x OR 2" by (simp add: add.assoc)
  have final: "bit final n \<longleftrightarrow> n < LENGTH('a) \<and> (bit x n \<or> n < k)" for n
    by (auto simp: final_def k_def bit_simps dest: bit_imp_le_length)
  have len: "0 < LENGTH('a)" "1 < LENGTH('a)" using k by auto
  show "x \<noteq> - 1" using low [of 0] k by auto
  have "\<not> bit (x + 1) 1" using low [of 1] k by (simp add: one bit_simps)
  moreover have "bit (- 1 :: 'a word) 1" "bit final 1" using len k final [of 1] by (auto simp: bit_simps)
  ultimately show "x + 1 \<noteq> - 1" "x + 1 \<noteq> final" by metis+
  have "\<not> bit (x + 1 + 1) 0" using low [of 0] k by (simp add: two bit_simps bit_2_iff)
  then show "x + 1 + 1 \<noteq> final" using len k final [of 0] by (metis bot_nat_0.not_eq_extremum k(1) less_le_trans numeral_2_eq_2 zero_less_Suc)
  show "drop_bit k (x + 1) = drop_bit k x" using k by (auto simp: one intro!: bit_word_eqI simp: bit_simps)
  show "drop_bit k (x + 1 + 1) = drop_bit k x" using k by (auto simp: two intro!: bit_word_eqI simp: bit_simps bit_2_iff)
  show "c \<noteq> - 1" if "drop_bit k c = drop_bit k x" "c \<noteq> final"
  proof
    assume c: "c = - 1"
    have "bit final n" if "n < LENGTH('a)" for n
    proof (cases "n < k")
      case False
      then have "bit (drop_bit k c) (n - k)" using that by (simp add: c bit_simps) linarith
      with \<open>drop_bit k c = drop_bit k x\<close> False that show ?thesis by (simp add: bit_simps final)
    qed (simp add: final that)
    then have "final = - 1" by (intro bit_word_eqI) (auto simp: bit_simps)
    with c \<open>c \<noteq> final\<close> show False by simp
  qed
qed

lemmas wide32 = wide_words [where 'a = 32, simplified]
lemmas wide128 = wide_words [where 'a = 128, simplified]

lemma contains_family: "net_crate_ok nc \<Longrightarrow> net_contains nc n a \<Longrightarrow> is_ipv4 a = is_ipv4 (net_addr n)"
  by (auto simp: net_crate_ok_def split: ip_addr.splits)

lemma usable_first:
  assumes "net_crate_ok nc" "usable_range (Some n)"
  obtains a b where "next_ip (net_addr n) = Some a" "next_ip a = Some b"
    "net_contains nc n a" "net_contains nc n b" "broadcast_address checks n \<noteq> Some a" "broadcast_address checks n \<noteq> Some b"
    "broadcast_address checks n \<noteq> None"
proof (cases "net_addr n")
  case (V4 x)
  with assms(2) have "net_prefix_len n \<le> 30" "take_bit (32 - net_prefix_len n) x = 0"
    by (auto simp: usable_range_def)
  note w = wide32 [OF this]
  show ?thesis
    using assms(1) V4 w \<open>net_prefix_len n \<le> 30\<close>
    by (intro that [of "V4 (x + 1)" "V4 (x + 1 + 1)"])
      (auto simp: net_crate_ok_def broadcast_address_def shift_right_max_def)
next
  case (V6 x)
  with assms(2) have "net_prefix_len n \<le> 126" "take_bit (128 - net_prefix_len n) x = 0"
    by (auto simp: usable_range_def)
  note w = wide128 [OF this]
  show ?thesis
    using assms(1) V6 w \<open>net_prefix_len n \<le> 126\<close>
    by (intro that [of "V6 (x + 1)" "V6 (x + 1 + 1)"])
      (auto simp: net_crate_ok_def broadcast_address_def shift_right_max_def)
qed

lemma usable_next:
  assumes "net_crate_ok nc" "usable_range (Some n)" "net_contains nc n c" "broadcast_address checks n \<noteq> Some c"
  shows "next_ip c \<noteq> None"
proof (cases "net_addr n")
  case (V4 x)
  with assms(2) have p: "net_prefix_len n \<le> 30" "take_bit (32 - net_prefix_len n) x = 0"
    by (auto simp: usable_range_def)
  obtain y where "c = V4 y" using assms(1,3) V4 by (cases c) (auto simp: net_crate_ok_def)
  with assms V4 p wide32(7) [OF p, of y] show ?thesis
    by (auto simp: net_crate_ok_def broadcast_address_def shift_right_max_def)
next
  case (V6 x)
  with assms(2) have p: "net_prefix_len n \<le> 126" "take_bit (128 - net_prefix_len n) x = 0"
    by (auto simp: usable_range_def)
  obtain y where "c = V6 y" using assms(1,3) V6 by (cases c) (auto simp: net_crate_ok_def)
  with assms V6 p wide128(7) [OF p, of y] show ?thesis
    by (auto simp: net_crate_ok_def broadcast_address_def shift_right_max_def)
qed

subsection \<open>The two directions agree\<close>

definition maps_inverse :: "fakeip_state \<Rightarrow> bool" where
  "maps_inverse s \<longleftrightarrow>
     (\<forall>a d. by_address s a = Some d \<longleftrightarrow> by_domain (\<not> is_ipv4 a) s d = Some a)
   \<and> (\<forall>ipv6 d a. by_domain ipv6 s d = Some a \<longrightarrow> ipv6 = (\<not> is_ipv4 a))"

lemma by_domain_set [simp]: "by_domain v (set_domain v' m s) = (if v = v' then m else by_domain v s)"
  by (simp add: by_domain_def set_domain_def)

lemma by_address_set [simp]: "by_address (set_domain v m s) = by_address s"
  by (simp add: set_domain_def)

lemma by_domain_address [simp]: "by_domain v (s\<lparr>by_address := m\<rparr>) = by_domain v s"
  by (simp add: by_domain_def)

lemma insert_mapping_domain:
  "by_domain v (insert_mapping s a d) e =
    (if v = is_ipv4 a then by_domain v s e
     else if e = d then Some a else if by_address s a = Some e then None else by_domain v s e)"
proof -
  have "by_domain v (insert_mapping s a d) =
      (if v = (\<not> is_ipv4 a)
       then (case by_address s a of None \<Rightarrow> by_domain v s | Some old \<Rightarrow> (by_domain v s)(old := None))(d \<mapsto> a)
       else by_domain v s)"
    by (simp add: insert_mapping_def Let_def split: option.split)
  then show ?thesis by (cases "by_address s a") auto
qed

lemma maps_inverseD:
  assumes "maps_inverse s"
  shows "by_domain v s d = Some a \<longleftrightarrow> v = (\<not> is_ipv4 a) \<and> by_address s a = Some d"
proof -
  have "by_address s a = Some d \<longleftrightarrow> by_domain (\<not> is_ipv4 a) s d = Some a"
    using assms unfolding maps_inverse_def by blast
  moreover have "by_domain v s d = Some a \<Longrightarrow> v = (\<not> is_ipv4 a)"
    using assms unfolding maps_inverse_def by blast
  ultimately show ?thesis by blast
qed

lemma insert_mapping_address:
  assumes "maps_inverse s"
  shows "by_address (insert_mapping s a d) x =
    (if x = a then Some d else if by_domain (\<not> is_ipv4 a) s d = Some x then None else by_address s x)"
proof -
  let ?v = "\<not> is_ipv4 a"
  let ?prev = "case by_address s a of None \<Rightarrow> by_domain ?v s d | Some old \<Rightarrow> ((by_domain ?v s)(old := None)) d"
  have step: "by_address (insert_mapping s a d) =
      (case ?prev of
         None \<Rightarrow> (by_address s)(a \<mapsto> d)
       | Some p \<Rightarrow> if p \<noteq> a \<and> ((by_address s)(a \<mapsto> d)) p = Some d
           then (by_address s)(a \<mapsto> d, p := None) else (by_address s)(a \<mapsto> d))"
    by (simp add: insert_mapping_def Let_def split: option.split)
  show ?thesis
  proof (cases "by_address s a = Some d")
    case True
    then have "by_domain ?v s d = Some a" using maps_inverseD [OF assms, of ?v d a] by simp
    with True show ?thesis by (simp add: step)
  next
    case False
    then have prev: "?prev = by_domain ?v s d" by (cases "by_address s a") auto
    show ?thesis
    proof (cases "by_domain ?v s d")
      case None
      then show ?thesis by (simp add: step prev)
    next
      case (Some p)
      then have "by_address s p = Some d" using maps_inverseD [OF assms, of ?v d p] by simp
      with Some False show ?thesis unfolding step prev by (cases "p = a") auto
    qed
  qed
qed

lemma maps_inverseI:
  assumes "\<And>v d a. by_domain v s d = Some a \<longleftrightarrow> v = (\<not> is_ipv4 a) \<and> by_address s a = Some d"
  shows "maps_inverse s"
  unfolding maps_inverse_def assms by blast

lemma maps_inverse_insert:
  assumes "maps_inverse s"
  shows "maps_inverse (insert_mapping s a d)"
proof (rule maps_inverseI)
  fix v e x
  note inv = maps_inverseD [OF assms]
  have "by_domain v (insert_mapping s a d) e = Some x \<longleftrightarrow>
      (if v = is_ipv4 a then by_domain v s e = Some x
       else if e = d then a = x else by_address s a \<noteq> Some e \<and> by_domain v s e = Some x)"
    by (simp add: insert_mapping_domain)
  moreover have "by_address (insert_mapping s a d) x = Some e \<longleftrightarrow>
      (if x = a then d = e else by_domain (\<not> is_ipv4 a) s d \<noteq> Some x \<and> by_address s x = Some e)"
    by (simp add: insert_mapping_address [OF assms])
  ultimately show "by_domain v (insert_mapping s a d) e = Some x \<longleftrightarrow>
      v = (\<not> is_ipv4 x) \<and> by_address (insert_mapping s a d) x = Some e"
    unfolding inv [of v e x] inv [of "\<not> is_ipv4 a" d x]
    using inv [of v e x] inv [of v e a]
    by (cases "x = a"; cases "e = d"; cases "v = is_ipv4 a") auto
qed

lemma insert_mapping_position [simp]:
  "current4 (insert_mapping s a d) = current4 s" "current6 (insert_mapping s a d) = current6 s"
  "last4 (insert_mapping s a d) = last4 s" "last6 (insert_mapping s a d) = last6 s"
  by (auto simp: insert_mapping_def Let_def set_domain_def split: option.split)

lemma set_current_maps [simp]:
  "by_address (set_current v a s) = by_address s" "by_domain w (set_current v a s) = by_domain w s"
  "last4 (set_current v a s) = last4 s" "last6 (set_current v a s) = last6 s"
  by (auto simp: set_current_def by_domain_def)

lemma maps_inverse_current [simp]: "maps_inverse (set_current v a s) = maps_inverse s"
  by (simp add: maps_inverse_def)

subsection \<open>Every reachable resolver\<close>

definition ranges_ok :: "fakeip_resolver \<Rightarrow> bool" where
  "ranges_ok r \<longleftrightarrow> usable_range (inet4_range r) \<and> usable_range (inet6_range r)
   \<and> (\<forall>ipv6 n. family_range ipv6 r = Some n \<longrightarrow> is_ipv4 (net_addr n) = (\<not> ipv6))"

definition fakeip_wf :: "net_crate \<Rightarrow> fakeip_resolver \<Rightarrow> bool" where
  "fakeip_wf nc r \<longleftrightarrow> ranges_ok r \<and> maps_inverse (fr_state r)
   \<and> (\<forall>a d. by_address (fr_state r) a = Some d \<longrightarrow> range_contains nc (family_range (\<not> is_ipv4 a) r) a)"

lemma family_range_state [simp]: "family_range v (r\<lparr>fr_state := s\<rparr>) = family_range v r"
  by (simp add: family_range_def)

lemma ranges_ok_state [simp]: "ranges_ok (r\<lparr>fr_state := s\<rparr>) = ranges_ok r"
  by (simp add: ranges_ok_def)

lemma in_range_family:
  assumes "net_crate_ok nc" "ranges_ok r" "range_contains nc (family_range ipv6 r) a"
  shows "ipv6 = (\<not> is_ipv4 a)"
  using assms contains_family [OF assms(1)]
  by (auto simp: range_contains_def ranges_ok_def split: option.splits)

lemma contains_in_range:
  assumes "net_crate_ok nc" "ranges_ok r"
  shows "fakeip_contains nc r a \<longleftrightarrow> range_contains nc (family_range (\<not> is_ipv4 a) r) a"
proof -
  have "fakeip_contains nc r a \<longleftrightarrow> (\<exists>ipv6. range_contains nc (family_range ipv6 r) a)"
    unfolding fakeip_contains_def family_range_def by (auto split: if_splits)
  with in_range_family [OF assms] show ?thesis by blast
qed

lemma usable_family: "ranges_ok r \<Longrightarrow> usable_range (family_range ipv6 r)"
  by (simp add: ranges_ok_def family_range_def)

lemma allocated_in_range:
  assumes "net_crate_ok nc" "ranges_ok r" "allocate_address nc r ipv6 = Inr a"
  shows "range_contains nc (family_range ipv6 r) a"
proof -
  obtain n where n: "family_range ipv6 r = Some n"
    using assms(3) by (auto simp: allocate_address_def Let_def split: option.splits)
  with assms(2) usable_family have "usable_range (Some n)" by metis
  from usable_first [OF assms(1) this] obtain b c where
    "next_ip (net_addr n) = Some b" "next_ip b = Some c" "net_contains nc n c" by metis
  with n assms(3) show ?thesis
    by (auto simp: allocate_address_def Let_def range_contains_def split: option.splits if_splits)
qed

text \<open>A mapping that \<open>create\<close> or \<open>lookup_domain\<close> adds lies in the range of its family.\<close>

lemma fakeip_wf_insert:
  assumes "fakeip_wf nc r" "range_contains nc (family_range (\<not> is_ipv4 a) r) a" "maps_inverse s"
    and "by_address s = by_address (fr_state r)"
  shows "fakeip_wf nc (r\<lparr>fr_state := insert_mapping s a d\<rparr>)"
  using assms maps_inverse_insert [OF assms(3)]
  by (auto simp: fakeip_wf_def insert_mapping_address split: if_splits)

lemma stored_in_range:
  "stored_address nc ok db r d ipv6 = Some a \<Longrightarrow> range_contains nc (family_range ipv6 r) a"
  by (auto simp: stored_address_def split: option.splits sum.splits if_splits)

lemma create_cases:
  assumes "fakeip_create nc (ok_load, ok_save, ok_meta) (db, r) name ipv6 = ((db', r'), result)"
  defines "d \<equiv> fakeip_canonical_domain name" and "s \<equiv> fr_state r"
  obtains
    (known) a where "by_domain ipv6 s d = Some a" "db' = db" "r' = r" "result = Inr a"
  | (stored) a where "by_domain ipv6 s d = None" "stored_address nc ok_load db r d ipv6 = Some a"
      "db' = db" "r' = r\<lparr>fr_state := insert_mapping s a d\<rparr>" "result = Inr a"
  | (failed) e where "allocate_address nc r ipv6 = Inl e" "db' = db" "r' = r" "result = Inl e"
  | (fresh) a where "by_domain ipv6 s d = None" "stored_address nc ok_load db r d ipv6 = None"
      "allocate_address nc r ipv6 = Inr a"
      "r' = r\<lparr>fr_state := insert_mapping (set_current ipv6 a s) a d\<rparr>"
      "db' = persist_mapping nc ok_save ok_meta db r' a d" "result = Inr a"
proof (cases "by_domain ipv6 s d")
  case (Some a)
  with assms show ?thesis by (intro known) (auto simp: fakeip_create_def Let_def)
next
  case unknown: None
  show ?thesis
  proof (cases "stored_address nc ok_load db r d ipv6")
    case (Some a)
    with assms unknown show ?thesis by (intro stored) (auto simp: fakeip_create_def Let_def)
  next
    case None
    show ?thesis
    proof (cases "allocate_address nc r ipv6")
      case (Inl e)
      with None assms unknown show ?thesis by (intro failed [of e]) (auto simp: fakeip_create_def Let_def)
    next
      case (Inr a)
      with None assms unknown show ?thesis by (intro fresh [of a]) (auto simp: fakeip_create_def Let_def)
    qed
  qed
qed

datatype fakeip_event =
    Create "bool \<times> bool \<times> bool" string bool
  | LookupDomain bool ip_addr
  | ResetAll bool
  | OtherHandle sqlite_db

fun fakeip_step :: "net_crate \<Rightarrow> fakeip_event \<Rightarrow> sqlite_db \<times> fakeip_resolver \<Rightarrow> sqlite_db \<times> fakeip_resolver" where
  "fakeip_step nc (Create oks name ipv6) w = fst (fakeip_create nc oks w name ipv6)"
| "fakeip_step nc (LookupDomain ok a) w = fst (fakeip_lookup_domain nc ok w a)"
| "fakeip_step nc (ResetAll ok) w = fakeip_reset ok w"
| "fakeip_step nc (OtherHandle db) w = (db, snd w)"

lemma fakeip_wf_create:
  assumes "net_crate_ok nc" "fakeip_wf nc r" "fakeip_create nc oks (db, r) name ipv6 = ((db', r'), result)"
  shows "fakeip_wf nc r'"
proof -
  obtain l sv mt where oks: "oks = (l, sv, mt)" using prod_cases3 by blast
  have ok: "ranges_ok r" "maps_inverse (fr_state r)" using assms(2) by (auto simp: fakeip_wf_def)
  have ins: "fakeip_wf nc (r\<lparr>fr_state := insert_mapping s a d\<rparr>)"
    if "range_contains nc (family_range ipv6 r) a" "s = fr_state r \<or> s = set_current ipv6 a (fr_state r)" for s a d
    using that ok in_range_family [OF assms(1) ok(1) that(1)] by (intro fakeip_wf_insert [OF assms(2)]) auto
  from assms(3) [unfolded oks] show ?thesis
    by (cases rule: create_cases)
      (use assms(2) ins stored_in_range allocated_in_range [OF assms(1) ok(1)] in auto)
qed

lemma fakeip_wf_lookup:
  assumes "net_crate_ok nc" "fakeip_wf nc r" "fakeip_lookup_domain nc ok (db, r) a = ((db', r'), result)"
  shows "fakeip_wf nc r'"
proof -
  have ok: "ranges_ok r" "maps_inverse (fr_state r)" using assms(2) by (auto simp: fakeip_wf_def)
  have "fakeip_wf nc (r\<lparr>fr_state := insert_mapping (fr_state r) a d\<rparr>)" if "fakeip_contains nc r a" for d
    using that ok contains_in_range [OF assms(1) ok(1)] by (intro fakeip_wf_insert [OF assms(2)]) auto
  with assms(2,3) show ?thesis
    by (auto simp: fakeip_lookup_domain_def split: option.splits sum.splits if_splits)
qed

lemma fakeip_wf_empty:
  assumes "ranges_ok r" "by_address (fr_state r) = Map.empty" "by_domain4 (fr_state r) = Map.empty"
    "by_domain6 (fr_state r) = Map.empty"
  shows "fakeip_wf nc r"
  using assms by (auto simp: fakeip_wf_def maps_inverse_def by_domain_def)

lemma fakeip_wf_step:
  assumes "net_crate_ok nc" "fakeip_wf nc (snd w)"
  shows "fakeip_wf nc (snd (fakeip_step nc e w))"
proof -
  obtain db r where w: "w = (db, r)" by fastforce
  show ?thesis
  proof (cases e)
    case (Create oks name ipv6)
    then show ?thesis using assms w fakeip_wf_create [OF assms(1), of r oks db name ipv6]
      by (metis fakeip_step.simps(1) prod.collapse snd_conv)
  next
    case (LookupDomain ok a)
    then show ?thesis using assms w fakeip_wf_lookup [OF assms(1), of r ok db a]
      by (metis fakeip_step.simps(2) prod.collapse snd_conv)
  next
    case (ResetAll ok)
    then show ?thesis using assms w
      by (auto simp: fakeip_reset_def fakeip_wf_def [of nc r] intro!: fakeip_wf_empty)
  qed (use assms w in auto)
qed

lemma new_with_cache_fields:
  assumes "fakeip_new_with_cache nc checks oks db r4 r6 cache = (db', Inr r)"
  shows "inet4_range r = r4" "inet6_range r = r6" "persistent_cache r = cache"
    "by_address (fr_state r) = Map.empty" "by_domain4 (fr_state r) = Map.empty" "by_domain6 (fr_state r) = Map.empty"
    "\<And>n. r4 = Some n \<Longrightarrow> is_ipv4 (net_addr n)" "\<And>n. r6 = Some n \<Longrightarrow> \<not> is_ipv4 (net_addr n)"
    "broadcast_optional checks r4 = Inr (last4 (fr_state r))" "broadcast_optional checks r6 = Inr (last6 (fr_state r))"
  using assms
  by (auto simp: fakeip_new_with_cache_def Let_def and_then_Inr split: if_splits option.splits sum.splits prod.splits)

lemma fakeip_wf_new:
  assumes "fakeip_new_with_cache nc checks oks db r4 r6 cache = (db', Inr r)" "usable_range r4" "usable_range r6"
  shows "fakeip_wf nc r"
proof (rule fakeip_wf_empty)
  note f = new_with_cache_fields [OF assms(1)]
  show "ranges_ok r" using assms(2,3) f(1,2,7,8) by (auto simp: ranges_ok_def family_range_def)
qed (use new_with_cache_fields [OF assms(1)] in auto)

definition fakeip_start ::
  "net_crate \<Rightarrow> bool \<Rightarrow> bool \<times> bool \<times> bool \<Rightarrow> sqlite_db \<Rightarrow> net_value option \<Rightarrow> net_value option \<Rightarrow> string option
    \<Rightarrow> (sqlite_db \<times> fakeip_resolver) option" where
  "fakeip_start nc checks oks db r4 r6 cache =
     (case fakeip_new_with_cache nc checks oks db r4 r6 cache of (db', Inr r) \<Rightarrow> Some (db', r) | _ \<Rightarrow> None)"

interpretation fakeip_runs: event_system "fakeip_start nc checks oks db r4 r6 cache"
  "\<lambda>e. map_option (fakeip_step nc e)"
  "\<lambda>w. net_crate_ok nc \<and> usable_range r4 \<and> usable_range r6 \<longrightarrow> pred_option (\<lambda>w. fakeip_wf nc (snd w)) w"
  for nc checks oks db r4 r6 cache
proof unfold_locales
  show "net_crate_ok nc \<and> usable_range r4 \<and> usable_range r6
      \<longrightarrow> pred_option (\<lambda>w. fakeip_wf nc (snd w)) (fakeip_start nc checks oks db r4 r6 cache)"
    using fakeip_wf_new [of nc checks oks db r4 r6 cache]
    by (auto simp: fakeip_start_def split: prod.splits sum.splits)
next
  fix s :: "(sqlite_db \<times> fakeip_resolver) option" and e
  assume "net_crate_ok nc \<and> usable_range r4 \<and> usable_range r6 \<longrightarrow> pred_option (\<lambda>w. fakeip_wf nc (snd w)) s"
  then show "net_crate_ok nc \<and> usable_range r4 \<and> usable_range r6
      \<longrightarrow> pred_option (\<lambda>w. fakeip_wf nc (snd w)) (map_option (fakeip_step nc e) s)"
    by (cases s) (auto intro: fakeip_wf_step)
qed

lemma fold_map_option: "fold (\<lambda>e. map_option (f e)) es (Some w) = Some (fold f es w)"
  by (induction es arbitrary: w) auto

lemma reachable_wf:
  assumes "net_crate_ok nc" "usable_range r4" "usable_range r6"
    and "fakeip_new_with_cache nc checks oks db r4 r6 cache = (db0, Inr r0)"
  shows "fakeip_wf nc (snd (fold (fakeip_step nc) es (db0, r0)))"
  using fakeip_runs.invar_reached [of nc r4 r6 es checks oks db cache] assms
  by (simp add: fakeip_start_def fold_map_option)


text \<open>The crate's functions on one concrete range, for the worked examples.\<close>

definition example_range :: net_value where
  "example_range = \<lparr>net_addr = V4 0xC6120000, net_prefix_len = 30\<rparr>"

definition example_crate :: net_crate where
  "example_crate = \<lparr>net_display = (\<lambda>_. ''198.18.0.0/30''), net_parse = (\<lambda>_. Some example_range),
     net_contains = (\<lambda>n a. case (net_addr n, a) of
        (V4 x, V4 y) \<Rightarrow> drop_bit (32 - net_prefix_len n) x = drop_bit (32 - net_prefix_len n) y
      | (V6 x, V6 y) \<Rightarrow> drop_bit (128 - net_prefix_len n) x = drop_bit (128 - net_prefix_len n) y
      | _ \<Rightarrow> False)\<rparr>"

lemma example_crate_ok: "net_crate_ok example_crate"
  by (simp add: net_crate_ok_def example_crate_def)

lemma example_usable: "usable_range (Some example_range)" "usable_range None"
  by (simp_all add: usable_range_def example_range_def)

definition example_resolver :: fakeip_resolver where
  "example_resolver = \<lparr>inet4_range = Some example_range, inet6_range = None, persistent_cache = None,
     fr_state = \<lparr>current4 = Some (V4 0xC6120001), current6 = None, last4 = Some (V4 0xC6120003), last6 = None,
       by_address = Map.empty, by_domain4 = Map.empty, by_domain6 = Map.empty\<rparr>\<rparr>"

lemma example_new:
  "fakeip_new_with_cache example_crate True (True, True, True) open_new (Some example_range) None None =
    (open_new, Inr example_resolver)"
  by (simp add: fakeip_new_with_cache_def example_resolver_def example_range_def broadcast_optional_def
      broadcast_address_def shift_right_max_def Let_def mask_eq_exp_minus_1)



subsection \<open>Serving a name\<close>

text \<open>The allocator position: inside the range and short of its last address.\<close>

definition family_current :: "bool \<Rightarrow> fakeip_resolver \<Rightarrow> ip_addr option" where
  "family_current ipv6 r = (if ipv6 then current6 (fr_state r) else current4 (fr_state r))"

definition family_last :: "bool \<Rightarrow> fakeip_resolver \<Rightarrow> ip_addr option" where
  "family_last ipv6 r = (if ipv6 then last6 (fr_state r) else last4 (fr_state r))"

definition position_ok :: "net_crate \<Rightarrow> bool \<Rightarrow> fakeip_resolver \<Rightarrow> bool" where
  "position_ok nc checks r \<longleftrightarrow> persistent_cache r = None \<and>
     (\<forall>ipv6 n. family_range ipv6 r = Some n \<longrightarrow> family_last ipv6 r = broadcast_address checks n
       \<and> (\<exists>c. family_current ipv6 r = Some c \<and> net_contains nc n c \<and> family_last ipv6 r \<noteq> Some c))"

lemma allocate_address_family:
  "allocate_address nc r ipv6 =
     (case family_range ipv6 r of
        None \<Rightarrow> Inl (MissingRange ipv6)
      | Some n \<Rightarrow>
          (case Option.bind (family_current ipv6 r) next_ip of
             None \<Rightarrow> Inl RangeExhausted
           | Some address \<Rightarrow>
               if Some address = family_last ipv6 r \<or> \<not> net_contains nc n address then
                 (case Option.bind (next_ip (net_addr n)) next_ip of
                    None \<Rightarrow> Inl NoUsableAddress
                  | Some first \<Rightarrow> Inr first)
               else Inr address))"
  unfolding allocate_address_def family_current_def family_last_def Let_def by (rule refl)

lemma allocate_address_total:
  assumes "net_crate_ok nc" "ranges_ok r" "position_ok nc checks r" "family_range ipv6 r = Some n"
  obtains a where "allocate_address nc r ipv6 = Inr a" "net_contains nc n a" "family_last ipv6 r \<noteq> Some a"
proof -
  have usable: "usable_range (Some n)" using assms(2,4) usable_family by metis
  obtain c where c: "family_current ipv6 r = Some c" "net_contains nc n c" "family_last ipv6 r \<noteq> Some c"
      and final: "family_last ipv6 r = broadcast_address checks n"
    using assms(3,4) unfolding position_ok_def by blast
  obtain a b where first: "next_ip (net_addr n) = Some a" "next_ip a = Some b" "net_contains nc n b"
      "broadcast_address checks n \<noteq> Some b"
    using usable_first [OF assms(1) usable] by metis
  obtain x where x: "next_ip c = Some x" using usable_next [OF assms(1) usable c(2)] c(3) final by auto
  show ?thesis
  proof (cases "Some x = family_last ipv6 r \<or> \<not> net_contains nc n x")
    case True
    with first c x assms(4) final show ?thesis by (intro that [of b]) (auto simp: allocate_address_family)
  next
    case False
    with c x assms(4) show ?thesis by (intro that [of x]) (auto simp: allocate_address_family)
  qed
qed

lemma position_fields [simp]:
  "family_current v (r\<lparr>fr_state := insert_mapping s a d\<rparr>) = (if v then current6 s else current4 s)"
  "family_last v (r\<lparr>fr_state := insert_mapping s a d\<rparr>) = (if v then last6 s else last4 s)"
  by (simp_all add: family_current_def family_last_def)

lemma position_set_current:
  assumes "position_ok nc checks r" "family_range ipv6 r = Some n" "net_contains nc n a" "family_last ipv6 r \<noteq> Some a"
  shows "position_ok nc checks (r\<lparr>fr_state := insert_mapping (set_current ipv6 a (fr_state r)) a d\<rparr>)"
  using assms
  by (auto simp: position_ok_def set_current_def family_current_def family_last_def split: if_splits)

lemma position_step:
  assumes "net_crate_ok nc" "fakeip_wf nc (snd w)" "position_ok nc checks (snd w)"
  shows "position_ok nc checks (snd (fakeip_step nc e w))"
proof -
  obtain db r where w: "w = (db, r)" by fastforce
  have ok: "ranges_ok r" "persistent_cache r = None" using assms(2,3) w by (auto simp: fakeip_wf_def position_ok_def)
  show ?thesis
  proof (cases e)
    case (Create oks name ipv6)
    obtain l sv mt where oks: "oks = (l, sv, mt)" using prod_cases3 by blast
    obtain db' r' result where step: "fakeip_create nc (l, sv, mt) (db, r) name ipv6 = ((db', r'), result)"
      using prod.exhaust by metis
    from step have "position_ok nc checks r'"
    proof (cases rule: create_cases)
      case (fresh a)
      then obtain n where n: "family_range ipv6 r = Some n"
        by (auto simp: allocate_address_family split: option.splits)
      obtain b where "allocate_address nc r ipv6 = Inr b" "net_contains nc n b" "family_last ipv6 r \<noteq> Some b"
        using allocate_address_total [OF assms(1) ok(1) _ n] assms(3) w by auto
      with fresh n assms(3) w show ?thesis by (auto intro: position_set_current)
    qed (use assms(3) w ok in \<open>auto simp: stored_address_def\<close>)
    with Create oks step w show ?thesis by simp
  next
    case (LookupDomain ok a)
    with assms(3) w ok show ?thesis by (auto simp: fakeip_lookup_domain_def split: option.splits)
  next
    case (ResetAll ok)
    moreover have "family_current v (snd (fakeip_reset ok w)) = family_current v r"
        "family_last v (snd (fakeip_reset ok w)) = family_last v r"
        "family_range v (snd (fakeip_reset ok w)) = family_range v r" for v
      by (simp_all add: w fakeip_reset_def family_current_def family_last_def)
    moreover have "persistent_cache (snd (fakeip_reset ok w)) = persistent_cache r" by (simp add: w fakeip_reset_def)
    ultimately have "position_ok nc checks (snd (fakeip_reset ok w)) = position_ok nc checks r"
      unfolding position_ok_def by simp
    with ResetAll assms(3) w show ?thesis by simp
  qed (use assms(3) w in auto)
qed

lemma position_new:
  assumes "net_crate_ok nc" "usable_range r4" "usable_range r6"
    and "fakeip_new nc checks db r4 r6 = (db0, Inr r0)"
  shows "position_ok nc checks r0"
proof -
  note new = assms(4) [unfolded fakeip_new_def]
  note f = new_with_cache_fields [OF new]
  have usable: "usable_range (family_range v r0)" for v using assms(2,3) f(1,2) by (simp add: family_range_def)
  have cur: "family_current v r0 = Option.bind (family_range v r0) (\<lambda>n. next_ip (net_addr n))" for v
    using new by (auto simp: fakeip_new_with_cache_def Let_def family_current_def family_range_def
        split: if_splits sum.splits prod.splits)
  have final: "broadcast_optional checks (family_range v r0) = Inr (family_last v r0)" for v
    using f(1,2,9,10) by (simp add: family_range_def family_last_def)
  have "family_last v r0 = broadcast_address checks n
      \<and> (\<exists>c. family_current v r0 = Some c \<and> net_contains nc n c \<and> family_last v r0 \<noteq> Some c)"
    if n: "family_range v r0 = Some n" for v n
  proof -
    have u: "usable_range (Some n)" using usable [of v] n by simp
    have "family_last v r0 = broadcast_address checks n"
      using final [of v] n by (auto simp: broadcast_optional_def split: option.splits)
    moreover obtain c where "next_ip (net_addr n) = Some c" "net_contains nc n c" "broadcast_address checks n \<noteq> Some c"
      using usable_first [OF assms(1) u] by metis
    ultimately show ?thesis using cur [of v] n by auto
  qed
  with f(3) show ?thesis unfolding position_ok_def by blast
qed

lemma reachable_position:
  assumes "net_crate_ok nc" "usable_range r4" "usable_range r6" "fakeip_new nc checks db r4 r6 = (db0, Inr r0)"
  shows "position_ok nc checks (snd (fold (fakeip_step nc) es (db0, r0)))"
proof (induction es rule: rev_induct)
  case Nil
  then show ?case using position_new [OF assms] by simp
next
  case (snoc e es)
  have "fakeip_wf nc (snd (fold (fakeip_step nc) es (db0, r0)))"
    using reachable_wf [OF assms(1-3) assms(4) [unfolded fakeip_new_def]] .
  with snoc assms(1) show ?case by (simp add: position_step)
qed

lemma create_known:
  "by_domain ipv6 (fr_state (snd w)) (fakeip_canonical_domain name) = Some a \<Longrightarrow>
    fakeip_create nc oks w name ipv6 = (w, Inr a)"
  by (cases w; cases oks) (simp add: fakeip_create_def Let_def)

lemma lookup_known: "by_address (fr_state (snd w)) a = Some d \<Longrightarrow> fakeip_lookup_domain nc ok w a = (w, Some d)"
  by (cases w) (simp add: fakeip_lookup_domain_def)

lemma create_installs:
  assumes "fakeip_create nc oks w name ipv6 = (w', Inr a)" "net_crate_ok nc" "fakeip_wf nc (snd w)"
  shows "by_domain ipv6 (fr_state (snd w')) (fakeip_canonical_domain name) = Some a"
    "range_contains nc (family_range ipv6 (snd w)) a" "fakeip_wf nc (snd w')"
proof -
  obtain l sv mt db r db' r' where eq: "oks = (l, sv, mt)" "w = (db, r)" "w' = (db', r')"
    by (metis prod.collapse)
  have ok: "ranges_ok r" "maps_inverse (fr_state r)" using assms(3) eq by (auto simp: fakeip_wf_def)
  show "fakeip_wf nc (snd w')" using fakeip_wf_create assms eq by auto
  show "range_contains nc (family_range ipv6 (snd w)) a"
    using assms(1) [unfolded eq]
  proof (cases rule: create_cases)
    case (known b)
    then show ?thesis using assms(3) ok maps_inverseD [OF ok(2)] eq by (auto simp: fakeip_wf_def)
  qed (use stored_in_range allocated_in_range [OF assms(2) ok(1)] eq in auto)
  then have fam: "is_ipv4 a = (\<not> ipv6)" using in_range_family [OF assms(2) ok(1)] eq by auto
  show "by_domain ipv6 (fr_state (snd w')) (fakeip_canonical_domain name) = Some a"
    using assms(1) [unfolded eq] by (cases rule: create_cases) (use fam in \<open>auto simp: insert_mapping_domain eq\<close>)
qed

text \<open>
  Property C29. Serving a name. A resolver without a store over usable ranges never runs out: after
  any run of operations, \<open>create\<close> for a configured family returns an address of that family inside
  the range. From then on, whatever the store does, the same name in any letter case and with any
  trailing dots gets the same address without a change of state, and looking the address up returns
  the lower-case name without trailing dots.
\<close>

theorem fakeip_create_serves:
  assumes "net_crate_ok nc" "usable_range r4" "usable_range r6"
    and "fakeip_new nc checks db r4 r6 = (db0, Inr r0)"
    and "fold (fakeip_step nc) es (db0, r0) = w" "family_range ipv6 r0 \<noteq> None"
  shows "\<exists>w' a. fakeip_create nc oks w name ipv6 = (w', Inr a)
    \<and> is_ipv4 a = (\<not> ipv6) \<and> fakeip_contains nc (snd w') a
    \<and> (\<forall>ok. fakeip_lookup_domain nc ok w' a = (w', Some (fakeip_canonical_domain name)))
    \<and> (\<forall>oks' name'. fakeip_canonical_domain name' = fakeip_canonical_domain name
        \<longrightarrow> fakeip_create nc oks' w' name' ipv6 = (w', Inr a))"
proof -
  have wf: "fakeip_wf nc (snd w)" and pos: "position_ok nc checks (snd w)"
    using reachable_wf [OF assms(1-3) assms(4) [unfolded fakeip_new_def], of es]
      reachable_position [OF assms(1-4), of es] assms(5) by auto
  have "family_range v (snd (fakeip_step nc e u)) = family_range v (snd u)" for v e u
    by (cases u; cases e)
      (auto simp: fakeip_create_def fakeip_lookup_domain_def fakeip_reset_def Let_def split: option.splits sum.splits)
  then have "family_range v (snd (fold (fakeip_step nc) es u)) = family_range v (snd u)" for v u
    by (induction es arbitrary: u) auto
  with assms(5,6) obtain n where n: "family_range ipv6 (snd w) = Some n" by auto
  obtain w' res where create: "fakeip_create nc oks w name ipv6 = (w', res)" by fastforce
  obtain l sv mt dbw rw db' r' where eq: "oks = (l, sv, mt)" "w = (dbw, rw)" "w' = (db', r')"
    by (metis prod.collapse)
  have "\<exists>a. res = Inr a"
    using create [unfolded eq]
  proof (cases rule: create_cases)
    case (failed e)
    with allocate_address_total [OF assms(1) _ pos n] wf eq show ?thesis by (auto simp: fakeip_wf_def)
  qed auto
  then obtain a where res: "res = Inr a" ..
  note inst = create_installs [OF create [unfolded res] assms(1) wf]
  have inv: "maps_inverse (fr_state (snd w'))" "ranges_ok (snd w')" using inst(3) by (auto simp: fakeip_wf_def)
  then have fam: "is_ipv4 a = (\<not> ipv6)" "by_address (fr_state (snd w')) a = Some (fakeip_canonical_domain name)"
    using maps_inverseD [OF inv(1)] inst(1) by auto
  then have "fakeip_contains nc (snd w') a"
    using inst(3) contains_in_range [OF assms(1) inv(2)] by (auto simp: fakeip_wf_def)
  with fam create res inst(1) show ?thesis by (auto simp: lookup_known create_known)
qed

theorem fakeip_create_serves_witness:
  "\<exists>w a. fakeip_create example_crate (True, True, True) (open_new, example_resolver) ''other.test'' False = (w, Inr a)
    \<and> is_ipv4 a \<and> fakeip_create example_crate (False, False, False) w ''OTHER.test.'' False = (w, Inr a)"
proof -
  have "fakeip_new example_crate True open_new (Some example_range) None = (open_new, Inr example_resolver)"
    by (simp add: fakeip_new_def example_new)
  moreover have "fakeip_canonical_domain ''OTHER.test.'' = fakeip_canonical_domain ''other.test''" by code_simp
  ultimately show ?thesis
    using fakeip_create_serves [OF example_crate_ok example_usable, of True open_new open_new example_resolver "[]"
        "(open_new, example_resolver)" False "(True, True, True)" "''other.test''"]
    by (fastforce simp: family_range_def example_resolver_def)
qed

subsection \<open>Surviving a restart\<close>






















text \<open>
  A range of two addresses has no address left after the two reserved ones, and \<open>create\<close> hands out
  the first address behind the range, which \<open>contains\<close> then does not recognise.
\<close>

lemma narrow_range_escapes:
  defines "n \<equiv> \<lparr>net_addr = V4 0xC6120000, net_prefix_len = 31\<rparr>"
  shows "\<exists>r w. fakeip_new example_crate True open_new (Some n) None = (open_new, Inr r)
    \<and> fakeip_create example_crate (True, True, True) (open_new, r) ''example.com'' False = (w, Inr (V4 0xC6120002))
    \<and> \<not> fakeip_contains example_crate (snd w) (V4 0xC6120002)"
proof -
  let ?r = "\<lparr>inet4_range = Some n, inet6_range = None, persistent_cache = None,
     fr_state = \<lparr>current4 = Some (V4 0xC6120001), current6 = None, last4 = Some (V4 0xC6120001), last6 = None,
       by_address = Map.empty, by_domain4 = Map.empty, by_domain6 = Map.empty\<rparr>\<rparr>"
  have "fakeip_new example_crate True open_new (Some n) None = (open_new, Inr ?r)"
    by (simp add: fakeip_new_def fakeip_new_with_cache_def n_def broadcast_optional_def
        broadcast_address_def shift_right_max_def Let_def mask_eq_exp_minus_1)
  moreover have "allocate_address example_crate ?r False = Inr (V4 0xC6120002)" unfolding n_def by code_simp
  moreover have "\<not> range_contains example_crate (Some n) (V4 0xC6120002)" unfolding n_def by code_simp
  ultimately show ?thesis
    by (auto simp: fakeip_create_def Let_def by_domain_def stored_address_def fakeip_contains_def range_contains_def)
qed

text \<open>A range of one address cannot be used at all: with overflow checks the constructor panics.\<close>

lemma single_address_range_panics:
  "fakeip_new nc True db (Some \<lparr>net_addr = V4 a, net_prefix_len = 32\<rparr>) None = (db, Inl ShiftOverflow)"
  by (simp add: fakeip_new_def fakeip_new_with_cache_def broadcast_optional_def broadcast_address_def shift_right_max_def)

end
