(* ===== verification/Spec2Isabelle.thy ===== *)
theory Spec2Isabelle
  imports Ovpn_Packet Ovpn_Session Ovpn_Reliable Ovpn_Replay Ovpn_Fragment Ovpn_Queue Ovpn_Keys
    Ovpn_Soft_Reset Ovpn_Renegotiation Ovpn_Ip_Pool Ovpn_Delivery Ovpn_Mux Ovpn_Mss Srs_Ip_Set Route_Spec Route_Walk Fake_Ip
begin

text \<open>
  Verification development for Zay, a network proxy whose core is a Rust port of sing-box. All
  sources below are relative to \<open>crates/singbox/src\<close>.

  \<^bold>\<open>The program and the parts modelled.\<close> An inbound accepts a connection; the router matches it
  against rules and rule-sets and picks an outbound or endpoint; a domain may have been answered with
  a fake address, which is translated back; endpoints such as OpenVPN carry the traffic. Three of
  these parts are modelled: the OpenVPN endpoint (\<open>protocol/openvpn\<close>), the router with its binary
  rule-sets (\<open>route\<close>), and the fake-IP allocator with its persistent store (\<open>dns\<close>).

  \<^bold>\<open>Conventions\<close> (\<open>Zay_Prelude\<close>). Machine integers are words. Structs are records with prefixed field
  names, enums are datatypes, errors are the left side of a sum and every early return is a branch. A
  value behind a mutex is passed and returned explicitly: an operation that holds the lock is one
  step, and concurrent callers are sequences of steps. Clock readings, random bytes and the outcome of
  each SQL statement are arguments. Code of other crates is a record of functions (\<open>crypto\<close>,
  \<open>data_crypto\<close>, \<open>compressors\<close>) or a function argument, and what it documents is a named hypothesis
  (\<open>crypto_ok\<close>, \<open>data_crypto_ok\<close>, \<open>compressors_ok\<close>, \<open>random_ok\<close>) that a concrete instance satisfies
  in the witness of each property that uses it.

  \<^bold>\<open>Contracts.\<close> Six locales state what components promise each other, each interpreted on the model:
  \<open>event_system\<close> (an invariant kept by every event), \<open>wire_format\<close> (a codec and its canonical values),
  \<open>admission_filter\<close> (nothing is admitted twice), \<open>protected_codec\<close> (control protection), \<open>data_cipher\<close>
  (data protection) and \<open>keyed_store\<close> (read after write).

  \<^bold>\<open>OpenVPN control channel.\<close>
  \<^item> \<open>Ovpn_Packet\<close> (\<open>packet.rs\<close>, \<open>stream.rs\<close>): parsing and encoding are inverse on canonical packets;
    the TCP framing returns the packets written.
  \<^item> \<open>Ovpn_Session\<close> (\<open>session.rs\<close>): packet ids are handed out without gap or repetition.
  \<^item> \<open>Ovpn_Reliable\<close> (\<open>reliable.rs\<close>): the send window is bounded, the receive window delivers every
    packet once and in order and accepts exactly the packets inside the window.
  \<^item> \<open>Ovpn_Replay\<close> (\<open>replay.rs\<close>): no id is accepted twice, and exactly which ids are accepted.
  \<^item> \<open>Ovpn_Wrap\<close> (\<open>control_wrap.rs\<close>): \<open>tls-auth\<close>, \<open>tls-crypt\<close>, \<open>tls-crypt-v2\<close>; what is unwrapped is what
    was wrapped, and never twice.
  \<^item> \<open>Ovpn_Channel\<close> (\<open>control_channel.rs\<close>): one channel made of the parts above, every method as a
    function on its state.
  \<^item> \<open>Ovpn_Link\<close> and \<open>Ovpn_Delivery\<close>: two channels and the network between them. Over a link that loses,
    repeats and reorders, the TLS bytes handed on are a prefix of those taken over; over a link that
    keeps the order and loses nothing, all of them arrive.
  \<^item> \<open>Ovpn_Mux\<close> (\<open>control_mux.rs\<close>, the loop of \<open>control_io.rs\<close>): packets reach the channel of their key,
    also when it is registered after they arrive.

  \<^bold>\<open>OpenVPN data channel and renegotiation.\<close>
  \<^item> \<open>Ovpn_Data_Codec\<close> (\<open>data.rs\<close>, \<open>data_aead.rs\<close>, \<open>data_cbc.rs\<close>, \<open>data_stream.rs\<close>, \<open>data_static.rs\<close>,
    \<open>data_crypto.rs\<close>): the four codecs of peers open exactly what was sealed and nothing twice;
    packets without a valid authentication code change nothing.
  \<^item> \<open>Ovpn_Fragment\<close> (\<open>fragment.rs\<close>) and \<open>Ovpn_Compression\<close> (\<open>compression.rs\<close>): round trips for every mode
    and every order of fragments, bounded reassembly memory, no outbound compression without consent.
  \<^item> \<open>Ovpn_Mss\<close> (\<open>mss.rs\<close>): exactly the MSS options above the limit are lowered, the TCP checksum stays
    valid, and the derived limit is the largest segment that fits.
  \<^item> \<open>Ovpn_Queue\<close> (\<open>queue.rs\<close>), \<open>Ovpn_Keys\<close> (\<open>data_key_ring.rs\<close>), \<open>Ovpn_Soft_Reset\<close> (\<open>soft_reset.rs\<close>),
    \<open>Ovpn_Renegotiation\<close> (\<open>renegotiation.rs\<close>), \<open>Ovpn_Ip_Pool\<close> (\<open>ip_pool.rs\<close>): the bounded queue, the key
    hand-over, the numbering of negotiations, usage budgets and the address pools of the server.

  \<^bold>\<open>Routing.\<close>
  \<^item> \<open>Srs_Codec\<close>, \<open>Srs_Ip_Set\<close>, \<open>Srs_Succinct\<close>, \<open>Srs_Trie\<close>, \<open>Srs_Matcher\<close> (\<open>route/srs.rs\<close>): the binary
    format; address sets survive a round trip, and the succinct trie decides membership in the list
    of domains it was built from.
  \<^item> \<open>Route_Types\<close>, \<open>Route_Match\<close>, \<open>Route_Spec\<close> (\<open>route/mod.rs\<close>): rules, their evaluation on bit masks,
    their meaning, and that a compiled rule-set decides as its source does.
  \<^item> \<open>Route_Walk\<close> (\<open>route/mod.rs\<close>, \<open>outbound.rs\<close>): both walks over the rule list take the first matching
    rule, and the stepwise walk ends.
  \<^item> \<open>Zay_Text\<close>, \<open>Ip_Text\<close>: the text functions and the address syntax of the standard library.

  \<^bold>\<open>Fake addresses.\<close> \<open>Dns_Store\<close> (\<open>dns/persistent.rs\<close>) and \<open>Fake_Ip\<close> (\<open>dns/fakeip.rs\<close>): the store returns
  what was written, the tables of the allocator are inverse to each other in every reachable state, an
  address is always served from a usable range, and a restart on the store serves the old mappings.

  \<^bold>\<open>Bounds and termination.\<close> No definition uses fuel: every loop is a total function with a measure. The
  bounds in hypotheses are those of the wire (ids below \<open>2 ^ 32\<close>, packets of at most 65535 bytes).

  \<^bold>\<open>Behaviour that deviates from the intent\<close> is shown by lemmas on concrete or general states:
  \<open>acknowledged_packet_lost\<close> in \<open>Ovpn_Link\<close>; \<open>duplicate_datagram_ends_driver\<close>, \<open>buffered_data_fails_registration\<close>,
  \<open>duplicate_registration_cuts_writer\<close> and \<open>newer_session_blocks_older\<close> in \<open>Ovpn_Mux\<close>; \<open>staging_evicts_send_key\<close>
  in \<open>Ovpn_Keys\<close>; \<open>fast_retransmission_repeats\<close> in \<open>Ovpn_Reliable\<close>; \<open>sticky_lease_takes_server_address\<close> in
  \<open>Ovpn_Ip_Pool\<close>; \<open>adaptive_growth_stays_on\<close> in \<open>Ovpn_Compression\<close>; \<open>upper_case_suffix_lost\<close> in \<open>Route_Spec\<close>;
  \<open>narrow_range_escapes\<close> and \<open>single_address_range_panics\<close> in \<open>Fake_Ip\<close>.

  \<^bold>\<open>Not modelled.\<close> Asynchronous tasks, sockets, timers and cancellation are represented only by the
  steps they take on the modelled state. The TLS handshakes, certificates and key derivation of
  OpenVPN, its option texts and its connection supervisors, the other proxy protocols and VPN clients,
  QUIC congestion control, DNS transports, inbounds, platform services, the JSON configuration, the
  command line and the user interfaces are left out: they are dialogues with remote parties, the
  operating system or other crates, whose behaviour the sources do not determine. Of the rule-set
  format the JSON form and the AdGuard conversion are left out, of the router the parsing of its
  configuration, logging and the asynchronous resolution of destinations.
\<close>

end
